(* ===== verification/AIM_Prelude.thy ===== *)
theory AIM_Prelude
  imports Main "HOL-Library.Word"
begin

text \<open>
  Shared vocabulary of the development: the machine types of the i386 port
  (\<^verbatim>\<open>include/sys/types.h\<close>, with \<^verbatim>\<open>__LP64__\<close> undefined, so that
  \<^verbatim>\<open>unsigned long\<close>, \<^verbatim>\<open>size_t\<close> and pointers are 32 bits wide and \<^verbatim>\<open>addr_t\<close> is
  64 bits wide), the error numbers of \<^verbatim>\<open>include/errno.h\<close>, a result type for code that
  can panic, the collections of facts the component theories extend, and generic lemmas
  on words and on updates of memories.
\<close>

unbundle bit_operations_syntax

section \<open>Machine types\<close>

type_synonym u8 = "8 word"
type_synonym u16 = "16 word"
type_synonym u32 = "32 word"
type_synonym u64 = "64 word"

text \<open>
  A memory of \<^verbatim>\<open>unsigned long\<close> cells: a pointer \<^verbatim>\<open>unsigned long *p\<close> is the index of
  its cell, \<^verbatim>\<open>p[k]\<close> is the cell \<open>p + k\<close>. A memory of bytes likewise.
\<close>

type_synonym wmem = "nat \<Rightarrow> u32"
type_synonym bmem = "nat \<Rightarrow> u8"

section \<open>Error numbers\<close>

abbreviation (input) EOF :: int where "EOF \<equiv> -1"
abbreviation (input) ENOENT :: int where "ENOENT \<equiv> 2"
abbreviation (input) ENOMEM :: int where "ENOMEM \<equiv> 12"
abbreviation (input) EACCES :: int where "EACCES \<equiv> 13"
abbreviation (input) EFAULT :: int where "EFAULT \<equiv> 14"
abbreviation (input) EEXIST :: int where "EEXIST \<equiv> 17"
abbreviation (input) EINVAL :: int where "EINVAL \<equiv> 22"
abbreviation (input) ENOTSUP :: int where "ENOTSUP \<equiv> 91"

section \<open>Code that can panic\<close>

text \<open>
  \<^verbatim>\<open>panic()\<close> does not return: a function that may reach it returns a value of this
  type, and everything after the call is skipped.
\<close>

datatype 'a outcome = Panic | Done 'a

fun bind_outcome :: "'a outcome \<Rightarrow> ('a \<Rightarrow> 'b outcome) \<Rightarrow> 'b outcome" where
  "bind_outcome Panic f = Panic"
| "bind_outcome (Done x) f = f x"

text \<open>
  A call that may panic and may also not return at all, which is \<open>None\<close>, and the sequence of
  two such calls.
\<close>

type_synonym 'a run = "'a outcome option"

definition rbind :: "'a run \<Rightarrow> ('a \<Rightarrow> 'b run) \<Rightarrow> 'b run" where
  "rbind m f = Option.bind m (\<lambda>x. case x of Panic \<Rightarrow> Some Panic | Done v \<Rightarrow> f v)"

abbreviation rret :: "'a \<Rightarrow> 'a run" where "rret x \<equiv> Some (Done x)"

definition rassert :: "bool \<Rightarrow> unit run" where
  "rassert b = (if b then rret () else Some Panic)"

lemma rbind_simps [simp]:
  "rbind None f = None" "rbind (Some Panic) f = Some Panic" "rbind (rret x) f = f x"
  by (simp_all add: rbind_def)

lemma rassert_simps [simp]: "rassert True = rret ()" "rassert False = Some Panic"
  by (simp_all add: rassert_def)

lemma rbind_eq_ret: "rbind m f = rret y \<longleftrightarrow> (\<exists>x. m = rret x \<and> f x = rret y)"
  by (auto simp: rbind_def split: outcome.splits Option.bind_splits)

lemma rbind_eq_Panic: "rbind m f = Some Panic \<longleftrightarrow> m = Some Panic \<or> (\<exists>x. m = rret x \<and> f x = Some Panic)"
  by (auto simp: rbind_def split: outcome.splits Option.bind_splits)

lemma rbind_assoc: "rbind (rbind m f) g = rbind m (\<lambda>x. rbind (f x) g)"
  by (auto simp: rbind_def split: outcome.splits Option.bind_splits)

lemma rbind_mono [partial_function_mono]:
  assumes "mono_option B" "\<And>y. mono_option (\<lambda>f. C y f)"
  shows "mono_option (\<lambda>f. rbind (B f) (\<lambda>y. C y f))"
  unfolding rbind_def
proof (rule bind_mono[OF assms(1)])
  fix y
  show "mono_option (\<lambda>f. case y of Panic \<Rightarrow> Some Panic | Done v \<Rightarrow> C v f)"
    by (cases y) (use assms(2) in \<open>simp_all add: option.const_mono\<close>)
qed

lemma bind_outcome_eq_Done [simp]:
  "bind_outcome m f = Done y \<longleftrightarrow> (\<exists>x. m = Done x \<and> f x = Done y)"
  by (cases m) auto

lemma bind_outcome_eq_Panic:
  "bind_outcome m f = Panic \<longleftrightarrow> m = Panic \<or> (\<exists>x. m = Done x \<and> f x = Panic)"
  by (cases m) auto

section \<open>Counting loops\<close>

text \<open>
  \<^verbatim>\<open>for (k = a; k < b; k++) body\<close>, the body a transformer of the loop's state; a loop
  whose body may return early is \<open>list_ex\<close> of the condition of its return.
\<close>

definition for_loop :: "nat \<Rightarrow> nat \<Rightarrow> (nat \<Rightarrow> 's \<Rightarrow> 's) \<Rightarrow> 's \<Rightarrow> 's" where
  "for_loop a b body s = fold body [a..<b] s"

lemma for_loop_empty [simp]: "b \<le> a \<Longrightarrow> for_loop a b body s = s"
  by (simp add: for_loop_def)

lemma for_loop_Suc: "a \<le> b \<Longrightarrow> for_loop a (Suc b) body s = body b (for_loop a b body s)"
  by (simp add: for_loop_def)

lemma for_loop_first: "a < b \<Longrightarrow> for_loop a b body s = for_loop (Suc a) b body (body a s)"
  by (simp add: for_loop_def upt_conv_Cons)

lemma for_loop_inv:
  assumes "P a s" "a \<le> b" "\<And>k s. a \<le> k \<Longrightarrow> k < b \<Longrightarrow> P k s \<Longrightarrow> P (Suc k) (body k s)"
  shows "P b (for_loop a b body s)"
  using assms(2,1,3)
  by (induction b rule: dec_induct) (auto simp: for_loop_Suc)

lemma list_ex_upt [simp]: "list_ex c [a..<b] \<longleftrightarrow> (\<exists>k. a \<le> k \<and> k < b \<and> c k)"
  by (auto simp: list_ex_iff)

section \<open>Collections of facts\<close>

named_theorems aim_word \<open>rewriting word expressions to natural numbers and bits\<close>
named_theorems aim_frame \<open>what an operation leaves unchanged\<close>

section \<open>Words\<close>

lemma and_eq_0_iff_bits:
  fixes w m :: "'a::len word"
  shows "w AND m = 0 \<longleftrightarrow> (\<forall>i. bit m i \<longrightarrow> \<not> bit w i)"
  using bit_imp_le_length[of w] by (auto simp: bit_eq_iff bit_simps)

lemma word_eq_0_iff_bits:
  fixes w :: "'a::len word"
  shows "w = 0 \<longleftrightarrow> (\<forall>i. \<not> bit w i)"
  using bit_imp_le_length[of w] by (auto simp: bit_eq_iff)

lemma word_neq_0_ex_bit:
  fixes w :: "'a::len word"
  assumes "w \<noteq> 0"
  obtains i where "bit w i" "i < LENGTH('a)"
  using assms bit_imp_le_length by (auto simp: word_eq_0_iff_bits)

lemma and_mask_eq_0_iff_bits:
  fixes w :: "'a::len word"
  shows "w AND mask n = 0 \<longleftrightarrow> (\<forall>i<n. \<not> bit w i)"
  using bit_imp_le_length by (auto simp: and_eq_0_iff_bits bit_simps)

lemma unat_and_mask:
  fixes w :: "'a::len word"
  shows "unat (w AND mask n) = unat w mod 2 ^ n"
  by (metis take_bit_eq_mask take_bit_eq_mod unsigned_take_bit_eq)

lemma unat_drop_bit:
  fixes w :: "'a::len word"
  shows "unat (drop_bit n w) = unat w div 2 ^ n"
  by (subst unat_drop_bit_eq) (simp add: drop_bit_eq_div)

lemma bit_word_iff_nat:
  fixes w :: "'a::len word"
  shows "bit w i \<longleftrightarrow> bit (unat w) i"
  by (auto simp: bit_unsigned_iff dest: bit_imp_le_length)

lemma bit_nat_less: 
  assumes "(y::nat) < 2 ^ k" "bit y n" shows "n < k"
proof -
  have "take_bit k y = y" using assms(1) by (simp add: take_bit_nat_eq_self)
  then have "bit (take_bit k y) n" using assms(2) by simp
  then show ?thesis by (simp add: bit_take_bit_iff)
qed

lemma unat_less_bit:
  fixes w :: "'a::len word"
  assumes "unat w < 2 ^ n" "bit w i"
  shows "i < n"
  using assms by (auto simp: bit_word_iff_nat intro: bit_nat_less)

lemma and_not_mask_minus:
  fixes w :: "'a::len word"
  shows "w AND NOT (mask n) = w - (w AND mask n)"
proof -
  have "NOT w AND (w AND mask n) = 0"
    by (simp add: bit_eq_iff bit_simps)
  then have "w - (w AND mask n) = w AND NOT (w AND mask n)"
    by (rule disjunctive_diff_eq_and_not)
  also have "\<dots> = w AND NOT (mask n)"
    by (rule bit_word_eqI) (auto simp: bit_simps)
  finally show ?thesis by simp
qed

lemma unat_and_not_mask:
  fixes w :: "'a::len word"
  shows "unat (w AND NOT (mask n)) = unat w - unat w mod 2 ^ n"
proof -
  have "w AND mask n \<le> w" by (simp add: word_and_le2)
  then show ?thesis
    by (simp add: and_not_mask_minus unat_sub unat_and_mask)
qed

lemma and_not_mask_eq_0_iff:
  fixes w :: "'a::len word"
  shows "w AND NOT (mask n) = 0 \<longleftrightarrow> unat w < 2 ^ n"
proof -
  have "w AND NOT (mask n) = 0 \<longleftrightarrow> unat (w AND NOT (mask n)) = 0"
    by (simp add: unsigned_eq_0_iff)
  also have "\<dots> \<longleftrightarrow> unat w mod 2 ^ n = unat w"
    using mod_less_eq_dividend[of "unat w" "2 ^ n"]
    by (simp only: unat_and_not_mask) linarith
  also have "\<dots> \<longleftrightarrow> unat w < 2 ^ n"
    using mod_less_divisor[of "2 ^ n" "unat w"] by (metis mod_less zero_less_numeral zero_less_power)
  finally show ?thesis .
qed

lemma unat_le_iff: "unat (x :: 'a::len word) \<le> unat y \<longleftrightarrow> x \<le> y"
  by (simp add: word_le_nat_alt)

lemma unat_minus_le:
  fixes x y :: "'a::len word"
  assumes "unat y \<le> unat x"
  shows "unat (x - y) = unat x - unat y"
  using assms by (simp add: unat_sub word_le_nat_alt)

lemma unat_plus_small:
  fixes x y :: "'a::len word"
  assumes "unat x + unat y < 2 ^ LENGTH('a)"
  shows "unat (x + y) = unat x + unat y"
  using assms by (simp add: unat_word_ariths)

lemma unat_word_of_nat_small:
  assumes "n < 2 ^ LENGTH('a)"
  shows "unat (word_of_nat n :: 'a::len word) = n"
  using assms by (simp add: unsigned_of_nat take_bit_nat_eq_self)

lemma unat_Suc_less:
  fixes i n :: "'a::len word"
  assumes "i < n"
  shows "unat (i + 1) = Suc (unat i)"
proof -
  have "unat i < unat n" "unat n < 2 ^ LENGTH('a)" using assms by (simp_all add: word_less_nat_alt)
  then have "unat i + unat (1 :: 'a word) < 2 ^ LENGTH('a)" by (simp only: unsigned_1)
  from unat_plus_small[OF this] show ?thesis by simp
qed

lemma unat_word_of_nat_le: "unat (word_of_nat n :: 'a::len word) \<le> n"
  by (simp add: unsigned_of_nat take_bit_eq_mod)

lemma unat_minus_1:
  fixes n :: "'a::len word"
  assumes "n \<noteq> 0"
  shows "unat (n - 1) = unat n - 1" "0 < unat n"
  using assms by (auto simp: unat_minus_one unat_gt_0)

lemma unat_two_power:
  assumes "k < LENGTH('a)"
  shows "unat (2 ^ k :: 'a::len word) = 2 ^ k"
  using unat_word_of_nat_small[of "2 ^ k", where 'a = 'a] assms
  by (simp add: power_strict_increasing)

section \<open>Memories\<close>

text \<open>The cells of a block of \<open>n\<close> cells that starts at \<open>p\<close>.\<close>

abbreviation block :: "nat \<Rightarrow> nat \<Rightarrow> nat set" where
  "block p n \<equiv> {p ..< p + n}"

end
