(* ===== verification/Bitops.thy ===== *)
theory Bitops
  imports AIM_Prelude
begin

text \<open>
  The bit searches and the population count of \<^verbatim>\<open>include/bitops.h\<close>, for
  \<^verbatim>\<open>BITS_PER_LONG == 32\<close> and without compiler builtins. Each routine is compared with
  the definition its comment gives: the 1-based position of the least (most) significant
  set bit, 0 if there is none, and the number of set bits.
\<close>

section \<open>Find first set\<close>

text \<open>
  One halving step of \<^verbatim>\<open>__generic_ffs\<close>: if none of the low \<open>k\<close> bits is set, add \<open>k\<close> to
  the position and shift them out.
\<close>

definition ffs_step :: "nat \<Rightarrow> u32 \<Rightarrow> nat \<times> u32 \<Rightarrow> nat \<times> u32" where
  "ffs_step k m = (\<lambda>(num, word).
     if word AND m = 0 then (num + k, drop_bit k word) else (num, word))"

definition uu_generic_ffs :: "u32 \<Rightarrow> nat" where
  "uu_generic_ffs word =
     (if word = 0 then 0
      else let (num, word) = ffs_step 16 0xffff (1, word);
               (num, word) = ffs_step 8 0xff (num, word);
               (num, word) = ffs_step 4 0xf (num, word);
               (num, word) = ffs_step 2 0x3 (num, word)
           in if word AND 0x1 = 0 then num + 1 else num)"

definition ffs :: "u32 \<Rightarrow> nat" where
  "ffs x = uu_generic_ffs x"

definition ffz :: "u32 \<Rightarrow> nat" where
  "ffz x = ffs (NOT x)"

section \<open>Find last set\<close>

definition fls_step :: "nat \<Rightarrow> nat \<times> u32 \<Rightarrow> nat \<times> u32" where
  "fls_step k = (\<lambda>(num, word).
     if word AND push_bit (32 - k) (NOT 0) = 0 then (num - k, push_bit k word)
     else (num, word))"

definition uu_generic_fls :: "u32 \<Rightarrow> nat" where
  "uu_generic_fls word =
     (if word = 0 then 0
      else let (num, word) = fls_step 16 (32, word);
               (num, word) = fls_step 8 (num, word);
               (num, word) = fls_step 4 (num, word);
               (num, word) = fls_step 2 (num, word)
           in if word AND push_bit (32 - 1) (NOT 0) = 0 then num - 1 else num)"

definition fls :: "u32 \<Rightarrow> nat" where
  "fls x = uu_generic_fls x"

definition flz :: "u32 \<Rightarrow> nat" where
  "flz x = fls (NOT x)"

section \<open>64-bit variants\<close>

text \<open>
  The casts \<^verbatim>\<open>(uint32_t)word\<close> and \<^verbatim>\<open>(unsigned long)word\<close> keep the low 32 bits.
  \<^verbatim>\<open>__generic_ffz64\<close> tests \<^verbatim>\<open>#if bits_per_long == 32\<close>, an undefined identifier, so its
  upper half is never looked at.
\<close>

definition uu_generic_ffs64 :: "u64 \<Rightarrow> nat" where
  "uu_generic_ffs64 word =
     (if (ucast word :: u32) = 0 then ffs (ucast (drop_bit 32 word)) + 32
      else ffs (ucast word))"

definition uu_generic_fls64 :: "u64 \<Rightarrow> nat" where
  "uu_generic_fls64 word =
     (if (ucast word :: u32) = 0 then fls (ucast (drop_bit 32 word)) + 32
      else fls (ucast word))"

definition uu_generic_ffz64 :: "u64 \<Rightarrow> nat" where
  "uu_generic_ffz64 word = ffz (ucast word)"

definition uu_generic_flz64 :: "u64 \<Rightarrow> nat" where
  "uu_generic_flz64 word =
     (if (ucast word :: u32) = 0 then flz (ucast (drop_bit 32 word)) + 32
      else flz (ucast word))"

section \<open>Hamming weight\<close>

definition hweight32 :: "u32 \<Rightarrow> nat" where
  "hweight32 w =
     (let res = w - (drop_bit 1 w AND 0x55555555);
          res = (res AND 0x33333333) + (drop_bit 2 res AND 0x33333333);
          res = (res + drop_bit 4 res) AND 0x0F0F0F0F;
          res = res + drop_bit 8 res
      in unat ((res + drop_bit 16 res) AND 0x000000FF))"

definition hweight64 :: "u64 \<Rightarrow> nat" where
  "hweight64 w = hweight32 (ucast (drop_bit 32 w)) + hweight32 (ucast w)"

definition hweight :: "u32 \<Rightarrow> nat" where
  "hweight x = hweight32 x"

section \<open>Specification of the searches\<close>

definition lowest_bit :: "'a::len word \<Rightarrow> nat \<Rightarrow> bool" where
  "lowest_bit w n \<longleftrightarrow> bit w n \<and> (\<forall>i<n. \<not> bit w i)"

definition highest_bit :: "'a::len word \<Rightarrow> nat \<Rightarrow> bool" where
  "highest_bit w n \<longleftrightarrow> bit w n \<and> (\<forall>i>n. \<not> bit w i)"

definition popcount :: "'a::len word \<Rightarrow> nat" where
  "popcount w = card {i. bit w i}"

lemma lowest_bit_unique: "lowest_bit w m \<Longrightarrow> lowest_bit w n \<Longrightarrow> m = n"
  unfolding lowest_bit_def by (metis linorder_neqE_nat)

lemma highest_bit_unique: "highest_bit w m \<Longrightarrow> highest_bit w n \<Longrightarrow> m = n"
  unfolding highest_bit_def by (metis linorder_neqE_nat)

section \<open>Correctness of find first set\<close>

text \<open>
  The state of the search over \<open>w\<close> after some steps: \<open>word\<close> is \<open>w\<close> shifted by
  \<open>num - 1\<close>, no bit shifted out was set, and one of the low \<open>k\<close> bits is.
\<close>

definition ffs_inv :: "u32 \<Rightarrow> nat \<Rightarrow> nat \<times> u32 \<Rightarrow> bool" where
  "ffs_inv w k s \<longleftrightarrow>
     (let (num, word) = s in
       1 \<le> num \<and> word = drop_bit (num - 1) w \<and> (\<forall>i<num - 1. \<not> bit w i) \<and>
       (\<exists>i<k. bit word i))"

lemma ffs_step_inv:
  assumes inv: "ffs_inv w (k + k) s" and m: "m = mask k"
  shows "ffs_inv w k (ffs_step k m s)"
proof -
  obtain num word where s: "s = (num, word)" by (cases s)
  from inv have n: "1 \<le> num" and word: "word = drop_bit (num - 1) w"
    and low: "\<forall>i<num - 1. \<not> bit w i" and ex: "\<exists>i<k + k. bit word i"
    by (auto simp: ffs_inv_def s)
  show ?thesis
  proof (cases "word AND m = 0")
    case True
    then have none: "\<forall>i<k. \<not> bit word i" by (simp add: m and_mask_eq_0_iff_bits)
    from ex obtain i where i: "i < k + k" "bit word i" by blast
    with none have "k \<le> i" by (meson not_le)
    with i have "bit (drop_bit k word) (i - k)" "i - k < k"
      by (auto simp: bit_drop_bit_eq)
    moreover have "\<not> bit w j" if "j < num + k - 1" for j
    proof (cases "j < num - 1")
      case False
      with that n have "j - (num - 1) < k" by linarith
      with none have "\<not> bit word (j - (num - 1))" by blast
      then show ?thesis using False by (simp add: word bit_drop_bit_eq)
    qed (use low in blast)
    ultimately show ?thesis
      using n True by (auto simp: ffs_inv_def ffs_step_def s word add.commute)
  next
    case False
    then have "\<exists>i<k. bit word i" by (simp add: m and_mask_eq_0_iff_bits)
    with False n low show ?thesis by (simp add: ffs_inv_def ffs_step_def s word)
  qed
qed

lemma ffs_inv_start: "w \<noteq> 0 \<Longrightarrow> ffs_inv w 32 (1, w)"
  by (auto simp: ffs_inv_def elim!: word_neq_0_ex_bit)

lemma ffs_inv_1: "ffs_inv w 1 (num, word) \<Longrightarrow> lowest_bit w (num - 1)"
  by (auto simp: ffs_inv_def lowest_bit_def bit_drop_bit_eq)

lemma masks_32:
  "(0xffff :: u32) = mask 16" "(0xff :: u32) = mask 8" "(0xf :: u32) = mask 4"
  "(0x3 :: u32) = mask 2" "(0x1 :: u32) = mask 1"
  by (simp_all add: mask_eq_exp_minus_1)

lemma fst_ffs_step_1:
  "fst (ffs_step 1 0x1 s) = (if snd s AND 0x1 = 0 then fst s + 1 else fst s)"
  by (cases s) (simp add: ffs_step_def)

lemma ffs_lowest_bit:
  assumes "w \<noteq> 0"
  shows "1 \<le> ffs w \<and> lowest_bit w (ffs w - 1)"
proof -
  define s1 where "s1 = ffs_step 16 0xffff (1, w)"
  define s2 where "s2 = ffs_step 8 0xff s1"
  define s3 where "s3 = ffs_step 4 0xf s2"
  define s4 where "s4 = ffs_step 2 0x3 s3"
  define s5 where "s5 = ffs_step 1 0x1 s4"
  have "ffs_inv w 16 s1" unfolding s1_def
    by (rule ffs_step_inv[OF _ masks_32(1)]) (use ffs_inv_start[OF assms] in simp)
  then have "ffs_inv w 8 s2" unfolding s2_def
    by (intro ffs_step_inv[OF _ masks_32(2)]) simp
  then have "ffs_inv w 4 s3" unfolding s3_def
    by (intro ffs_step_inv[OF _ masks_32(3)]) simp
  then have "ffs_inv w 2 s4" unfolding s4_def
    by (intro ffs_step_inv[OF _ masks_32(4)]) simp
  then have inv5: "ffs_inv w 1 s5" unfolding s5_def
    by (intro ffs_step_inv[OF _ masks_32(5)]) (simp add: numeral_2_eq_2)
  have "ffs w = fst s5"
    unfolding s5_def s4_def s3_def s2_def s1_def fst_ffs_step_1
    using assms by (simp add: ffs_def uu_generic_ffs_def Let_def split_beta)
  moreover obtain num word where "s5 = (num, word)" by (cases s5)
  moreover have "1 \<le> fst s5" using inv5 by (auto simp: ffs_inv_def)
  ultimately show ?thesis using inv5 ffs_inv_1 by auto
qed

section \<open>Correctness of find last set\<close>

definition fls_inv :: "u32 \<Rightarrow> nat \<Rightarrow> nat \<times> u32 \<Rightarrow> bool" where
  "fls_inv w k s \<longleftrightarrow>
     (let (num, word) = s in
       num \<le> 32 \<and> k \<le> num \<and> word = push_bit (32 - num) w \<and> (\<forall>i\<ge>num. \<not> bit w i) \<and>
       (\<exists>i<32. 32 - k \<le> i \<and> bit word i))"

lemma and_high_mask_eq_0_iff:
  fixes word :: u32
  shows "word AND NOT (mask (32 - k)) = 0 \<longleftrightarrow> (\<forall>i<32. 32 - k \<le> i \<longrightarrow> \<not> bit word i)"
  by (simp add: and_eq_0_iff_bits bit_not_iff bit_mask_iff not_less) (meson not_le)

lemma high_mask_32: "push_bit n (NOT 0) = NOT (mask n :: u32)"
  by simp

lemma fls_invI:
  assumes "num \<le> 32" "k \<le> num" "word = push_bit (32 - num) w" "\<And>i. num \<le> i \<Longrightarrow> \<not> bit w i"
    "i < 32" "32 - k \<le> i" "bit word i"
  shows "fls_inv w k (num, word)"
  using assms by (auto simp: fls_inv_def)

lemma fls_step_inv:
  assumes inv: "fls_inv w (k + k) s"
  shows "fls_inv w k (fls_step k s)"
proof -
  obtain num word where s: "s = (num, word)" by (cases s)
  from inv have n: "num \<le> 32" "k + k \<le> num" and word: "word = push_bit (32 - num) w"
    and high: "\<forall>i\<ge>num. \<not> bit w i" and ex: "\<exists>i<32. 32 - (k + k) \<le> i \<and> bit word i"
    by (auto simp: fls_inv_def s)
  then have k: "k \<le> 32" by linarith
  show ?thesis
  proof (cases "word AND NOT (mask (32 - k)) = 0")
    case True
    then have none: "\<forall>i<32. 32 - k \<le> i \<longrightarrow> \<not> bit word i" by (simp add: and_high_mask_eq_0_iff)
    from ex obtain i where i: "i < 32" "32 - (k + k) \<le> i" "bit word i" by blast
    with none have "i < 32 - k" by (meson not_le)
    with i have bit: "bit (push_bit k word) (i + k)" "i + k < 32" "32 - k \<le> i + k"
      by (auto simp: bit_simps)
    have hi: "\<not> bit w j" if "num - k \<le> j" for j
    proof (cases "j < num")
      case True
      with that n have "\<not> bit word (j + (32 - num))" by (intro none[rule_format]) linarith+
      then show ?thesis using True n by (simp add: word bit_simps)
    qed (use high in auto)
    have "32 - (num - k) = k + (32 - num)" using n by linarith
    then have shift: "push_bit k word = push_bit (32 - (num - k)) w"
      by (simp add: word push_bit_push_bit)
    have "fls_step k s = (num - k, push_bit k word)"
      using True by (simp add: fls_step_def s)
    moreover have "num - k \<le> 32" "k \<le> num - k" using n by linarith+
    ultimately show ?thesis
      using fls_invI[OF _ _ shift hi bit(2,3,1)] by simp
  next
    case False
    then have "fls_step k s = (num, word)" by (simp add: fls_step_def s)
    moreover have "\<exists>i<32. 32 - k \<le> i \<and> bit word i"
      using False by (simp add: and_high_mask_eq_0_iff)
    moreover have "k \<le> num" using n by linarith
    ultimately show ?thesis using n high word by (simp add: fls_inv_def)
  qed
qed

lemma fls_inv_start:
  assumes "w \<noteq> 0"
  shows "fls_inv w 32 (32, w)"
proof -
  obtain i where "bit w i" "i < 32" using word_neq_0_ex_bit[OF assms] by auto
  moreover have "\<forall>i\<ge>32. \<not> bit w i" using bit_imp_le_length[of w] by force
  ultimately show ?thesis by (auto simp: fls_inv_def)
qed

lemma fls_inv_1:
  assumes "fls_inv w 1 (num, word)"
  shows "1 \<le> num \<and> highest_bit w (num - 1)"
proof -
  from assms obtain i where n: "num \<le> 32" "1 \<le> num" "word = push_bit (32 - num) w"
    "\<forall>i\<ge>num. \<not> bit w i" and i: "i < 32" "31 \<le> i" "bit word i"
    by (auto simp: fls_inv_def)
  then have "i = 31" by simp
  with i n have "bit w (num - 1)" by (auto simp: bit_simps)
  with n show ?thesis by (auto simp: highest_bit_def)
qed

lemma fst_fls_step_1:
  "fst (fls_step 1 s) =
     (if snd s AND push_bit (32 - 1) (NOT 0) = 0 then fst s - 1 else fst s)"
  by (cases s) (simp add: fls_step_def)

lemma fls_highest_bit:
  assumes "w \<noteq> 0"
  shows "1 \<le> fls w \<and> highest_bit w (fls w - 1)"
proof -
  define s1 where "s1 = fls_step 16 (32, w)"
  define s2 where "s2 = fls_step 8 s1"
  define s3 where "s3 = fls_step 4 s2"
  define s4 where "s4 = fls_step 2 s3"
  define s5 where "s5 = fls_step 1 s4"
  have "fls_inv w 16 s1" unfolding s1_def
    by (rule fls_step_inv) (use fls_inv_start[OF assms] in simp)
  then have "fls_inv w 8 s2" unfolding s2_def by (intro fls_step_inv) simp
  then have "fls_inv w 4 s3" unfolding s3_def by (intro fls_step_inv) simp
  then have "fls_inv w 2 s4" unfolding s4_def by (intro fls_step_inv) simp
  then have inv5: "fls_inv w 1 s5" unfolding s5_def
    by (intro fls_step_inv) (simp add: numeral_2_eq_2)
  have "fls w = fst s5"
    unfolding s5_def s4_def s3_def s2_def s1_def fst_fls_step_1
    using assms by (simp add: fls_def uu_generic_fls_def Let_def split_beta)
  with inv5 fls_inv_1 show ?thesis by (cases s5) auto
qed

section \<open>The searches as minimum and maximum\<close>

lemma finite_bits [simp]: "finite {i. bit (w :: 'a::len word) i}"
  by (rule finite_subset[of _ "{..<LENGTH('a)}"]) (auto dest: bit_imp_le_length)

lemma lowest_bit_Min: "lowest_bit w n \<Longrightarrow> Min {i. bit w i} = n"
  by (rule Min_eqI) (auto simp: lowest_bit_def not_less)

lemma highest_bit_Max: "highest_bit w n \<Longrightarrow> Max {i. bit w i} = n"
  by (rule Max_eqI) (auto simp: highest_bit_def not_less)

lemma ffs_eq: "ffs w = (if w = 0 then 0 else Suc (Min {i. bit w i}))"
  using ffs_lowest_bit[of w] lowest_bit_Min[of w "ffs w - 1"]
  by (auto simp: ffs_def uu_generic_ffs_def)

lemma fls_eq: "fls w = (if w = 0 then 0 else Suc (Max {i. bit w i}))"
  using fls_highest_bit[of w] highest_bit_Max[of w "fls w - 1"]
  by (auto simp: fls_def uu_generic_fls_def)

lemma ffs_le: "ffs w \<le> 32"
proof (cases "w = 0")
  case True
  then show ?thesis by (simp add: ffs_def uu_generic_ffs_def)
next
  case False
  then have "bit w (ffs w - 1)" using ffs_lowest_bit by (simp add: lowest_bit_def)
  then show ?thesis using bit_imp_le_length by force
qed

lemma fls_le: "fls w \<le> 32"
proof (cases "w = 0")
  case True
  then show ?thesis by (simp add: fls_def uu_generic_fls_def)
next
  case False
  then have "bit w (fls w - 1)" using fls_highest_bit by (simp add: highest_bit_def)
  then show ?thesis using bit_imp_le_length by force
qed

end
