(* ===== verification/Popcount.thy ===== *)
theory Popcount
  imports Bitops
begin

text \<open>
  The parallel bit count of \<^verbatim>\<open>include/bitops.h\<close> (\<^verbatim>\<open>hweight32\<close>, \<^verbatim>\<open>hweight64\<close>) returns the
  number of set bits. The three masking stages work on the bytes of the word
  independently of each other (\<open>swar_concat\<close>); on one byte they count its bits
  (\<open>swar_byte\<close>); the last two additions add up the four byte counts (\<open>byte_sum\<close>).
\<close>

section \<open>Bits of concatenated numbers\<close>


lemma nat_concat_or:
  assumes "(y::nat) < 2 ^ k"
  shows "2 ^ k * x + y = push_bit k x OR y"
proof -
  have "push_bit k x AND y = 0"
    by (fastforce simp: bit_eq_iff bit_simps dest: bit_nat_less[OF assms])
  then have "push_bit k x + y = push_bit k x OR y" by (rule disjunctive_add_eq_or)
  then show ?thesis by (simp add: push_bit_eq_mult mult.commute)
qed

lemma bit_nat_concat:
  assumes "(y::nat) < 2 ^ k"
  shows "bit (2 ^ k * x + y) n \<longleftrightarrow> (if n < k then bit y n else bit x (n - k))"
  using bit_nat_less[OF assms, of n] by (auto simp: nat_concat_or[OF assms] bit_simps)

lemma nat_and_concat:
  fixes a b c d :: nat
  assumes "c < 2 ^ k" "d < 2 ^ k"
  shows "(2 ^ k * a + c) AND (2 ^ k * b + d) = 2 ^ k * (a AND b) + (c AND d)"
proof -
  have "c AND d < 2 ^ k"
    using assms by (metis take_bit_and take_bit_nat_eq_self take_bit_nat_eq_self_iff)
  then show ?thesis
    by (auto simp: bit_eq_iff bit_and_iff bit_nat_concat assms)
qed

lemma card_bits_concat:
  assumes "(y::nat) < 2 ^ k"
  shows "card {i. bit (2 ^ k * x + y) i} = card {i. bit x i} + card {i. bit y i}"
proof -
  have "{i. bit (2 ^ k * x + y) i} = (+) k ` {i. bit x i} \<union> {i. bit y i}"
    using bit_nat_less[OF assms]
    by (auto simp: bit_nat_concat[OF assms] image_iff split: if_splits) 
       (metis le_add_diff_inverse not_less)
  moreover have "(+) k ` {i. bit x i} \<inter> {i. bit y i} = {}"
    using bit_nat_less[OF assms] by fastforce
  moreover have "finite {i. bit z i}" for z :: nat
  proof (rule finite_subset)
    show "{i. bit z i} \<subseteq> {..<z}" using bit_nat_less[of z z] less_exp[of z] by auto
  qed simp
  ultimately show ?thesis by (simp add: card_Un_disjoint card_image)
qed


section \<open>The masking stages, byte by byte\<close>

definition swar :: "nat \<Rightarrow> nat \<Rightarrow> nat \<Rightarrow> nat \<Rightarrow> nat" where
  "swar m1 m2 m3 x =
     (let r1 = x - (x div 2 AND m1);
          r2 = (r1 AND m2) + (r1 div 4 AND m2)
      in (r2 + r2 div 16) AND m3)"

lemma nat_and_le1: "(a::nat) AND b \<le> a"
  using AND_upper1[of "int a" "int b"] by (simp flip: of_nat_and_eq)

lemma concat_div:
  fixes c k y r :: nat
  assumes "0 < k"
  shows "(c * k * y + r) div k = c * k * (y div k) + (c * (y mod k) + r div k)"
proof -
  have "(c * k * y + r) div k = (r + c * y * k) div k" by (simp add: ac_simps)
  also have "\<dots> = c * y + r div k" using assms by simp
  also have "c * y = c * k * (y div k) + c * (y mod k)"
    by (metis distrib_left mult.assoc mult_div_mod_eq)
  finally show ?thesis by simp
qed

lemma swar_stage1:
  fixes r y a :: nat
  assumes "r < 256"
  shows "(256 * y + r) - ((256 * y + r) div 2 AND (256 * a + 0x55)) =
         256 * (y - (y div 2 AND a)) + (r - (r div 2 AND 0x55))"
proof -
  have "(256 * y + r) div 2 = 2 ^ 8 * (y div 2) + (2 ^ 7 * (y mod 2) + r div 2)"
    using concat_div[of 2 128 y r] by simp
  moreover have "2 ^ 7 * (y mod 2) + r div 2 < 2 ^ 8"
    using assms mod_less_divisor[of 2 y] by simp
  ultimately have "(256 * y + r) div 2 AND (256 * a + 0x55) =
      256 * (y div 2 AND a) + ((2 ^ 7 * (y mod 2) + r div 2) AND 0x55)"
    using nat_and_concat[of "2 ^ 7 * (y mod 2) + r div 2" 8 "0x55" "y div 2" a] by simp
  moreover have "(2 ^ 7 * (y mod 2) + r div 2) AND 0x55 = r div 2 AND 0x55"
    using nat_and_concat[of "r div 2" 7 "0x55" "y mod 2" 0] assms by simp
  moreover have "y div 2 AND a \<le> y" "r div 2 AND 0x55 \<le> r"
    using nat_and_le1[of "y div 2" a] nat_and_le1[of "r div 2" "0x55"] by linarith+
  ultimately show ?thesis by (simp add: diff_mult_distrib2)
qed

lemma swar_stage2:
  fixes r A b :: nat
  assumes "r < 256"
  shows "(256 * A + r) AND (256 * b + 0x33) = 256 * (A AND b) + (r AND 0x33)"
    and "(256 * A + r) div 4 AND (256 * b + 0x33) = 256 * (A div 4 AND b) + (r div 4 AND 0x33)"
proof -
  show "(256 * A + r) AND (256 * b + 0x33) = 256 * (A AND b) + (r AND 0x33)"
    using nat_and_concat[of r 8 "0x33" A b] assms by simp
  have "(256 * A + r) div 4 = 2 ^ 8 * (A div 4) + (2 ^ 6 * (A mod 4) + r div 4)"
    using concat_div[of 4 64 A r] by simp
  moreover have "2 ^ 6 * (A mod 4) + r div 4 < 2 ^ 8"
    using assms mod_less_divisor[of 4 A] by simp
  ultimately have "(256 * A + r) div 4 AND (256 * b + 0x33) =
      256 * (A div 4 AND b) + ((2 ^ 6 * (A mod 4) + r div 4) AND 0x33)"
    using nat_and_concat[of "2 ^ 6 * (A mod 4) + r div 4" 8 "0x33" "A div 4" b] by simp
  moreover have "(2 ^ 6 * (A mod 4) + r div 4) AND 0x33 = r div 4 AND 0x33"
    using nat_and_concat[of "r div 4" 6 "0x33" "A mod 4" 0] assms by simp
  ultimately show "(256 * A + r) div 4 AND (256 * b + 0x33) = 256 * (A div 4 AND b) + (r div 4 AND 0x33)"
    by simp
qed

lemma nibble_and_le:
  assumes "b = 0 \<or> b mod 16 = (3::nat)"
  shows "(x AND b) mod 16 \<le> 3"
proof -
  have "(x AND b) mod 16 = (x mod 16) AND (b mod 16)"
    using take_bit_and[of 4 x b] by (simp add: take_bit_eq_mod)
  also have "\<dots> \<le> b mod 16" using nat_and_le1[of "b mod 16" "x mod 16"] by (simp add: and.commute)
  finally show ?thesis using assms by auto
qed

lemma swar_stage3:
  fixes q R c :: nat
  assumes "q \<le> 0x66" "R mod 16 \<le> 6"
  shows "((256 * R + q) + (256 * R + q) div 16) AND (256 * c + 0x0f) =
         256 * ((R + R div 16) AND c) + ((q + q div 16) AND 0x0f)"
proof -
  have "(256 * R + q) + (256 * R + q) div 16 =
      2 ^ 8 * (R + R div 16) + (2 ^ 4 * (R mod 16) + (q + q div 16))"
    using concat_div[of 16 16 R q] by simp
  moreover have lt: "2 ^ 4 * (R mod 16) + (q + q div 16) < 2 ^ 8" using assms by simp
  moreover have "(2 ^ 4 * (R mod 16) + (q + q div 16)) AND 0x0f = (q + q div 16) AND 0x0f"
  proof -
    have "x AND 0x0f = x mod 16" for x :: nat
      using take_bit_eq_mask[of 4 x] by (simp add: take_bit_eq_mod mask_eq_exp_minus_1)
    then show ?thesis by simp
  qed
  ultimately show ?thesis
    using nat_and_concat[OF lt, of "0x0f" "R + R div 16" c] by (simp add: ac_simps)
qed

lemma swar_concat:
  assumes r: "r < 256" and b: "b = 0 \<or> b mod 16 = 3"
  shows "swar (256 * a + 0x55) (256 * b + 0x33) (256 * c + 0x0f) (256 * y + r) =
         256 * swar a b c y + swar 0x55 0x33 0x0f r"
proof -
  define A where "A = y - (y div 2 AND a)"
  define s where "s = r - (r div 2 AND 0x55)"
  define R where "R = (A AND b) + (A div 4 AND b)"
  define q where "q = (s AND 0x33) + (s div 4 AND 0x33)"
  have s: "s < 256" using r by (simp add: s_def)
  have "s AND 0x33 \<le> 0x33" "s div 4 AND 0x33 \<le> 0x33"
    using nat_and_le1[of "0x33"] by (simp_all add: and.commute)
  then have q: "q \<le> 0x66" by (simp add: q_def)
  have "R mod 16 \<le> (A AND b) mod 16 + (A div 4 AND b) mod 16"
    unfolding R_def by (metis mod_add_eq mod_less_eq_dividend)
  then have R: "R mod 16 \<le> 6"
    using nibble_and_le[OF b, of A] nibble_and_le[OF b, of "A div 4"] by linarith
  have "(256 * A + s) AND (256 * b + 0x33) = 256 * (A AND b) + (s AND 0x33)"
    "(256 * A + s) div 4 AND (256 * b + 0x33) = 256 * (A div 4 AND b) + (s div 4 AND 0x33)"
    using swar_stage2[OF s] by blast+
  then have "((256 * A + s) AND (256 * b + 0x33)) + ((256 * A + s) div 4 AND (256 * b + 0x33)) = 256 * R + q"
    by (simp add: R_def q_def)
  then show ?thesis
    using swar_stage3[OF q R, of c]
    by (simp add: swar_def Let_def swar_stage1[OF r] flip: A_def s_def R_def q_def)
qed


definition nibble :: "nat \<Rightarrow> nat" where
  "nibble h = h mod 2 + h div 2 mod 2 + h div 4 mod 2 + h div 8"

lemma less_16_cases: "(h::nat) < 16 \<Longrightarrow> h \<in> {0,1,2,3,4,5,6,7,8,9,10,11,12,13,14,15}"
  by (simp, arith)

lemma swar_nibbles:
  "\<forall>h\<in>{0,1,2,3,4,5,6,7,8,9,10,11,12,13,14,15}. \<forall>l\<in>{0,1,2,3,4,5,6,7,8,9,10,11,12,13,14,15}. 
    swar 0x55 0x33 0x0f (16 * h + l) = nibble h + nibble l"
   by (simp add: swar_def Let_def nibble_def numeral_2_eq_2[symmetric] numeral_3_eq_3[symmetric])

lemma card_bits_less_2: "(y::nat) < 2 \<Longrightarrow> card {i. bit y i} = y"
proof -
  assume "y < 2"
  then consider "y = 0" | "y = 1" by linarith
  then show ?thesis by cases (simp_all add: bit_1_iff flip: One_nat_def)
qed

lemma nibble_card: 
  assumes "h < 16" shows "nibble h = card {i. bit h i}"
proof -
  have e: "card {i. bit x i} = card {i. bit (x div 2) i} + x mod 2" for x :: nat
    using card_bits_concat[of "x mod 2" 1 "x div 2"] card_bits_less_2[of "x mod 2"] by simp
  have "h div 8 < 2" using assms by simp
  then show ?thesis
    by (simp add: nibble_def e[of h] e[of "h div 2"] e[of "h div 4"] card_bits_less_2 div_mult2_eq[symmetric])
qed

lemma swar_byte:
  assumes "r < 256"
  shows "swar 0x55 0x33 0x0f r = card {i. bit r i}"
proof -
  have "r div 16 < 16" "r mod 16 < 16" using assms by auto
  then have "swar 0x55 0x33 0x0f (16 * (r div 16) + r mod 16) = card {i. bit (r div 16) i} + card {i. bit (r mod 16) i}"
    using swar_nibbles[rule_format, OF less_16_cases less_16_cases, of "r div 16" "r mod 16"]
    by (simp only: nibble_card)
  also have "\<dots> = card {i. bit r i}" 
    using card_bits_concat[of "r mod 16" 4 "r div 16"] by simp
  finally show ?thesis by simp
qed

lemma swar_32:
  "swar 0x55555555 0x33333333 0x0F0F0F0F (256 * (256 * (256 * d + c) + b) + a) =
     256 * (256 * (256 * card {i. bit d i} + card {i. bit c i}) + card {i. bit b i}) + card {i. bit a i}"
  if "a < 256" "b < 256" "c < 256" "d < 256"
proof -
  have "swar 0x5555 0x3333 0x0f0f (256 * d + c) = 256 * card {i. bit d i} + card {i. bit c i}"
    using swar_concat[of c "0x33" "0x55" "0x0f" d] that by (simp add: swar_byte)
  then have "swar 0x555555 0x333333 0x0f0f0f (256 * (256 * d + c) + b) =
      256 * (256 * card {i. bit d i} + card {i. bit c i}) + card {i. bit b i}"
    using swar_concat[of b "0x3333" "0x5555" "0x0f0f" "256 * d + c"] that by (simp add: swar_byte)
  then show ?thesis
    using swar_concat[of a "0x333333" "0x555555" "0x0f0f0f" "256 * (256 * d + c) + b"] that
    by (simp add: swar_byte)
qed

lemma card_bits_byte: "(a::nat) < 256 \<Longrightarrow> card {i. bit a i} \<le> 8"
proof -
  assume "a < 256"
  then have "{i. bit a i} \<subseteq> {..<8}" using bit_nat_less[of a 8] by auto
  then show ?thesis using card_mono[of "{..<8::nat}"] by fastforce
qed

lemma byte_sum:
  fixes p0 p1 p2 p3 :: nat
  assumes "p0 \<le> 8" "p1 \<le> 8" "p2 \<le> 8" "p3 \<le> 8"
  defines "x \<equiv> 256 * (256 * (256 * p3 + p2) + p1) + p0"
  shows "(x + x div 256 + (x + x div 256) div 65536) mod 256 = p0 + p1 + p2 + p3"
proof -
  have "x div 256 = 256 * (256 * p3 + p2) + p1" using assms by simp
  then have s: "x + x div 256 = 65536 * (256 * p3 + p2 + p3) + (256 * (p2 + p1) + (p1 + p0))"
    by (simp add: x_def)
  have "(x + x div 256) div 65536 = 256 * p3 + p2 + p3"
    unfolding s using assms by (subst div_mult_self4) auto
  then have "x + x div 256 + (x + x div 256) div 65536 =
      256 * (256 * (256 * p3 + p2 + p3) + (p2 + p1) + p3) + (p0 + p1 + p2 + p3)"
    unfolding s by simp
  then have "(x + x div 256 + (x + x div 256) div 65536) mod 256 = (p0 + p1 + p2 + p3) mod 256"
    by (simp only: mod_mult_self4)
  then show ?thesis using assms(1-4) by simp
qed

lemma hweight32_nat:
  "hweight32 w = (let x = swar 0x55555555 0x33333333 0x0F0F0F0F (unat w)
     in (x + x div 256 + (x + x div 256) div 65536) mod 256)"
proof -
  have ua: "unat (x AND y) = unat x AND unat y" for x y :: u32 by (rule unsigned_and_eq)
  have le: "unat (drop_bit 1 w AND 0x55555555) \<le> unat w"
    using nat_and_le1[of "unat w div 2"] by (simp add: ua unat_drop_bit) (meson div_le_dividend le_trans)
  define r1 where "r1 = w - (drop_bit 1 w AND 0x55555555)"
  have r1: "unat r1 = unat w - (unat w div 2 AND 0x55555555)"
    unfolding r1_def by (subst unat_minus_le[OF le]) (simp add: ua unat_drop_bit)
  define r2 where "r2 = (r1 AND 0x33333333) + (drop_bit 2 r1 AND 0x33333333)"
  have b33: "unat (x AND 0x33333333) \<le> 0x33333333" for x :: u32
    using nat_and_le1[of "0x33333333" "unat x"] by (simp add: ua and.commute)
  have "unat (r1 AND 0x33333333) + unat (drop_bit 2 r1 AND 0x33333333) \<le> 0x33333333 + 0x33333333"
    by (intro add_mono b33)
  then have r2: "unat r2 = (unat r1 AND 0x33333333) + (unat r1 div 4 AND 0x33333333)"
      and r2b: "unat r2 \<le> 0x66666666"
    unfolding r2_def by (simp_all add: unat_plus_small ua unat_drop_bit)
  define r3 where "r3 = (r2 + drop_bit 4 r2) AND 0x0F0F0F0F"
  have r3: "unat r3 = (unat r2 + unat r2 div 16) AND 0x0F0F0F0F"
    unfolding r3_def using r2b by (simp add: ua unat_drop_bit unat_plus_small)
  then have x: "unat r3 = swar 0x55555555 0x33333333 0x0F0F0F0F (unat w)"
    by (simp add: swar_def Let_def r1 r2)
  have r3b: "unat r3 \<le> 0x0F0F0F0F"
    using nat_and_le1[of "0x0F0F0F0F"] by (simp add: r3 and.commute)
  define r4 where "r4 = r3 + drop_bit 8 r3"
  have r4: "unat r4 = unat r3 + unat r3 div 256"
    unfolding r4_def using r3b by (simp add: unat_drop_bit unat_plus_small)
  have "unat (r4 + drop_bit 16 r4) = unat r4 + unat r4 div 65536"
    using r3b by (simp add: unat_drop_bit unat_plus_small r4)
  then have "unat ((r4 + drop_bit 16 r4) AND 0x000000FF) = (unat r4 + unat r4 div 65536) mod 256"
    using unat_and_mask[of "r4 + drop_bit 16 r4" 8] by (simp add: mask_eq_exp_minus_1)
  moreover have "hweight32 w = unat ((r4 + drop_bit 16 r4) AND 0x000000FF)"
    by (simp only: hweight32_def Let_def r1_def r2_def r3_def r4_def)
  ultimately show ?thesis by (simp only: r4 x Let_def)
qed

lemma hweight32_popcount: "hweight32 w = popcount w"
proof -
  define n where "n = unat w"
  define a where "a = n mod 256"
  define b where "b = n div 256 mod 256"
  define c where "c = n div 65536 mod 256"
  define d where "d = n div 16777216"
  have lt: "a < 256" "b < 256" "c < 256" "d < 256"
    using unsigned_less[where 'a = nat, of w] by (auto simp: a_def b_def c_def d_def n_def)
  have n: "n = 256 * (256 * (256 * d + c) + b) + a"
  proof -
    have "n = 256 * (n div 256) + a" by (simp add: a_def)
    moreover have "n div 256 = 256 * (n div 65536) + b"
      using div_mult2_eq[of n 256 256] by (simp add: b_def)
    moreover have "n div 65536 = 256 * d + c"
      using div_mult2_eq[of n 65536 256] by (simp add: c_def d_def)
    ultimately show ?thesis by simp
  qed
  have "popcount w = card {i. bit n i}" by (simp add: popcount_def bit_word_iff_nat n_def)
  also have "\<dots> = card {i. bit d i} + card {i. bit c i} + card {i. bit b i} + card {i. bit a i}"
    unfolding n
    using card_bits_concat[of a 8 "256 * (256 * d + c) + b"] card_bits_concat[of b 8 "256 * d + c"]
      card_bits_concat[of c 8 d] lt by simp
  finally show ?thesis
    using byte_sum[OF card_bits_byte[OF lt(1)] card_bits_byte[OF lt(2)] card_bits_byte[OF lt(3)] card_bits_byte[OF lt(4)]]
    by (simp add: hweight32_nat Let_def n[symmetric] swar_32[OF lt, folded n] flip: n_def)
qed

section \<open>The 64-bit count\<close>

lemma unat_split_64:
  fixes w :: u64
  shows "unat w = 2 ^ 32 * unat (ucast (drop_bit 32 w) :: u32) + unat (ucast w :: u32)"
proof -
  have "unat (ucast w :: u32) = unat w mod 2 ^ 32"
    by (simp add: unsigned_ucast_eq take_bit_eq_mod)
  moreover have "unat (ucast (drop_bit 32 w) :: u32) = unat w div 2 ^ 32"
  proof -
    have "unat w div 2 ^ 32 < 2 ^ 32"
      using unsigned_less[where 'a = nat, of w] by simp
    then show ?thesis
      by (simp add: unsigned_ucast_eq take_bit_eq_mod unat_drop_bit)
  qed
  ultimately show ?thesis by simp
qed

lemma popcount_nat: "popcount w = card {i. bit (unat w) i}"
  by (simp add: popcount_def bit_word_iff_nat)

lemma hweight64_popcount: "hweight64 w = popcount w"
proof -
  have "unat (ucast w :: u32) < 2 ^ 32" using unsigned_less[where 'a = nat, of "ucast w :: u32"] by simp
  then show ?thesis
    unfolding hweight64_def hweight32_popcount popcount_nat unat_split_64[of w]
    by (subst card_bits_concat) simp_all
qed

end
