(* ===== verification/Util.thy ===== *)
theory Util
  imports AIM_Prelude
begin

text \<open>
  The macros of \<^verbatim>\<open>include/util.h\<close> and the device-number conversions of
  \<^verbatim>\<open>include/sys/types.h\<close>. The macros are polymorphic in C (they work on whatever
  integer type their argument has), so they are polymorphic here: on naturals where the
  arguments are compile-time sizes, on words where the code computes with addresses.
  The lemmas read each macro back as the arithmetic its name announces, with the
  no-wrap-around condition where one is needed.
\<close>

section \<open>Word size\<close>

definition WORD_SHIFT :: nat where "WORD_SHIFT = 2"
definition WORD_SIZE :: nat where "WORD_SIZE = 4"

abbreviation (input) BITS_PER_LONG :: nat where "BITS_PER_LONG \<equiv> 32"
abbreviation (input) SIZEOF_LONG :: nat where "SIZEOF_LONG \<equiv> 4"

section \<open>Arithmetic macros\<close>

definition min2 :: "'a::ord \<Rightarrow> 'a \<Rightarrow> 'a" where
  "min2 a b = (if a < b then a else b)"

definition max2 :: "'a::ord \<Rightarrow> 'a \<Rightarrow> 'a" where
  "max2 a b = (if b < a then a else b)"

definition min3 :: "'a::ord \<Rightarrow> 'a \<Rightarrow> 'a \<Rightarrow> 'a" where
  "min3 a b c = min2 a (min2 b c)"

definition max3 :: "'a::ord \<Rightarrow> 'a \<Rightarrow> 'a \<Rightarrow> 'a" where
  "max3 a b c = max2 a (max2 b c)"

definition DIV_ROUND_UP :: "'a::{plus,minus,one,divide} \<Rightarrow> 'a \<Rightarrow> 'a" where
  "DIV_ROUND_UP n d = (n + d - 1) div d"

text \<open>
  The divisor of \<^verbatim>\<open>BITS_TO_LONGS\<close> is \<^verbatim>\<open>sizeof(unsigned long)\<close>, the number of bytes of
  a word, not \<^verbatim>\<open>BITS_PER_LONG\<close>.
\<close>

definition BITS_TO_LONGS :: "nat \<Rightarrow> nat" where
  "BITS_TO_LONGS n = DIV_ROUND_UP n SIZEOF_LONG"

definition BIT_WORD :: "nat \<Rightarrow> nat" where
  "BIT_WORD nr = nr div BITS_PER_LONG"

section \<open>Alignment macros\<close>

definition uu_ALIGN_MASK :: "'a::len word \<Rightarrow> 'a word \<Rightarrow> 'a word" where
  "uu_ALIGN_MASK x a = a - 1"

definition IS_ALIGNED :: "'a::len word \<Rightarrow> 'a word \<Rightarrow> bool" where
  "IS_ALIGNED x a \<longleftrightarrow> x AND uu_ALIGN_MASK x a = 0"

definition ALIGN_ABOVE :: "'a::len word \<Rightarrow> 'a word \<Rightarrow> 'a word" where
  "ALIGN_ABOVE x a = ((x - 1) OR uu_ALIGN_MASK x a) + 1"

definition ALIGN_BELOW :: "'a::len word \<Rightarrow> 'a word \<Rightarrow> 'a word" where
  "ALIGN_BELOW x a = x AND NOT (uu_ALIGN_MASK x a)"

definition ALIGN_PREV :: "'a::len word \<Rightarrow> 'a word \<Rightarrow> 'a word" where
  "ALIGN_PREV x a = ALIGN_BELOW (x - 1) a"

definition ALIGN_NEXT :: "'a::len word \<Rightarrow> 'a word \<Rightarrow> 'a word" where
  "ALIGN_NEXT x a = ALIGN_ABOVE (x + 1) a"

definition ROUNDUP :: "'a::{plus,minus,one,divide,times} \<Rightarrow> 'a \<Rightarrow> 'a" where
  "ROUNDUP x d = DIV_ROUND_UP x d * d"

definition ROUNDDOWN :: "'a::{minus,modulo} \<Rightarrow> 'a \<Rightarrow> 'a" where
  "ROUNDDOWN x d = x - x mod d"

definition ROUND_CLOSEST :: "'a::{numeral,divide} \<Rightarrow> 'a \<Rightarrow> 'a" where
  "ROUND_CLOSEST x d = (x + d div 2) div d"

section \<open>Lowest zero bit and overlap of ranges\<close>

function get_lowest_0_loop :: "int \<Rightarrow> 'a::len word \<Rightarrow> int" where
  "get_lowest_0_loop i x = (if x AND 1 = 1 then get_lowest_0_loop (i + 1) (drop_bit 1 x) else i)"
  by pat_completeness auto

lemma unat_drop_bit_1_less:
  fixes x :: "'a::len word"
  assumes "x AND 1 = 1"
  shows "unat (drop_bit 1 x) < unat x"
proof -
  from assms have "unat x \<noteq> 0"
    by (metis unsigned_eq_0_iff and_zero_eq zero_neq_one and.commute)
  then show ?thesis by (simp add: unat_drop_bit)
qed

termination get_lowest_0_loop
  by (relation "measure (\<lambda>(i, x). unat x)") (use unat_drop_bit_1_less in auto)

declare get_lowest_0_loop.simps [simp del]

definition get_lowest_0 :: "'a::len word \<Rightarrow> int" where
  "get_lowest_0 x = (if x + 1 = 0 then -1 else get_lowest_0_loop 0 x)"

definition OVERLAP :: "'a::{ord,plus} \<Rightarrow> 'a \<Rightarrow> 'a \<Rightarrow> 'a \<Rightarrow> bool" where
  "OVERLAP st1 len1 st2 len2 \<longleftrightarrow>
     st2 < st1 \<and> st1 < st2 + len2 \<or> st1 < st2 \<and> st2 < st1 + len1"

section \<open>Device numbers\<close>

definition major :: "u32 \<Rightarrow> u32" where
  "major dev = drop_bit 8 dev AND 0xff"

definition minor :: "u32 \<Rightarrow> u32" where
  "minor dev = dev AND 0xff"

definition makedev :: "u32 \<Rightarrow> u32 \<Rightarrow> u32" where
  "makedev maj mnr = push_bit 8 maj OR (mnr AND 0xff)"

section \<open>Minimum, maximum and rounding\<close>

lemma min2_min [simp]: "min2 a b = min a (b::'a::linorder)"
  by (auto simp: min2_def)

lemma max2_max [simp]: "max2 a b = max a (b::'a::linorder)"
  by (auto simp: max2_def)

lemma DIV_ROUND_UP_nat:
  fixes n d :: nat
  assumes "0 < d"
  shows "DIV_ROUND_UP n d = (LEAST k. n \<le> k * d)"
proof -
  let ?q = "(n + d - 1) div d"
  have q: "?q * d = n + d - 1 - (n + d - 1) mod d"
    by (simp add: minus_mod_eq_div_mult [symmetric])
  have r: "(n + d - 1) mod d \<le> d - 1"
    using assms by (simp add: Suc_leI flip: less_Suc_eq_le)
  have ge: "n \<le> ?q * d" using q r assms by linarith
  have least: "?q \<le> k" if "n \<le> k * d" for k
  proof (rule ccontr)
    assume "\<not> ?q \<le> k"
    then have "(k + 1) * d \<le> ?q * d" by (intro mult_right_mono) auto
    then show False using q that assms by auto
  qed
  show ?thesis
    unfolding DIV_ROUND_UP_def by (rule Least_equality [symmetric]) (use ge least in auto)
qed

lemma BITS_TO_LONGS_enough: "n \<le> BITS_TO_LONGS n * 32"
  unfolding BITS_TO_LONGS_def DIV_ROUND_UP_def by simp

lemma BITS_TO_LONGS_div: "n div 32 \<le> BITS_TO_LONGS n"
  unfolding BITS_TO_LONGS_def DIV_ROUND_UP_def by simp

lemma BITS_TO_LONGS_word: "i < n \<Longrightarrow> i div 32 < BITS_TO_LONGS n"
  using BITS_TO_LONGS_enough[of n] by (simp add: div_less_iff_less_mult)

lemma BITS_TO_LONGS_pos [simp]: "0 < BITS_TO_LONGS n \<longleftrightarrow> 0 < n"
  unfolding BITS_TO_LONGS_def DIV_ROUND_UP_def by (auto simp: div_greater_zero_iff)

section \<open>Alignment\<close>

lemma align_mask_pow2 [aim_word]: "uu_ALIGN_MASK x (2 ^ k) = mask k"
  by (simp add: uu_ALIGN_MASK_def mask_eq_decr_exp)

lemma unat_align_below:
  fixes x :: "'a::len word"
  shows "unat (ALIGN_BELOW x (2 ^ k)) = unat x - unat x mod 2 ^ k"
  by (simp add: ALIGN_BELOW_def align_mask_pow2 unat_and_not_mask)

lemma is_aligned_dvd:
  fixes x :: "'a::len word"
  shows "IS_ALIGNED x (2 ^ k) \<longleftrightarrow> 2 ^ k dvd unat x"
proof -
  have "IS_ALIGNED x (2 ^ k) \<longleftrightarrow> unat (x AND mask k) = 0"
    by (simp add: IS_ALIGNED_def align_mask_pow2 unsigned_eq_0_iff)
  then show ?thesis by (simp add: unat_and_mask dvd_eq_mod_eq_0)
qed

lemma or_mask_and_not_mask:
  fixes y :: "'a::len word"
  shows "y OR mask k = (y AND NOT (mask k)) + mask k"
proof -
  have "(y AND NOT (mask k)) + mask k = (y AND NOT (mask k)) OR mask k"
    by (rule disjunctive_add_eq_or) (simp add: bit_eq_iff bit_simps)
  also have "\<dots> = y OR mask k"
    by (rule bit_word_eqI) (auto simp: bit_simps)
  finally show ?thesis by simp
qed

lemma align_above_eq:
  fixes x :: "'a::len word"
  shows "ALIGN_ABOVE x (2 ^ k) = ((x - 1) AND NOT (mask k)) + 2 ^ k"
  unfolding ALIGN_ABOVE_def align_mask_pow2 or_mask_and_not_mask
  by (simp add: mask_eq_decr_exp)

text \<open>
  Where rounding up does not leave the address space, \<^verbatim>\<open>ALIGN_ABOVE\<close> gives the least
  multiple of the alignment that is not below its argument.
\<close>

lemma unat_align_above:
  fixes x :: "'a::len word"
  assumes fits: "((unat x + 2 ^ k - 1) div 2 ^ k) * 2 ^ k < 2 ^ LENGTH('a)"
  shows "unat (ALIGN_ABOVE x (2 ^ k)) = ((unat x + 2 ^ k - 1) div 2 ^ k) * 2 ^ k"
proof (cases "x = 0")
  case True
  then have "ALIGN_ABOVE x (2 ^ k) = 0"
    by (simp add: ALIGN_ABOVE_def)
  then show ?thesis using True by (simp add: div_eq_0_iff)
next
  case False
  define n where "n = unat x - 1"
  have x: "unat x = Suc n"
    using False unsigned_eq_0_iff[of x] by (auto simp: n_def)
  then have n: "unat (x - 1) = n"
    by (simp add: unat_minus_le)
  have up: "((unat x + 2 ^ k - 1) div 2 ^ k) * 2 ^ k = (n - n mod 2 ^ k) + 2 ^ k"
    by (simp add: x minus_mod_eq_div_mult div_add_self2 algebra_simps)
  have k: "k < LENGTH('a)"
  proof (rule ccontr)
    assume "\<not> ?thesis"
    then have "(2::nat) ^ LENGTH('a) \<le> 2 ^ k" by (simp add: power_increasing)
    then show False using fits up by linarith
  qed
  have "unat ((x - 1) AND NOT (mask k)) + unat (2 ^ k :: 'a word) < 2 ^ LENGTH('a)"
    using fits up k by (simp add: unat_and_not_mask n unat_two_power)
  then show ?thesis
    using k by (simp only: align_above_eq unat_plus_small up)
      (simp add: unat_and_not_mask n unat_two_power)
qed

lemma align_above_ge:
  fixes x :: "'a::len word"
  assumes "((unat x + 2 ^ k - 1) div 2 ^ k) * 2 ^ k < 2 ^ LENGTH('a)"
  shows "unat x \<le> unat (ALIGN_ABOVE x (2 ^ k))"
    and "unat (ALIGN_ABOVE x (2 ^ k)) < unat x + 2 ^ k"
proof -
  let ?n = "unat x + 2 ^ k - 1"
  have "?n div 2 ^ k * 2 ^ k = ?n - ?n mod 2 ^ k" by (rule minus_mod_eq_div_mult [symmetric])
  moreover have "?n mod 2 ^ k < 2 ^ k" by simp
  moreover have "?n mod 2 ^ k \<le> ?n" by simp
  ultimately show "unat x \<le> unat (ALIGN_ABOVE x (2 ^ k))"
    and "unat (ALIGN_ABOVE x (2 ^ k)) < unat x + 2 ^ k"
    using unat_align_above[OF assms] by linarith+
qed

lemma is_aligned_align_below: "IS_ALIGNED (ALIGN_BELOW x (2 ^ k)) (2 ^ k)"
  by (simp add: is_aligned_dvd unat_align_below)

section \<open>Lowest zero bit\<close>

lemma get_lowest_0_loop_eq:
  fixes x :: "'a::len word"
  assumes "\<forall>i<n. bit x i" "\<not> bit x n"
  shows "get_lowest_0_loop i x = i + int n"
  using assms
proof (induction n arbitrary: i x)
  case 0
  then have "x AND 1 \<noteq> 1" by (auto simp: bit_eq_iff bit_simps)
  then show ?case by (simp add: get_lowest_0_loop.simps)
next
  case (Suc n)
  then have "bit x 0" by simp
  then have "x AND 1 = 1" by (simp add: and_one_eq odd_iff_mod_2_eq_one bit_0)
  moreover have "get_lowest_0_loop (i + 1) (drop_bit 1 x) = i + 1 + int n"
    using Suc.prems by (intro Suc.IH) (auto simp: bit_simps)
  ultimately show ?case by (simp add: get_lowest_0_loop.simps[of i x])
qed

lemma get_lowest_0_correct:
  fixes x :: "'a::len word"
  assumes "x \<noteq> NOT 0"
  shows "get_lowest_0 x = int (LEAST i. \<not> bit x i)"
proof -
  define n where "n = (LEAST i. \<not> bit x i)"
  have "\<exists>i. \<not> bit x i" using bit_imp_le_length by blast
  then have "\<not> bit x n" unfolding n_def by (rule LeastI_ex)
  moreover have "\<forall>i<n. bit x i" unfolding n_def using not_less_Least by blast
  ultimately have "get_lowest_0_loop 0 x = 0 + int n" by (intro get_lowest_0_loop_eq)
  moreover have "x + 1 \<noteq> 0" using assms by (simp add: add_eq_0_iff2)
  ultimately show ?thesis by (simp add: get_lowest_0_def n_def)
qed

section \<open>Device numbers\<close>

lemma word_ff_mask: "(0xff :: u32) = mask 8"
  by (simp add: mask_eq_decr_exp)

lemma makedev_bit:
  "bit (makedev maj mnr) i \<longleftrightarrow> i < 32 \<and> (if i < 8 then bit mnr i else bit maj (i - 8))"
  unfolding makedev_def word_ff_mask by (auto simp: bit_simps)

lemma major_bit: "bit (major dev) i \<longleftrightarrow> i < 8 \<and> bit dev (i + 8)"
  unfolding major_def word_ff_mask by (auto simp: bit_simps add.commute)

lemma minor_bit: "bit (minor dev) i \<longleftrightarrow> i < 8 \<and> bit dev i"
  unfolding minor_def word_ff_mask by (auto simp: bit_simps)

lemma major_makedev:
  assumes "unat maj < 256"
  shows "major (makedev maj mnr) = maj"
proof (rule bit_word_eqI)
  fix i
  have "bit maj i \<Longrightarrow> i < 8" using assms unat_less_bit[of maj 8 i] by simp
  then show "bit (major (makedev maj mnr)) i = bit maj i"
    by (auto simp: major_bit makedev_bit)
qed

lemma minor_makedev:
  assumes "unat mnr < 256"
  shows "minor (makedev maj mnr) = mnr"
proof (rule bit_word_eqI)
  fix i
  have "bit mnr i \<Longrightarrow> i < 8" using assms unat_less_bit[of mnr 8 i] by simp
  then show "bit (minor (makedev maj mnr)) i = bit mnr i"
    by (auto simp: minor_bit makedev_bit)
qed

lemma makedev_major_minor:
  assumes "unat dev < 65536"
  shows "makedev (major dev) (minor dev) = dev"
proof (rule bit_word_eqI)
  fix i
  have "bit dev i \<Longrightarrow> i < 16" using assms unat_less_bit[of dev 16 i] by simp
  then show "bit (makedev (major dev) (minor dev)) i = bit dev i"
    by (auto simp: major_bit minor_bit makedev_bit)
qed

end
