(* ===== verification/Bitmap.thy ===== *)
theory Bitmap
  imports Util Popcount
begin

text \<open>
  The bitmaps of \<^verbatim>\<open>include/bitmap.h\<close> and \<^verbatim>\<open>kern/lib/libbitmap/\<close>. A bitmap is an array
  of \<^verbatim>\<open>unsigned long\<close> in a memory of words; the operations pass the memory, so that a
  destination may be one of the sources, as in the C. A parameter \<^verbatim>\<open>int bits\<close> is a
  natural number (the code divides it and compares it with non-negative counters only);
  the \<^verbatim>\<open>unsigned long\<close> sizes and offsets of the searches keep their 32 bits.
\<close>

section \<open>Masks\<close>

definition BITMAP_FIRST_WORD_MASK :: "nat \<Rightarrow> u32" where
  "BITMAP_FIRST_WORD_MASK start = push_bit (start mod BITS_PER_LONG) (NOT 0)"

definition BITMAP_LAST_WORD_MASK :: "nat \<Rightarrow> u32" where
  "BITMAP_LAST_WORD_MASK nbits =
     (if nbits mod BITS_PER_LONG \<noteq> 0 then push_bit (nbits mod BITS_PER_LONG) 1 - 1 else NOT 0)"

section \<open>Word-wise operations\<close>

definition uu_bitmap_and :: "wmem \<Rightarrow> nat \<Rightarrow> nat \<Rightarrow> nat \<Rightarrow> nat \<Rightarrow> wmem \<times> bool" where
  "uu_bitmap_and m dst bitmap1 bitmap2 bits =
     (let nr = BITS_TO_LONGS bits;
          (m, result) = for_loop 0 nr (\<lambda>k (m, result).
             let v = m (bitmap1 + k) AND m (bitmap2 + k) in (m(dst + k := v), result OR v)) (m, 0)
      in (m, result \<noteq> 0))"

definition uu_bitmap_andnot :: "wmem \<Rightarrow> nat \<Rightarrow> nat \<Rightarrow> nat \<Rightarrow> nat \<Rightarrow> wmem \<times> bool" where
  "uu_bitmap_andnot m dst bitmap1 bitmap2 bits =
     (let nr = BITS_TO_LONGS bits;
          (m, result) = for_loop 0 nr (\<lambda>k (m, result).
             let v = m (bitmap1 + k) AND NOT (m (bitmap2 + k)) in (m(dst + k := v), result OR v)) (m, 0)
      in (m, result \<noteq> 0))"

definition uu_bitmap_or :: "wmem \<Rightarrow> nat \<Rightarrow> nat \<Rightarrow> nat \<Rightarrow> nat \<Rightarrow> wmem" where
  "uu_bitmap_or m dst bitmap1 bitmap2 bits =
     (let nr = BITS_TO_LONGS bits
      in for_loop 0 nr (\<lambda>k m. m(dst + k := m (bitmap1 + k) OR m (bitmap2 + k))) m)"

definition uu_bitmap_xor :: "wmem \<Rightarrow> nat \<Rightarrow> nat \<Rightarrow> nat \<Rightarrow> nat \<Rightarrow> wmem" where
  "uu_bitmap_xor m dst bitmap1 bitmap2 bits =
     (let nr = BITS_TO_LONGS bits
      in for_loop 0 nr (\<lambda>k m. m(dst + k := m (bitmap1 + k) XOR m (bitmap2 + k))) m)"

definition uu_bitmap_complement :: "wmem \<Rightarrow> nat \<Rightarrow> nat \<Rightarrow> nat \<Rightarrow> wmem" where
  "uu_bitmap_complement m dst src bits =
     (let lim = bits div BITS_PER_LONG;
          m = for_loop 0 lim (\<lambda>k m. m(dst + k := NOT (m (src + k)))) m
      in if bits mod BITS_PER_LONG \<noteq> 0
         then m(dst + lim := NOT (m (src + lim)) AND BITMAP_LAST_WORD_MASK bits)
         else m)"

section \<open>Comparisons and weight\<close>

definition uu_bitmap_equal :: "wmem \<Rightarrow> nat \<Rightarrow> nat \<Rightarrow> nat \<Rightarrow> bool" where
  "uu_bitmap_equal m bitmap1 bitmap2 bits =
     (let lim = bits div BITS_PER_LONG
      in if list_ex (\<lambda>k. m (bitmap1 + k) \<noteq> m (bitmap2 + k)) [0..<lim] then False
         else if bits mod BITS_PER_LONG \<noteq> 0
           \<and> (m (bitmap1 + lim) XOR m (bitmap2 + lim)) AND BITMAP_LAST_WORD_MASK bits \<noteq> 0
         then False
         else True)"

definition uu_bitmap_intersects :: "wmem \<Rightarrow> nat \<Rightarrow> nat \<Rightarrow> nat \<Rightarrow> bool" where
  "uu_bitmap_intersects m bitmap1 bitmap2 bits =
     (let lim = bits div BITS_PER_LONG
      in if list_ex (\<lambda>k. m (bitmap1 + k) AND m (bitmap2 + k) \<noteq> 0) [0..<lim] then True
         else if bits mod BITS_PER_LONG \<noteq> 0
           \<and> (m (bitmap1 + lim) AND m (bitmap2 + lim)) AND BITMAP_LAST_WORD_MASK bits \<noteq> 0
         then True
         else False)"

definition uu_bitmap_subset :: "wmem \<Rightarrow> nat \<Rightarrow> nat \<Rightarrow> nat \<Rightarrow> bool" where
  "uu_bitmap_subset m bitmap1 bitmap2 bits =
     (let lim = bits div BITS_PER_LONG
      in if list_ex (\<lambda>k. m (bitmap1 + k) AND NOT (m (bitmap2 + k)) \<noteq> 0) [0..<lim] then False
         else if bits mod BITS_PER_LONG \<noteq> 0
           \<and> (m (bitmap1 + lim) AND NOT (m (bitmap2 + lim))) AND BITMAP_LAST_WORD_MASK bits \<noteq> 0
         then False
         else True)"

definition uu_bitmap_full :: "wmem \<Rightarrow> nat \<Rightarrow> nat \<Rightarrow> bool" where
  "uu_bitmap_full m bitmap bits =
     (let lim = bits div BITS_PER_LONG
      in if list_ex (\<lambda>k. NOT (m (bitmap + k)) \<noteq> 0) [0..<lim] then False
         else if bits mod BITS_PER_LONG \<noteq> 0
           \<and> NOT (m (bitmap + lim)) AND BITMAP_LAST_WORD_MASK bits \<noteq> 0
         then False
         else True)"

definition uu_bitmap_weight :: "wmem \<Rightarrow> nat \<Rightarrow> nat \<Rightarrow> nat" where
  "uu_bitmap_weight m bitmap bits =
     (let lim = bits div BITS_PER_LONG;
          w = for_loop 0 lim (\<lambda>k w. w + hweight (m (bitmap + k))) 0
      in if bits mod BITS_PER_LONG \<noteq> 0
         then w + hweight (m (bitmap + lim) AND BITMAP_LAST_WORD_MASK bits)
         else w)"

section \<open>Setting and clearing ranges\<close>

text \<open>
  The \<^verbatim>\<open>while\<close> loops of \<^verbatim>\<open>bitmap_set\<close> and \<^verbatim>\<open>bitmap_clear\<close> return the memory, the cell
  reached, the bits left and the mask. \<^verbatim>\<open>nr - bits_to_set >= 0\<close> is a comparison of ints.
\<close>

function bitmap_set_loop :: "wmem \<Rightarrow> nat \<Rightarrow> nat \<Rightarrow> nat \<Rightarrow> u32 \<Rightarrow> wmem \<times> nat \<times> nat \<times> u32" where
  "bitmap_set_loop m p nr bits_to_set mask_to_set =
     (if bits_to_set \<le> nr
      then bitmap_set_loop (m(p := m p OR mask_to_set)) (p + 1) (nr - bits_to_set) BITS_PER_LONG (NOT 0)
      else (m, p, nr, mask_to_set))"
  by pat_completeness auto

termination bitmap_set_loop
  by (relation "measure (\<lambda>(m, p, nr, bits, mask). 2 * nr + (if bits = 0 then 1 else 0))") auto

definition bitmap_set :: "wmem \<Rightarrow> nat \<Rightarrow> nat \<Rightarrow> nat \<Rightarrow> wmem" where
  "bitmap_set m bm start nr =
     (let p = bm + BIT_WORD start;
          sz = start + nr;
          bits_to_set = BITS_PER_LONG - start mod BITS_PER_LONG;
          mask_to_set = BITMAP_FIRST_WORD_MASK start;
          (m, p, nr, mask_to_set) = bitmap_set_loop m p nr bits_to_set mask_to_set
      in if nr \<noteq> 0 then m(p := m p OR (mask_to_set AND BITMAP_LAST_WORD_MASK sz)) else m)"

function bitmap_clear_loop :: "wmem \<Rightarrow> nat \<Rightarrow> nat \<Rightarrow> nat \<Rightarrow> u32 \<Rightarrow> wmem \<times> nat \<times> nat \<times> u32" where
  "bitmap_clear_loop m p nr bits_to_clear mask_to_clear =
     (if bits_to_clear \<le> nr
      then bitmap_clear_loop (m(p := m p AND NOT mask_to_clear)) (p + 1) (nr - bits_to_clear) BITS_PER_LONG (NOT 0)
      else (m, p, nr, mask_to_clear))"
  by pat_completeness auto

termination bitmap_clear_loop
  by (relation "measure (\<lambda>(m, p, nr, bits, mask). 2 * nr + (if bits = 0 then 1 else 0))") auto

definition bitmap_clear :: "wmem \<Rightarrow> nat \<Rightarrow> nat \<Rightarrow> nat \<Rightarrow> wmem" where
  "bitmap_clear m bm start nr =
     (let p = bm + BIT_WORD start;
          sz = start + nr;
          bits_to_clear = BITS_PER_LONG - start mod BITS_PER_LONG;
          mask_to_clear = BITMAP_FIRST_WORD_MASK start;
          (m, p, nr, mask_to_clear) = bitmap_clear_loop m p nr bits_to_clear mask_to_clear
      in if nr \<noteq> 0 then m(p := m p AND NOT (mask_to_clear AND BITMAP_LAST_WORD_MASK sz)) else m)"

declare bitmap_set_loop.simps [simp del] bitmap_clear_loop.simps [simp del]

section \<open>Searches\<close>

text \<open>
  The result of the word loop of a search: either the \<^verbatim>\<open>goto found\<close> with the word that
  was read and the position of its first bit, or the cell, sz and position reached.
\<close>

datatype scan = Found u32 u32 | Rest nat u32 u32

text \<open>
  \<^verbatim>\<open>while (size & ~(BITS_PER_LONG-1)) { if (hit(tmp = *(p++))) goto found; ... }\<close>; \<open>hit\<close>
  is \<^verbatim>\<open>tmp\<close> in the searches for a set bit and \<^verbatim>\<open>~tmp\<close> in those for a zero bit.
\<close>

function scan_words :: "(u32 \<Rightarrow> u32) \<Rightarrow> wmem \<Rightarrow> nat \<Rightarrow> u32 \<Rightarrow> u32 \<Rightarrow> scan" where
  "scan_words hit m p sz result =
     (if sz AND NOT 31 \<noteq> 0
      then (let tmp = m p
            in if hit tmp \<noteq> 0 then Found tmp result
               else scan_words hit m (p + 1) (sz - 32) (result + 32))
      else Rest p sz result)"
  by pat_completeness auto

lemma size_scan_iff: "(sz :: u32) AND NOT 31 \<noteq> 0 \<longleftrightarrow> 32 \<le> unat sz"
  using and_not_mask_eq_0_iff[of sz 5] by (simp add: mask_eq_decr_exp not_less)

lemma size_scan_minus:
  assumes "(sz :: u32) AND NOT 31 \<noteq> 0"
  shows "unat (sz - 32) = unat sz - 32"
proof -
  have "32 \<le> unat sz" using assms by (simp only: size_scan_iff)
  then show ?thesis by (simp add: unat_minus_le)
qed

termination scan_words
proof (relation "measure (\<lambda>(hit, m, p, sz, result). unat sz)", simp, goal_cases)
  case (1 hit m p sz result tmp)
  then have "32 \<le> unat sz" by (simp only: size_scan_iff)
  with size_scan_minus[OF 1(1)] show ?case by simp
qed

declare scan_words.simps [simp del]

definition bitmap_find_first_bit :: "wmem \<Rightarrow> nat \<Rightarrow> u32 \<Rightarrow> u32" where
  "bitmap_find_first_bit m addr sz =
     (case scan_words (\<lambda>tmp. tmp) m addr sz 0 of
        Found tmp result \<Rightarrow> result + of_nat (ffs tmp)
      | Rest p sz result \<Rightarrow>
          if sz = 0 then 0
          else let tmp = m p AND drop_bit (32 - unat sz) (NOT 0)
               in if tmp = 0 then 0 else result + of_nat (ffs tmp))"

definition bitmap_find_first_zero_bit :: "wmem \<Rightarrow> nat \<Rightarrow> u32 \<Rightarrow> u32" where
  "bitmap_find_first_zero_bit m addr sz =
     (case scan_words (\<lambda>tmp. NOT tmp) m addr sz 0 of
        Found tmp result \<Rightarrow> result + of_nat (ffz tmp)
      | Rest p sz result \<Rightarrow>
          if sz = 0 then 0
          else let tmp = m p OR push_bit (unat sz) (NOT 0)
               in if tmp = NOT 0 then 0 else result + of_nat (ffz tmp))"

text \<open>The tail of \<^verbatim>\<open>bitmap_find_next_bit\<close>, from the label \<^verbatim>\<open>found_first\<close>.\<close>

definition next_bit_found_first :: "u32 \<Rightarrow> u32 \<Rightarrow> u32 \<Rightarrow> u32" where
  "next_bit_found_first tmp sz result =
     (let tmp = tmp AND drop_bit (32 - unat sz) (NOT 0)
      in if tmp = 0 then 0 else result + of_nat (ffs tmp))"

definition next_bit_words :: "wmem \<Rightarrow> nat \<Rightarrow> u32 \<Rightarrow> u32 \<Rightarrow> u32" where
  "next_bit_words m p sz result =
     (case scan_words (\<lambda>tmp. tmp) m p sz result of
        Found tmp result \<Rightarrow> result + of_nat (ffs tmp)
      | Rest p sz result \<Rightarrow>
          if sz = 0 then 0 else next_bit_found_first (m p) sz result)"

definition bitmap_find_next_bit :: "wmem \<Rightarrow> nat \<Rightarrow> u32 \<Rightarrow> u32 \<Rightarrow> u32" where
  "bitmap_find_next_bit m addr sz offset =
     (if offset = 0 then 0
      else let offset = offset - 1;
               p = addr + BIT_WORD (unat offset);
               result = offset AND NOT 31
           in if sz \<le> offset then 0
              else let sz = sz - result;
                       offset = offset mod 32
                   in if offset \<noteq> 0
                      then let tmp = m p AND push_bit (unat offset) (NOT 0)
                           in if sz < 32 then next_bit_found_first tmp sz result
                              else if tmp \<noteq> 0 then result + of_nat (ffs tmp)
                              else next_bit_words m (p + 1) (sz - 32) (result + 32)
                      else next_bit_words m p sz result)"

definition next_zero_bit_found_first :: "u32 \<Rightarrow> u32 \<Rightarrow> u32 \<Rightarrow> u32" where
  "next_zero_bit_found_first tmp sz result =
     (let tmp = tmp OR push_bit (unat sz) (NOT 0)
      in if tmp = NOT 0 then 0 else result + of_nat (ffz tmp))"

definition next_zero_bit_words :: "wmem \<Rightarrow> nat \<Rightarrow> u32 \<Rightarrow> u32 \<Rightarrow> u32" where
  "next_zero_bit_words m p sz result =
     (case scan_words (\<lambda>tmp. NOT tmp) m p sz result of
        Found tmp result \<Rightarrow> result + of_nat (ffz tmp)
      | Rest p sz result \<Rightarrow>
          if sz = 0 then 0 else next_zero_bit_found_first (m p) sz result)"

definition bitmap_find_next_zero_bit :: "wmem \<Rightarrow> nat \<Rightarrow> u32 \<Rightarrow> u32 \<Rightarrow> u32" where
  "bitmap_find_next_zero_bit m addr sz offset =
     (if offset = 0 then 0
      else let offset = offset - 1;
               p = addr + BIT_WORD (unat offset);
               result = offset AND NOT 31
           in if sz \<le> offset then 0
              else let sz = sz - result;
                       offset = offset mod 32
                   in if offset \<noteq> 0
                      then let tmp = m p OR drop_bit (32 - unat offset) (NOT 0)
                           in if sz < 32 then next_zero_bit_found_first tmp sz result
                              else if NOT tmp \<noteq> 0 then result + of_nat (ffz tmp)
                              else next_zero_bit_words m (p + 1) (sz - 32) (result + 32)
                      else next_zero_bit_words m p sz result)"

primrec find_last_words :: "wmem \<Rightarrow> nat \<Rightarrow> nat \<Rightarrow> u32 option" where
  "find_last_words m addr 0 = None"
| "find_last_words m addr (Suc words) =
     (let tmp = m (addr + words)
      in if tmp \<noteq> 0 then Some (of_nat words * 32 + of_nat (fls tmp))
         else find_last_words m addr words)"

definition bitmap_find_last_bit :: "wmem \<Rightarrow> nat \<Rightarrow> u32 \<Rightarrow> u32" where
  "bitmap_find_last_bit m addr sz =
     (let words = sz div 32;
          tmp = m (addr + unat words) AND drop_bit (32 - unat (sz AND 31)) (NOT 0)
      in if sz AND 31 \<noteq> 0 \<and> tmp \<noteq> 0 then words * 32 + of_nat (fls tmp)
         else case find_last_words m addr (unat words) of
                Some r \<Rightarrow> r
              | None \<Rightarrow> sz)"

section \<open>Shifts\<close>

text \<open>
  \<^verbatim>\<open>memset\<close> over a whole number of words of a bitmap: each of them becomes the word all
  of whose bytes are \<open>c\<close>.
\<close>

definition memset_words :: "wmem \<Rightarrow> nat \<Rightarrow> u32 \<Rightarrow> nat \<Rightarrow> wmem" where
  "memset_words m p c n = (\<lambda>i. if p \<le> i \<and> i < p + n then c else m i)"

definition shift_left_body :: "nat \<Rightarrow> nat \<Rightarrow> nat \<Rightarrow> nat \<Rightarrow> nat \<Rightarrow> nat \<Rightarrow> nat \<Rightarrow> wmem \<Rightarrow> wmem" where
  "shift_left_body dst src lim left off rem k m =
     (let lower = if rem \<noteq> 0 \<and> 0 < k then m (src + (k - 1)) else 0;
          upper = m (src + k);
          upper = if left \<noteq> 0 \<and> k + 1 = lim then upper AND (push_bit left 1 - 1) else upper;
          v = drop_bit (BITS_PER_LONG - rem) lower OR push_bit rem upper;
          m = m(dst + (k + off) := v)
      in if left \<noteq> 0 \<and> k + off + 1 = lim
         then m(dst + (k + off) := v AND (push_bit left 1 - 1)) else m)"

definition uu_bitmap_shift_left :: "wmem \<Rightarrow> nat \<Rightarrow> nat \<Rightarrow> nat \<Rightarrow> nat \<Rightarrow> wmem" where
  "uu_bitmap_shift_left m dst src shift bits =
     (let lim = BITS_TO_LONGS bits; left = bits mod BITS_PER_LONG;
          off = shift div BITS_PER_LONG; rem = shift mod BITS_PER_LONG;
          m = fold (shift_left_body dst src lim left off rem) (rev [0..<lim - off]) m
      in if off \<noteq> 0 then memset_words m dst 0 off else m)"

definition shift_right_body :: "nat \<Rightarrow> nat \<Rightarrow> nat \<Rightarrow> nat \<Rightarrow> nat \<Rightarrow> nat \<Rightarrow> nat \<Rightarrow> wmem \<Rightarrow> wmem" where
  "shift_right_body dst src lim left off rem k m =
     (let mask = push_bit left 1 - 1;
          upper = if rem = 0 \<or> lim \<le> off + k + 1 then 0
                  else if off + k + 1 + 1 = lim \<and> left \<noteq> 0 then m (src + (off + k + 1)) AND mask
                  else m (src + (off + k + 1));
          lower = m (src + (off + k));
          lower = if left \<noteq> 0 \<and> off + k + 1 = lim then lower AND mask else lower;
          v = push_bit (BITS_PER_LONG - rem) upper OR drop_bit rem lower;
          m = m(dst + k := v)
      in if left \<noteq> 0 \<and> k + 1 = lim then m(dst + k := v AND mask) else m)"

definition uu_bitmap_shift_right :: "wmem \<Rightarrow> nat \<Rightarrow> nat \<Rightarrow> nat \<Rightarrow> nat \<Rightarrow> wmem" where
  "uu_bitmap_shift_right m dst src shift bits =
     (let lim = BITS_TO_LONGS bits; left = bits mod BITS_PER_LONG;
          off = shift div BITS_PER_LONG; rem = shift mod BITS_PER_LONG;
          m = for_loop 0 (lim - off) (shift_right_body dst src lim left off rem) m
      in if off \<noteq> 0 then memset_words m (dst + lim - off) 0 off else m)"

section \<open>Zero, fill and single bits\<close>

definition bitmap_zero :: "wmem \<Rightarrow> nat \<Rightarrow> nat \<Rightarrow> wmem" where
  "bitmap_zero m dst nbits = memset_words m dst 0 (BITS_TO_LONGS nbits)"

text \<open>
  For \<^verbatim>\<open>nbits == 0\<close> the length \<^verbatim>\<open>nlongs - 1\<close> wraps around and the \<^verbatim>\<open>memset\<close> runs over the
  whole address space: a fault.
\<close>

definition bitmap_fill :: "wmem \<Rightarrow> nat \<Rightarrow> nat \<Rightarrow> wmem outcome" where
  "bitmap_fill m dst nbits =
     (let nlongs = BITS_TO_LONGS nbits
      in if nlongs = 0 then Panic
         else let m = memset_words m dst 0xffffffff (nlongs - 1)
              in Done (m(dst + (nlongs - 1) := BITMAP_LAST_WORD_MASK nbits)))"

text \<open>The \<^verbatim>\<open>assert\<close> fails for a position below 1.\<close>

definition bitmap_test_bit :: "wmem \<Rightarrow> int \<Rightarrow> nat \<Rightarrow> bool outcome" where
  "bitmap_test_bit m nr addr =
     (if \<not> 0 < nr then Panic
      else Done (drop_bit (unat ((of_int (nr - 1) :: u32) AND 31)) (m (addr + BIT_WORD (nat nr))) AND 1 \<noteq> 0))"

section \<open>The wrappers of the header\<close>

text \<open>\<^verbatim>\<open>bitmap_empty\<close> calls \<^verbatim>\<open>__bitmap_empty\<close>, which no file defines.\<close>

definition bitmap_and :: "wmem \<Rightarrow> nat \<Rightarrow> nat \<Rightarrow> nat \<Rightarrow> nat \<Rightarrow> wmem \<times> bool" where
  "bitmap_and m dst src1 src2 nbits = uu_bitmap_and m dst src1 src2 nbits"

definition bitmap_or :: "wmem \<Rightarrow> nat \<Rightarrow> nat \<Rightarrow> nat \<Rightarrow> nat \<Rightarrow> wmem" where
  "bitmap_or m dst src1 src2 nbits = uu_bitmap_or m dst src1 src2 nbits"

definition bitmap_xor :: "wmem \<Rightarrow> nat \<Rightarrow> nat \<Rightarrow> nat \<Rightarrow> nat \<Rightarrow> wmem" where
  "bitmap_xor m dst src1 src2 nbits = uu_bitmap_xor m dst src1 src2 nbits"

definition bitmap_andnot :: "wmem \<Rightarrow> nat \<Rightarrow> nat \<Rightarrow> nat \<Rightarrow> nat \<Rightarrow> wmem \<times> bool" where
  "bitmap_andnot m dst src1 src2 nbits = uu_bitmap_andnot m dst src1 src2 nbits"

definition bitmap_complement :: "wmem \<Rightarrow> nat \<Rightarrow> nat \<Rightarrow> nat \<Rightarrow> wmem" where
  "bitmap_complement m dst src nbits = uu_bitmap_complement m dst src nbits"

definition bitmap_equal :: "wmem \<Rightarrow> nat \<Rightarrow> nat \<Rightarrow> nat \<Rightarrow> bool" where
  "bitmap_equal m src1 src2 nbits = uu_bitmap_equal m src1 src2 nbits"

definition bitmap_intersects :: "wmem \<Rightarrow> nat \<Rightarrow> nat \<Rightarrow> nat \<Rightarrow> bool" where
  "bitmap_intersects m src1 src2 nbits = uu_bitmap_intersects m src1 src2 nbits"

definition bitmap_subset :: "wmem \<Rightarrow> nat \<Rightarrow> nat \<Rightarrow> nat \<Rightarrow> bool" where
  "bitmap_subset m src1 src2 nbits = uu_bitmap_subset m src1 src2 nbits"

definition bitmap_full :: "wmem \<Rightarrow> nat \<Rightarrow> nat \<Rightarrow> bool" where
  "bitmap_full m src nbits = uu_bitmap_full m src nbits"

definition bitmap_weight :: "wmem \<Rightarrow> nat \<Rightarrow> nat \<Rightarrow> nat" where
  "bitmap_weight m src nbits = uu_bitmap_weight m src nbits"

definition bitmap_shift_right :: "wmem \<Rightarrow> nat \<Rightarrow> nat \<Rightarrow> nat \<Rightarrow> nat \<Rightarrow> wmem" where
  "bitmap_shift_right m dst src n nbits = uu_bitmap_shift_right m dst src n nbits"

definition bitmap_shift_left :: "wmem \<Rightarrow> nat \<Rightarrow> nat \<Rightarrow> nat \<Rightarrow> nat \<Rightarrow> wmem" where
  "bitmap_shift_left m dst src n nbits = uu_bitmap_shift_left m dst src n nbits"

lemmas bitmap_wrappers = bitmap_and_def bitmap_or_def bitmap_xor_def bitmap_andnot_def bitmap_complement_def
  bitmap_equal_def bitmap_intersects_def bitmap_subset_def bitmap_full_def bitmap_weight_def
  bitmap_shift_right_def bitmap_shift_left_def

end
