(* ===== verification/Bitmap_Set.thy ===== *)
theory Bitmap_Set
  imports Bitmap
begin

text \<open>
  What the bitmap operations compute, read on the abstraction of a bitmap as the set of
  its positions that are set.
\<close>

section \<open>The set of a bitmap\<close>

definition bits_of :: "wmem \<Rightarrow> nat \<Rightarrow> nat \<Rightarrow> nat set" where
  "bits_of m p n = {i. i < n \<and> bit (m (p + i div 32)) (i mod 32)}"

lemma finite_bits_of [simp]: "finite (bits_of m p n)"
  by (simp add: bits_of_def)

lemma bits_of_0 [simp]: "bits_of m p 0 = {}"
  by (simp add: bits_of_def)

lemma bits_of_not: "bits_of (\<lambda>i. NOT (m i)) p n = {..<n} - bits_of m p n"
  by (auto simp: bits_of_def bit_simps)

lemma bits_of_cong:
  "(\<And>i. i < n \<Longrightarrow> m (p + i div 32) = m' (p' + i div 32)) \<Longrightarrow> bits_of m p n = bits_of m' p' n"
  by (auto simp: bits_of_def)

text \<open>
  A quantifier over the positions below \<open>n\<close>, as the loops see it: over the bits of the
  \<open>n div 32\<close> full words and, if there is one, of the partial word after them.
\<close>

lemma ex_positions:
  fixes n :: nat
  shows "(\<exists>i<n. P (i div 32) (i mod 32)) \<longleftrightarrow>
   (\<exists>k<n div 32. \<exists>j<32. P k j) \<or> n mod 32 \<noteq> 0 \<and> (\<exists>j<n mod 32. P (n div 32) j)"
  (is "?L \<longleftrightarrow> ?F \<or> ?T")
proof
  assume ?L
  then obtain i where i: "i < n" "P (i div 32) (i mod 32)" by auto
  show "?F \<or> ?T"
  proof (cases "i div 32 < n div 32")
    case True
    moreover have "i mod 32 < 32" by simp
    ultimately show ?thesis using i(2) by blast
  next
    case False
    then have "i div 32 = n div 32" using i(1) by (simp add: div_le_mono le_antisym not_less)
    moreover have "i mod 32 < n mod 32"
      using i(1) calculation by (metis div_mult_mod_eq nat_add_left_cancel_less)
    ultimately show ?thesis using i(2) by auto
  qed
next
  assume "?F \<or> ?T"
  then show ?L
  proof
    assume ?F
    then obtain k j where kj: "k < n div 32" "j < 32" "P k j" by auto
    then have "32 * k + j < n" by linarith
    moreover have "(32 * k + j) div 32 = k" "(32 * k + j) mod 32 = j" using kj(2) by auto
    ultimately show ?L using kj(3) by metis
  next
    assume ?T
    then obtain j where j: "j < n mod 32" "P (n div 32) j" by auto
    have "j < 32" using j(1) mod_less_divisor[of 32 n] by linarith
    moreover have "32 * (n div 32) + j < n" using j(1) mult_div_mod_eq[of 32 n] by linarith
    moreover from this have "(32 * (n div 32) + j) div 32 = n div 32"
      "(32 * (n div 32) + j) mod 32 = j" by auto
    ultimately show ?L using j(2) by metis
  qed
qed

section \<open>Masks\<close>

lemma mask_31: "(31 :: u32) = mask 5"
  by (simp add: mask_eq_decr_exp)

lemma bit_last_word_mask [simp]:
  "bit (BITMAP_LAST_WORD_MASK n) j \<longleftrightarrow> j < 32 \<and> (n mod 32 = 0 \<or> j < n mod 32)"
proof -
  have "push_bit k 1 - 1 = (mask k :: u32)" for k
    by (simp add: mask_eq_exp_minus_1 push_bit_of_1)
  then show ?thesis
    by (auto simp: BITMAP_LAST_WORD_MASK_def bit_simps)
qed

lemma bit_first_word_mask [simp]:
  "bit (BITMAP_FIRST_WORD_MASK start) j \<longleftrightarrow> start mod 32 \<le> j \<and> j < 32"
  by (auto simp: BITMAP_FIRST_WORD_MASK_def bit_simps)

lemma xor_eq_0_iff_eq: "(v :: u32) XOR w = 0 \<longleftrightarrow> v = w"
  by (auto simp: word_eq_0_iff_bits bit_eq_iff bit_xor_iff)

lemma word_neq_0_iff_bit: "(w :: u32) \<noteq> 0 \<longleftrightarrow> (\<exists>j<32. bit w j)"
  using bit_imp_le_length[of w] by (auto simp: word_eq_0_iff_bits)

lemma and_last_mask_neq_0:
  assumes "n mod 32 \<noteq> 0"
  shows "w AND BITMAP_LAST_WORD_MASK n \<noteq> 0 \<longleftrightarrow> (\<exists>j<n mod 32. bit w j)"
  using assms by (auto simp: word_neq_0_iff_bit bit_and_iff) (metis less_trans mod_less_divisor zero_less_numeral)

section \<open>Comparisons\<close>

text \<open>
  The loop-and-tail shape of the five tests: a word-wise test of the full words and a
  masked one of the partial word decide whether some position below \<open>n\<close> satisfies the test.
\<close>

lemma test_loop_iff:
  "(\<exists>k<n div 32. f k \<noteq> (0::u32)) \<or> (n mod 32 \<noteq> 0 \<and> f (n div 32) AND BITMAP_LAST_WORD_MASK n \<noteq> 0)
   \<longleftrightarrow> (\<exists>i<n. bit (f (i div 32)) (i mod 32))"
proof -
  have "(\<exists>k<n div 32. f k \<noteq> 0) \<longleftrightarrow> (\<exists>k<n div 32. \<exists>j<32. bit (f k) j)"
    by (simp only: word_neq_0_iff_bit)
  moreover have "(n mod 32 \<noteq> 0 \<and> f (n div 32) AND BITMAP_LAST_WORD_MASK n \<noteq> 0)
      \<longleftrightarrow> (n mod 32 \<noteq> 0 \<and> (\<exists>j<n mod 32. bit (f (n div 32)) j))"
    by (metis and_last_mask_neq_0)
  ultimately show ?thesis
    by (simp only: ex_positions[where P = "\<lambda>k j. bit (f k) j"])
qed

lemma bitmap_equal_iff:
  "uu_bitmap_equal m b1 b2 n \<longleftrightarrow> bits_of m b1 n = bits_of m b2 n"
proof -
  have "uu_bitmap_equal m b1 b2 n
      \<longleftrightarrow> \<not> (\<exists>i<n. bit (m (b1 + i div 32) XOR m (b2 + i div 32)) (i mod 32))"
    unfolding uu_bitmap_equal_def Let_def
      test_loop_iff[where f = "\<lambda>k. m (b1 + k) XOR m (b2 + k)", symmetric] by (simp add: xor_eq_0_iff_eq)
  then show ?thesis by (auto simp: bits_of_def bit_xor_iff set_eq_iff)
qed

lemma bitmap_intersects_iff:
  "uu_bitmap_intersects m b1 b2 n \<longleftrightarrow> bits_of m b1 n \<inter> bits_of m b2 n \<noteq> {}"
proof -
  have "uu_bitmap_intersects m b1 b2 n
      \<longleftrightarrow> (\<exists>i<n. bit (m (b1 + i div 32) AND m (b2 + i div 32)) (i mod 32))"
    unfolding uu_bitmap_intersects_def Let_def
      test_loop_iff[where f = "\<lambda>k. m (b1 + k) AND m (b2 + k)", symmetric] by simp
  then show ?thesis by (auto simp: bits_of_def bit_and_iff)
qed

lemma bitmap_subset_iff:
  "uu_bitmap_subset m b1 b2 n \<longleftrightarrow> bits_of m b1 n \<subseteq> bits_of m b2 n"
proof -
  have "uu_bitmap_subset m b1 b2 n
      \<longleftrightarrow> \<not> (\<exists>i<n. bit (m (b1 + i div 32) AND NOT (m (b2 + i div 32))) (i mod 32))"
    unfolding uu_bitmap_subset_def Let_def
      test_loop_iff[where f = "\<lambda>k. m (b1 + k) AND NOT (m (b2 + k))", symmetric] by simp
  then show ?thesis by (auto simp: bits_of_def bit_simps)
qed

lemma bitmap_full_iff:
  "uu_bitmap_full m b n \<longleftrightarrow> bits_of m b n = {..<n}"
proof -
  have "uu_bitmap_full m b n \<longleftrightarrow> \<not> (\<exists>i<n. bit (NOT (m (b + i div 32))) (i mod 32))"
    unfolding uu_bitmap_full_def Let_def
      test_loop_iff[where f = "\<lambda>k. NOT (m (b + k))", symmetric] by simp
  then show ?thesis by (auto simp: bits_of_def bit_simps)
qed

section \<open>Weight\<close>

lemma bits_of_Suc_word:
  "bits_of m p (32 * Suc k) = bits_of m p (32 * k) \<union> (+) (32 * k) ` {j. bit (m (p + k)) j}"
proof -
  have "i \<in> bits_of m p (32 * Suc k) \<longleftrightarrow>
        i \<in> bits_of m p (32 * k) \<or> (\<exists>j. i = 32 * k + j \<and> bit (m (p + k)) j)" for i
  proof (cases "i < 32 * k")
    case True
    then show ?thesis by (auto simp: bits_of_def)
  next
    case False
    define j where "j = i - 32 * k"
    have i: "i = 32 * k + j" using False by (simp add: j_def)
    have "bit (m (p + k)) j \<Longrightarrow> j < 32" using bit_imp_le_length[of "m (p + k)" j] by simp
    then show ?thesis by (auto simp: i bits_of_def)
  qed
  then show ?thesis by auto
qed

lemma bits_of_tail:
  "bits_of m p n = bits_of m p (32 * (n div 32))
     \<union> (if n mod 32 \<noteq> 0 then (+) (32 * (n div 32)) ` {j. bit (m (p + n div 32) AND BITMAP_LAST_WORD_MASK n) j} else {})"
proof -
  let ?k = "n div 32"
  have "i \<in> bits_of m p n \<longleftrightarrow> i \<in> bits_of m p (32 * ?k) \<or>
     (n mod 32 \<noteq> 0 \<and> (\<exists>j. i = 32 * ?k + j \<and> bit (m (p + ?k) AND BITMAP_LAST_WORD_MASK n) j))" for i
  proof (cases "i < 32 * ?k")
    case True
    then show ?thesis by (auto simp: bits_of_def)
  next
    case False
    define j where "j = i - 32 * ?k"
    have i: "i = 32 * ?k + j" using False by (simp add: j_def)
    have n: "n = 32 * ?k + n mod 32" by simp
    have "i < n \<longleftrightarrow> j < n mod 32" using n i by linarith
    moreover have "j < n mod 32 \<Longrightarrow> j < 32" by (meson less_trans mod_less_divisor zero_less_numeral)
    ultimately show ?thesis using False by (auto simp: i bits_of_def bit_and_iff)
  qed
  then show ?thesis by auto
qed

lemma card_bits_of_words:
  "for_loop 0 k (\<lambda>k w. w + hweight (m (p + k))) 0 = card (bits_of m p (32 * k))"
proof (induction k)
  case (Suc k)
  have "card (bits_of m p (32 * Suc k)) = card (bits_of m p (32 * k)) + card {j. bit (m (p + k)) j}"
    unfolding bits_of_Suc_word
    by (subst card_Un_disjoint) (auto simp: bits_of_def card_image)
  then show ?case
    using Suc by (simp add: for_loop_Suc hweight_def hweight32_popcount popcount_def)
qed simp

lemma bitmap_weight_card: "uu_bitmap_weight m b n = card (bits_of m b n)"
proof -
  have "card (bits_of m b n) = card (bits_of m b (32 * (n div 32))) +
     (if n mod 32 \<noteq> 0 then popcount (m (b + n div 32) AND BITMAP_LAST_WORD_MASK n) else 0)"
    by (subst bits_of_tail, subst card_Un_disjoint) (auto simp: bits_of_def card_image popcount_def)
  then show ?thesis
    by (simp add: uu_bitmap_weight_def Let_def card_bits_of_words)
      (simp add: hweight_def hweight32_popcount)
qed

end
