(* ===== verification/Bitmap_Ops.thy ===== *)
theory Bitmap_Ops
  imports Bitmap_Set
begin

text \<open>
  The operations that write a bitmap: the word-wise Boolean operations as set operations,
  setting and clearing of a range, zeroing and filling, and the shifts.
\<close>

section \<open>Word-wise operations\<close>

text \<open>
  A loop that fills \<open>n\<close> cells from \<open>d\<close> upwards out of the cells at \<open>a\<close> and \<open>b\<close> reads only
  old values when the destination is not inside a source, above its start.
\<close>

abbreviation readable :: "nat \<Rightarrow> nat \<Rightarrow> nat \<Rightarrow> bool" where
  "readable d a n \<equiv> d \<le> a \<or> a + n \<le> d"

definition map_words :: "(u32 \<Rightarrow> u32 \<Rightarrow> u32) \<Rightarrow> wmem \<Rightarrow> nat \<Rightarrow> nat \<Rightarrow> nat \<Rightarrow> nat \<Rightarrow> wmem" where
  "map_words f m d a b n =
     (\<lambda>i. if d \<le> i \<and> i < d + n then f (m (a + (i - d))) (m (b + (i - d))) else m i)"

lemma map_words_read: "readable d a n \<Longrightarrow> k < n \<Longrightarrow> map_words f m d a' b' k (a + k) = m (a + k)"
  by (auto simp: map_words_def)

lemma map_words_0 [simp]: "map_words f m d a b 0 = m"
  by (auto simp: map_words_def fun_eq_iff)

lemma map_words_Suc:
  "map_words f m d a b (Suc k) = (map_words f m d a b k)(d + k := f (m (a + k)) (m (b + k)))"
  by (auto simp: map_words_def fun_eq_iff less_Suc_eq)

lemma binop_loop:
  assumes "readable d a n" "readable d b n" "k \<le> n"
  shows "for_loop 0 k (\<lambda>k m. m(d + k := f (m (a + k)) (m (b + k)))) m = map_words f m d a b k"
  using assms(3)
proof (induction k)
  case 0
  show ?case by simp
next
  case (Suc k)
  then have "k < n" by simp
  note read = map_words_read[OF assms(1) this] map_words_read[OF assms(2) this]
  from Suc show ?case
    by (simp add: for_loop_Suc map_words_Suc read cong: if_cong)
qed

lemma binop_result_loop:
  assumes "readable d a n" "readable d b n" "k \<le> n"
  shows "for_loop 0 k (\<lambda>k (m, result). let v = f (m (a + k)) (m (b + k)) in (m(d + k := v), result OR v)) (m, 0)
    = (map_words f m d a b k, fold (\<lambda>k r. r OR f (m (a + k)) (m (b + k))) [0..<k] 0)"
  using assms(3)
proof (induction k)
  case 0
  show ?case by simp
next
  case (Suc k)
  then have "k < n" by simp
  note read = map_words_read[OF assms(1) this] map_words_read[OF assms(2) this]
  from Suc show ?case
    by (simp add: for_loop_Suc map_words_Suc Let_def read cong: if_cong)
qed

lemma fold_or_neq_0:
  "fold (\<lambda>k r. r OR g k) [0..<n] (0::u32) \<noteq> 0 \<longleftrightarrow> (\<exists>k<n. g k \<noteq> 0)"
proof -
  have "bit (fold (\<lambda>k r. r OR g k) [0..<n] (0::u32)) j \<longleftrightarrow> (\<exists>k<n. bit (g k) j)" for j
    by (induction n) (auto simp: bit_or_iff less_Suc_eq)
  then show ?thesis by (simp add: word_eq_0_iff_bits) blast
qed

lemma bits_of_map_words:
  assumes "\<And>v w j. j < 32 \<Longrightarrow> bit (f v w) j \<longleftrightarrow> g (bit v j) (bit w j)" "n \<le> 32 * k"
  shows "bits_of (map_words f m d a b k) d n
       = {i. i < n \<and> g (i \<in> bits_of m a n) (i \<in> bits_of m b n)}"
proof -
  have "i div 32 < k" if "i < n" for i using that assms(2) by (simp add: div_less_iff_less_mult)
  then show ?thesis by (auto simp: bits_of_def map_words_def assms(1))
qed

lemma bits_le_words: "n \<le> 32 * BITS_TO_LONGS n"
  using BITS_TO_LONGS_enough[of n] by (simp add: mult.commute)

lemma ex_word_iff_bits:
  "(\<exists>k<n. f (m (a + k)) (m (b + k)) \<noteq> (0::u32)) \<longleftrightarrow> bits_of (map_words f m d a b n) d (32 * n) \<noteq> {}"
proof -
  have "bits_of (map_words f m d a b n) d (32 * n) \<noteq> {} \<longleftrightarrow>
        (\<exists>i<32 * n. bit (f (m (a + i div 32)) (m (b + i div 32))) (i mod 32))"
    by (auto simp: bits_of_def map_words_def div_less_iff_less_mult mult.commute)
  also have "\<dots> \<longleftrightarrow> (\<exists>k<n. \<exists>j<32. bit (f (m (a + k)) (m (b + k))) j)"
    by (subst ex_positions[where P = "\<lambda>k j. bit (f (m (a + k)) (m (b + k))) j"]) simp
  finally show ?thesis by (simp add: word_neq_0_iff_bit)
qed

lemma bitmap_and_sets:
  assumes "readable d a (BITS_TO_LONGS n)" "readable d b (BITS_TO_LONGS n)"
  shows "bits_of (fst (uu_bitmap_and m d a b n)) d n = bits_of m a n \<inter> bits_of m b n"
    and "snd (uu_bitmap_and m d a b n) \<longleftrightarrow>
         bits_of (fst (uu_bitmap_and m d a b n)) d (32 * BITS_TO_LONGS n) \<noteq> {}"
    and "i \<notin> block d (BITS_TO_LONGS n) \<Longrightarrow> fst (uu_bitmap_and m d a b n) i = m i"
proof -
  have eq: "uu_bitmap_and m d a b n = (map_words (AND) m d a b (BITS_TO_LONGS n),
      fold (\<lambda>k r. r OR (m (a + k) AND m (b + k))) [0..<BITS_TO_LONGS n] 0 \<noteq> 0)"
    using binop_result_loop[OF assms order_refl, of "(AND)" m] by (simp add: uu_bitmap_and_def Let_def)
  show "bits_of (fst (uu_bitmap_and m d a b n)) d n = bits_of m a n \<inter> bits_of m b n"
    unfolding eq fst_conv
    by (subst bits_of_map_words[where g = "(\<and>)"]) (auto simp: bit_and_iff bits_le_words bits_of_def)
  show "snd (uu_bitmap_and m d a b n) \<longleftrightarrow>
         bits_of (fst (uu_bitmap_and m d a b n)) d (32 * BITS_TO_LONGS n) \<noteq> {}"
    unfolding eq fst_conv snd_conv fold_or_neq_0 ex_word_iff_bits[where d = d] ..
  show "i \<notin> block d (BITS_TO_LONGS n) \<Longrightarrow> fst (uu_bitmap_and m d a b n) i = m i"
    unfolding eq by (auto simp: map_words_def)
qed

lemma bitmap_andnot_sets:
  assumes "readable d a (BITS_TO_LONGS n)" "readable d b (BITS_TO_LONGS n)"
  shows "bits_of (fst (uu_bitmap_andnot m d a b n)) d n = bits_of m a n - bits_of m b n"
    and "snd (uu_bitmap_andnot m d a b n) \<longleftrightarrow>
         bits_of (fst (uu_bitmap_andnot m d a b n)) d (32 * BITS_TO_LONGS n) \<noteq> {}"
    and "i \<notin> block d (BITS_TO_LONGS n) \<Longrightarrow> fst (uu_bitmap_andnot m d a b n) i = m i"
proof -
  let ?f = "\<lambda>v w :: u32. v AND NOT w"
  have eq: "uu_bitmap_andnot m d a b n = (map_words ?f m d a b (BITS_TO_LONGS n),
      fold (\<lambda>k r. r OR (m (a + k) AND NOT (m (b + k)))) [0..<BITS_TO_LONGS n] 0 \<noteq> 0)"
    using binop_result_loop[OF assms order_refl, of ?f m] by (simp add: uu_bitmap_andnot_def Let_def)
  show "bits_of (fst (uu_bitmap_andnot m d a b n)) d n = bits_of m a n - bits_of m b n"
    unfolding eq fst_conv
    by (subst bits_of_map_words[where g = "\<lambda>p q. p \<and> \<not> q"]) (auto simp: bit_simps bits_le_words bits_of_def)
  show "snd (uu_bitmap_andnot m d a b n) \<longleftrightarrow>
         bits_of (fst (uu_bitmap_andnot m d a b n)) d (32 * BITS_TO_LONGS n) \<noteq> {}"
    unfolding eq fst_conv snd_conv fold_or_neq_0 ex_word_iff_bits[where d = d and f = ?f, symmetric] ..
  show "i \<notin> block d (BITS_TO_LONGS n) \<Longrightarrow> fst (uu_bitmap_andnot m d a b n) i = m i"
    unfolding eq by (auto simp: map_words_def)
qed

lemma bitmap_or_sets:
  assumes "readable d a (BITS_TO_LONGS n)" "readable d b (BITS_TO_LONGS n)"
  shows "bits_of (uu_bitmap_or m d a b n) d n = bits_of m a n \<union> bits_of m b n"
    and "i \<notin> block d (BITS_TO_LONGS n) \<Longrightarrow> uu_bitmap_or m d a b n i = m i"
  unfolding uu_bitmap_or_def Let_def binop_loop[OF assms order_refl, of "(OR)"]
  by (subst bits_of_map_words[where g = "(\<or>)"]) (auto simp: bit_or_iff bits_le_words bits_of_def map_words_def)

lemma bitmap_xor_sets:
  assumes "readable d a (BITS_TO_LONGS n)" "readable d b (BITS_TO_LONGS n)"
  shows "bits_of (uu_bitmap_xor m d a b n) d n
       = (bits_of m a n - bits_of m b n) \<union> (bits_of m b n - bits_of m a n)"
    and "i \<notin> block d (BITS_TO_LONGS n) \<Longrightarrow> uu_bitmap_xor m d a b n i = m i"
  unfolding uu_bitmap_xor_def Let_def binop_loop[OF assms order_refl, of "(XOR)"]
  by (subst bits_of_map_words[where g = "(\<noteq>)"]) (auto simp: bit_xor_iff bits_le_words bits_of_def map_words_def)

lemma bitmap_complement_sets:
  assumes "readable d s (Suc (n div 32))"
  shows "bits_of (uu_bitmap_complement m d s n) d n = {..<n} - bits_of m s n"
proof -
  let ?k = "n div 32"
  let ?f = "\<lambda>v w :: u32. NOT v"
  have k: "readable d s ?k" using assms by linarith
  have loop: "for_loop 0 ?k (\<lambda>k m. m(d + k := NOT (m (s + k)))) m = map_words ?f m d s s ?k"
    using binop_loop[OF k k order_refl, of ?f] .
  have read: "map_words ?f m d s s ?k (s + ?k) = m (s + ?k)"
    by (rule map_words_read[OF assms]) simp
  have "i \<in> bits_of (uu_bitmap_complement m d s n) d n \<longleftrightarrow> i \<in> {..<n} - bits_of m s n" for i
  proof (cases "i div 32 < ?k")
    case True
    then show ?thesis
      by (auto simp: uu_bitmap_complement_def Let_def loop bits_of_def map_words_def bit_simps)
  next
    case False
    then have "i < n \<Longrightarrow> i div 32 = ?k" by (simp add: div_le_mono le_antisym not_less)
    moreover have "i < n \<Longrightarrow> i mod 32 < n mod 32"
      using calculation by (metis div_mult_mod_eq nat_add_left_cancel_less)
    ultimately show ?thesis
      by (auto simp: uu_bitmap_complement_def Let_def loop read bits_of_def bit_simps)
  qed
  then show ?thesis by blast
qed

section \<open>Setting and clearing a range\<close>

text \<open>
  The bits that the code treats as one range: bit \<open>j\<close> of the cell \<open>q\<close> is position
  \<open>32 * (q - bm) + j\<close> of the bitmap at \<open>bm\<close>.
\<close>

abbreviation in_range :: "nat \<Rightarrow> nat \<Rightarrow> nat \<Rightarrow> nat \<Rightarrow> nat \<Rightarrow> bool" where
  "in_range bm lo hi q j \<equiv> bm \<le> q \<and> j < 32 \<and> lo \<le> 32 * (q - bm) + j \<and> 32 * (q - bm) + j < hi"

lemma range_first_word:
  assumes "32 * k \<le> lo" "lo < 32 * Suc k"
  shows "in_range bm lo hi q j \<longleftrightarrow>
         (q = bm + k \<and> lo - 32 * k \<le> j \<and> j < 32 \<and> 32 * k + j < hi) \<or> in_range bm (32 * Suc k) hi q j"
proof (cases "bm \<le> q")
  case True
  then obtain d where q: "q = bm + d" using le_Suc_ex by blast
  consider "d < k" | "d = k" | "k < d" by linarith
  then show ?thesis using assms by cases (auto simp: q)
qed auto

lemma bit_last_word_mask_hi:
  assumes "32 * k < hi" "hi < 32 * Suc k"
  shows "bit (BITMAP_LAST_WORD_MASK hi) j \<longleftrightarrow> 32 * k + j < hi"
proof -
  have "hi mod 32 = hi - 32 * k"
    using assms by (metis add_diff_inverse_nat div_nat_eqI less_imp_le_nat minus_mult_div_eq_mod mult.commute)
  then show ?thesis using assms by auto
qed

lemma set_loop_bits:
  assumes "\<And>j. bit msk j \<longleftrightarrow> lo - 32 * k \<le> j \<and> j < 32"
    and "32 * k \<le> lo" "lo < 32 * Suc k" "hi = lo + nr" "bits = 32 * Suc k - lo"
  shows "bit ((case bitmap_set_loop m (bm + k) nr bits msk of (m, p, nr, msk) \<Rightarrow>
             if nr \<noteq> 0 then m(p := m p OR (msk AND BITMAP_LAST_WORD_MASK hi)) else m) q) j
         \<longleftrightarrow> bit (m q) j \<or> in_range bm lo hi q j"
  using assms
proof (induction nr arbitrary: m k lo bits msk rule: less_induct)
  case (less nr)
  note first = range_first_word[OF less.prems(2,3), where bm = bm and hi = hi and q = q and j = j]
  show ?case
  proof (cases "bits \<le> nr")
    case True
    then have IH: "bit ((case bitmap_set_loop (m(bm + k := m (bm + k) OR msk)) (bm + Suc k) (nr - bits) 32 (NOT 0) of
             (m, p, nr, msk) \<Rightarrow>
             if nr \<noteq> 0 then m(p := m p OR (msk AND BITMAP_LAST_WORD_MASK hi)) else m) q) j
         \<longleftrightarrow> bit ((m(bm + k := m (bm + k) OR msk)) q) j \<or> in_range bm (32 * Suc k) hi q j"
      using less.prems by (intro less.IH) (auto simp: bit_simps)
    have hi: "32 * k + j < hi" if "j < 32" using True less.prems(2-5) that by simp
    have upd: "bit ((m(bm + k := m (bm + k) OR msk)) q) j \<longleftrightarrow>
        bit (m q) j \<or> (q = bm + k \<and> lo - 32 * k \<le> j \<and> j < 32)"
      by (simp add: bit_or_iff less.prems(1))
    have step: "bitmap_set_loop m (bm + k) nr bits msk =
        bitmap_set_loop (m(bm + k := m (bm + k) OR msk)) (bm + Suc k) (nr - bits) 32 (NOT 0)"
      using True by (simp add: bitmap_set_loop.simps[of m "bm + k"])
    show ?thesis unfolding step IH upd using hi first by blast
  next
    case False
    then have stop: "bitmap_set_loop m (bm + k) nr bits msk = (m, bm + k, nr, msk)"
      by (simp add: bitmap_set_loop.simps)
    have hi: "hi < 32 * Suc k" using False less.prems(2-5) by linarith
    then have no: "\<not> in_range bm (32 * Suc k) hi q j" by linarith
    show ?thesis
    proof (cases "nr = 0")
      case True
      then have "\<not> in_range bm lo hi q j" using less.prems(4) by linarith
      then show ?thesis unfolding stop prod.case using True by auto
    next
      case False
      then have "32 * k < hi" using less.prems(2,4) by linarith
      note last = bit_last_word_mask_hi[OF this hi, of j]
      have "bit ((m(bm + k := m (bm + k) OR (msk AND BITMAP_LAST_WORD_MASK hi))) q) j \<longleftrightarrow>
          bit (m q) j \<or> (q = bm + k \<and> lo - 32 * k \<le> j \<and> j < 32 \<and> 32 * k + j < hi)"
        by (simp only: fun_upd_apply bit_or_iff bit_and_iff last less.prems(1) split: if_split) blast
      then show ?thesis
        unfolding stop prod.case if_P[where P = "nr \<noteq> 0", OF False]
        using first no by blast
    qed
  qed
qed

lemma bitmap_set_bits:
  "bit (bitmap_set m bm start nr q) j \<longleftrightarrow> bit (m q) j \<or> in_range bm start (start + nr) q j"
proof -
  let ?k = "start div 32"
  have r: "start mod 32 = start - 32 * ?k" by (simp add: minus_mult_div_eq_mod)
  have k: "32 * ?k \<le> start" "start < 32 * Suc ?k" by (auto simp: dividend_less_times_div)
  have "32 - start mod 32 = 32 * Suc ?k - start" using r k by simp
  then show ?thesis
    using set_loop_bits[of "BITMAP_FIRST_WORD_MASK start" start ?k "start + nr" nr "32 - start mod 32" m bm q j] k
    by (simp add: bitmap_set_def Let_def BIT_WORD_def r)
qed

lemma clear_loop_dual:
  "bitmap_clear_loop m p nr bits msk =
     (case bitmap_set_loop (\<lambda>i. NOT (m i)) p nr bits msk of (m', p, nr, msk) \<Rightarrow> (\<lambda>i. NOT (m' i), p, nr, msk))"
proof (induction m p nr bits msk rule: bitmap_clear_loop.induct)
  case (1 m p nr bits msk)
  show ?case
  proof (cases "bits \<le> nr")
    case True
    have "(\<lambda>i. NOT ((m(p := m p AND NOT msk)) i)) = (\<lambda>i. NOT (m i))(p := NOT (m p) OR msk)"
      by (auto simp: fun_eq_iff)
    with 1[OF True] True show ?thesis
      by (simp only: bitmap_clear_loop.simps[of m p nr bits msk]
        bitmap_set_loop.simps[of "\<lambda>i. NOT (m i)" p nr bits msk] if_True)
  next
    case False
    then show ?thesis
      by (simp add: bitmap_clear_loop.simps[of m p nr bits msk]
        bitmap_set_loop.simps[of "\<lambda>i. NOT (m i)" p nr bits msk])
  qed
qed

lemma bitmap_clear_dual:
  "bitmap_clear m bm start nr q = NOT (bitmap_set (\<lambda>i. NOT (m i)) bm start nr q)"
  by (auto simp: bitmap_clear_def bitmap_set_def Let_def clear_loop_dual split: prod.split)

lemma bitmap_clear_bits:
  "bit (bitmap_clear m bm start nr q) j \<longleftrightarrow> bit (m q) j \<and> \<not> in_range bm start (start + nr) q j"
  by (auto simp: bitmap_clear_dual bit_not_iff bitmap_set_bits dest: bit_imp_le_length)

lemma bitmap_set_sets: "bits_of (bitmap_set m bm start nr) bm n = bits_of m bm n \<union> ({start..<start + nr} \<inter> {..<n})"
  by (auto simp: bits_of_def bitmap_set_bits)

lemma bitmap_clear_sets: "bits_of (bitmap_clear m bm start nr) bm n = bits_of m bm n - {start..<start + nr}"
  by (auto simp: bits_of_def bitmap_clear_bits)

lemma bitmap_set_frame [aim_frame]:
  assumes "start + nr \<le> 32 * n" "q \<notin> block bm n"
  shows "bitmap_set m bm start nr q = m q"
  using assms by (intro bit_word_eqI) (auto simp: bitmap_set_bits)

lemma bitmap_clear_frame [aim_frame]:
  assumes "start + nr \<le> 32 * n" "q \<notin> block bm n"
  shows "bitmap_clear m bm start nr q = m q"
  using assms by (intro bit_word_eqI) (auto simp: bitmap_clear_bits)

section \<open>Zero, fill and test\<close>

lemma bitmap_zero_sets: "bits_of (bitmap_zero m p n) p n = {}"
  using BITS_TO_LONGS_word[of _ n] by (auto simp: bits_of_def bitmap_zero_def memset_words_def)

lemma bitmap_zero_frame [aim_frame]: "i \<notin> block p (BITS_TO_LONGS n) \<Longrightarrow> bitmap_zero m p n i = m i"
  by (auto simp: bitmap_zero_def memset_words_def)

lemma memset_words_read: "i < k \<Longrightarrow> ((memset_words m p c k)(p + k := w)) (p + i) = c"
  by (simp add: memset_words_def)

lemma bitmap_fill_sets:
  assumes "0 < n"
  obtains m' where "bitmap_fill m p n = Done m'" "bits_of m' p n = {..<n}"
    "\<And>i. i \<notin> block p (BITS_TO_LONGS n) \<Longrightarrow> m' i = m i"
proof
  let ?k = "BITS_TO_LONGS n"
  let ?m = "(memset_words m p 0xffffffff (?k - 1))(p + (?k - 1) := BITMAP_LAST_WORD_MASK n)"
  have k: "0 < ?k" using assms by simp
  show "bitmap_fill m p n = Done ?m" using k by (simp add: bitmap_fill_def Let_def)
  show "\<And>i. i \<notin> block p ?k \<Longrightarrow> ?m i = m i" using k by (auto simp: memset_words_def)
  have ff: "bit (0xffffffff :: u32) j" if "j < 32" for j
  proof -
    have "(0xffffffff :: u32) = NOT 0" by simp
    then show ?thesis using that by (simp only: bit_not_iff) simp
  qed
  have "bit (?m (p + i div 32)) (i mod 32)" if "i < n" for i
  proof (cases "i div 32 = ?k - 1")
    case True
    then have "n \<le> 4" using that by (simp add: BITS_TO_LONGS_def DIV_ROUND_UP_def)
    then show ?thesis using True that by simp
  next
    case False
    then have lt: "i div 32 < ?k - 1" using BITS_TO_LONGS_word[OF that] by linarith
    then have "?m (p + i div 32) = 0xffffffff" by (rule memset_words_read)
    then show ?thesis using ff by simp
  qed
  then show "bits_of ?m p n = {..<n}" unfolding bits_of_def lessThan_def by blast
qed

text \<open>
  \<^verbatim>\<open>bitmap_test_bit\<close> takes a 1-based position but selects the word with
  \<^verbatim>\<open>BIT_WORD(nr)\<close>: it reads the position it is asked for unless that is a multiple of 32,
  where it reads the last bit of the following word.
\<close>

lemma bitmap_test_bit_value:
  assumes "0 < nr" "nr < 2 ^ 31"
  shows "bitmap_test_bit m (int nr) addr =
         Done (bit (m (addr + nr div 32)) ((nr - 1) mod 32))"
proof -
  have "unat ((of_int (int nr - 1) :: u32) AND 31) = (nr - 1) mod 32"
  proof -
    have "int nr - 1 = int (nr - 1)" using assms by simp
    then have "(of_int (int nr - 1) :: u32) = of_nat (nr - 1)" by (simp only: of_int_of_nat_eq)
    moreover have "nr - 1 < 2 ^ 32" using assms by simp
    ultimately show ?thesis
      by (simp only: mask_31 unat_and_mask) (simp add: unat_word_of_nat_small)
  qed
  then show ?thesis using assms
    by (simp add: bitmap_test_bit_def BIT_WORD_def and_one_eq bit_iff_odd_drop_bit odd_iff_mod_2_eq_one)
qed

lemma bitmap_test_bit_panic: "nr \<le> 0 \<Longrightarrow> bitmap_test_bit m nr addr = Panic"
  by (simp add: bitmap_test_bit_def)

lemma bitmap_test_bit_correct:
  assumes "0 < nr" "nr \<le> n" "n < 2 ^ 31" "nr mod 32 \<noteq> 0"
  shows "bitmap_test_bit m (int nr) addr = Done (nr - 1 \<in> bits_of m addr n)"
proof -
  have "(nr - 1) div 32 = nr div 32"
    using assms(1,4) by (metis Suc_pred' div_Suc)
  moreover have "nr - 1 < n" using assms(1,2) by linarith
  ultimately show ?thesis
    using assms by (simp add: bitmap_test_bit_value bits_of_def)
qed

lemma bitmap_test_bit_wrong_word:
  assumes "nr = 32 * Suc k" "nr < 2 ^ 31"
  shows "bitmap_test_bit m (int nr) addr = Done (bit (m (addr + Suc k)) 31)"
  using assms by (subst bitmap_test_bit_value) (auto simp: mod_diff_eq)

end
