(* ===== verification/Bitmap_Search.thy ===== *)
theory Bitmap_Search
  imports Bitmap_Ops
begin

text \<open>
  The searches of \<^verbatim>\<open>kern/lib/libbitmap/\<close>: each returns the 1-based position of the
  element it names of the set of the bitmap, for every 32-bit size and offset.
\<close>

section \<open>Specification\<close>

definition next_elem :: "nat set \<Rightarrow> nat \<Rightarrow> nat" where
  "next_elem S from = (if \<exists>i\<in>S. from \<le> i then Suc (Min {i \<in> S. from \<le> i}) else 0)"

lemma next_elem_none: "(\<And>i. i \<in> S \<Longrightarrow> i < from) \<Longrightarrow> next_elem S from = 0"
  by (auto simp: next_elem_def not_le)

lemma next_elem_skip:
  assumes "from \<le> from'" "\<And>i. i \<in> S \<Longrightarrow> from \<le> i \<Longrightarrow> from' \<le> i"
  shows "next_elem S from = next_elem S from'"
proof -
  have "{i \<in> S. from \<le> i} = {i \<in> S. from' \<le> i}" using assms by fastforce
  moreover from this have "(\<exists>i\<in>S. from \<le> i) \<longleftrightarrow> (\<exists>i\<in>S. from' \<le> i)" by blast
  ultimately show ?thesis by (simp add: next_elem_def)
qed

text \<open>The word \<open>tmp\<close> shows the elements of \<open>S\<close> from \<open>from\<close> on that are in its window.\<close>

lemma next_elem_word:
  fixes tmp :: u32
  assumes "finite S" "tmp \<noteq> 0"
    and bits: "\<And>j. j < 32 \<Longrightarrow> bit tmp j \<longleftrightarrow> R + j \<in> S \<and> from \<le> R + j"
    and low: "\<And>i. i \<in> S \<Longrightarrow> from \<le> i \<Longrightarrow> R \<le> i"
  shows "next_elem S from = R + ffs tmp"
proof -
  let ?j = "Min {j. bit tmp j}"
  have "{j. bit tmp j} \<noteq> {}" using assms(2) by (auto simp: word_eq_0_iff_bits)
  then have j: "bit tmp ?j" using Min_in[of "{j. bit tmp j}"] by simp
  then have j32: "?j < 32" using bit_imp_le_length by fastforce
  then have mem: "R + ?j \<in> {i \<in> S. from \<le> i}" using j bits by simp
  have "Min {i \<in> S. from \<le> i} = R + ?j"
  proof (rule Min_eqI)
    fix i assume i: "i \<in> {i \<in> S. from \<le> i}"
    then obtain d where d: "i = R + d" using low le_Suc_ex by blast
    show "R + ?j \<le> i"
    proof (cases "d < 32")
      case True
      then have "bit tmp d" using i d bits by simp
      then show ?thesis by (simp add: d)
    qed (use j32 d in simp)
  qed (use mem assms(1) in auto)
  then show ?thesis using mem assms(2) by (auto simp: next_elem_def ffs_eq)
qed

lemma unat_add_ffs:
  fixes result tmp :: u32
  assumes "unat result + ffs tmp < 2 ^ 32"
  shows "unat (result + of_nat (ffs tmp)) = unat result + ffs tmp"
proof -
  have "unat (of_nat (ffs tmp) :: u32) = ffs tmp"
    using ffs_le[of tmp] by (intro unat_word_of_nat_small) simp
  then show ?thesis using assms by (subst unat_plus_small) simp_all
qed

lemma ones_drop: "s \<le> 32 \<Longrightarrow> drop_bit (32 - s) (NOT 0 :: u32) = mask s"
  by (rule bit_word_eqI) (auto simp: bit_simps)

lemma ffs_bounded:
  fixes tmp :: u32
  assumes "tmp \<noteq> 0" "\<And>j. bit tmp j \<Longrightarrow> j < s"
  shows "ffs tmp \<le> s"
proof -
  have "{j. bit tmp j} \<noteq> {}" using assms(1) by (auto simp: word_eq_0_iff_bits)
  then have "bit tmp (Min {j. bit tmp j})" using Min_in[of "{j. bit tmp j}"] by simp
  then show ?thesis using assms by (auto simp: ffs_eq Suc_le_eq)
qed

section \<open>Searches for a set bit\<close>

lemma next_bit_words_simps:
  "next_bit_words m p sz result =
     (if sz AND NOT 31 \<noteq> 0
      then if m p \<noteq> 0 then result + of_nat (ffs (m p))
           else next_bit_words m (p + 1) (sz - 32) (result + 32)
      else if sz = 0 then 0 else next_bit_found_first (m p) sz result)"
  unfolding next_bit_words_def by (subst scan_words.simps) (simp add: Let_def del: bit_simps)

text \<open>
  The state of a search in a bitmap of \<open>n\<close> bits at \<open>a\<close> whose word \<open>k\<close> is next: \<open>result\<close> is
  the position of its first bit and \<open>sz\<close> the number of bits from there on.
\<close>

definition search_at :: "nat \<Rightarrow> nat \<Rightarrow> u32 \<Rightarrow> u32 \<Rightarrow> bool" where
  "search_at n k sz result \<longleftrightarrow> unat result = 32 * k \<and> 32 * k + unat sz = n"

lemma search_at_bound: "search_at n k sz result \<Longrightarrow> n < 2 ^ 32 + 32 * k"
  using unsigned_less[where 'a = nat, of sz] by (simp add: search_at_def)

lemma window_iff:
  "j < 32 \<Longrightarrow> 32 * k + j \<in> bits_of m a n \<longleftrightarrow> 32 * k + j < n \<and> bit (m (a + k)) j"
  by (auto simp: bits_of_def)

lemma found_first_correct:
  assumes at: "search_at n k sz result" and n: "n < 2 ^ 32" and sz: "unat sz < 32"
    and "from \<le> 32 * k + unat sz" "32 * k \<le> from"
    and tmp: "\<And>j. j < 32 \<Longrightarrow> bit tmp j \<longleftrightarrow> bit (m (a + k)) j \<and> from \<le> 32 * k + j"
  shows "unat (next_bit_found_first tmp sz result) = next_elem (bits_of m a n) from"
proof -
  let ?t = "tmp AND mask (unat sz)"
  have t: "bit ?t j \<longleftrightarrow> 32 * k + j \<in> bits_of m a n \<and> from \<le> 32 * k + j" if "j < 32" for j
    using that at by (auto simp: window_iff bit_simps tmp search_at_def)
  have R: "unat result = 32 * k" using at by (simp add: search_at_def)
  show ?thesis
  proof (cases "?t = 0")
    case True
    have "i < from" if "i \<in> bits_of m a n" for i
    proof (rule ccontr)
      assume "\<not> i < from"
      then obtain j where j: "i = 32 * k + j" using assms(5) by (metis le_Suc_ex le_trans not_less)
      then have "j < 32" using that at sz by (auto simp: bits_of_def search_at_def)
      then have "bit ?t j" using t that j \<open>\<not> i < from\<close> by simp
      then show False using True by simp
    qed
    then show ?thesis
      using True sz by (simp add: next_bit_found_first_def ones_drop next_elem_none)
  next
    case False
    have "ffs ?t \<le> unat sz" using False by (rule ffs_bounded) (simp add: bit_simps)
    then have "unat (result + of_nat (ffs ?t)) = 32 * k + ffs ?t"
      using at n R by (subst unat_add_ffs) (auto simp: search_at_def)
    also have "\<dots> = next_elem (bits_of m a n) from"
      using False t assms(5) by (intro next_elem_word[symmetric]) auto
    finally show ?thesis
      using False sz by (simp add: next_bit_found_first_def ones_drop)
  qed
qed

lemma next_bit_words_correct:
  assumes "search_at n k sz result" "n < 2 ^ 32"
  shows "unat (next_bit_words m (a + k) sz result) = next_elem (bits_of m a n) (32 * k)"
  using assms
proof (induction "unat sz" arbitrary: k sz result rule: less_induct)
  case less
  note at = less.prems(1)
  have R: "unat result = 32 * k" using at by (simp add: search_at_def)
  show ?case
  proof (cases "32 \<le> unat sz")
    case True
    then have loop: "sz AND NOT 31 \<noteq> 0" by (simp only: size_scan_iff)
    have full: "32 * k + 32 \<le> n" using at True by (simp add: search_at_def)
    show ?thesis
    proof (cases "m (a + k) = 0")
      case True
      have "search_at n (Suc k) (sz - 32) (result + 32)"
        using at full less.prems(2) size_scan_minus[OF loop] \<open>32 \<le> unat sz\<close>
        by (auto simp: search_at_def unat_plus_small)
      then have "unat (next_bit_words m (a + Suc k) (sz - 32) (result + 32)) =
          next_elem (bits_of m a n) (32 * Suc k)"
        using less.prems(2) size_scan_minus[OF loop] \<open>32 \<le> unat sz\<close> by (intro less.hyps) auto
      also have "\<dots> = next_elem (bits_of m a n) (32 * k)"
      proof (rule next_elem_skip[symmetric])
        fix i assume i: "i \<in> bits_of m a n" "32 * k \<le> i"
        show "32 * Suc k \<le> i"
        proof (rule ccontr)
          assume "\<not> ?thesis"
          then have "i div 32 = k" using i(2) by simp
          then show False using i(1) True by (simp add: bits_of_def)
        qed
      qed simp
      finally show ?thesis
        using loop True by (simp add: next_bit_words_simps[of m "a + k"] del: bit_simps)
    next
      case False
      have "unat (result + of_nat (ffs (m (a + k)))) = 32 * k + ffs (m (a + k))"
        using full less.prems(2) R ffs_le[of "m (a + k)"] by (subst unat_add_ffs) auto
      also have "\<dots> = next_elem (bits_of m a n) (32 * k)"
        using False full by (intro next_elem_word[symmetric]) (auto simp: window_iff)
      finally show ?thesis
        using loop False by (simp add: next_bit_words_simps[of m "a + k"] del: bit_simps)
    qed
  next
    case False
    then have loop: "sz AND NOT 31 = 0" using size_scan_iff[of sz] by blast
    show ?thesis
    proof (cases "sz = 0")
      case True
      then have "n = 32 * k" using at by (simp add: search_at_def)
      then have "next_elem (bits_of m a n) (32 * k) = 0" by (intro next_elem_none) (simp add: bits_of_def)
      then show ?thesis using True by (simp add: next_bit_words_simps[of m "a + k"])
    next
      case nz: False
      have "unat (next_bit_found_first (m (a + k)) sz result) = next_elem (bits_of m a n) (32 * k)"
        using False at less.prems(2) by (intro found_first_correct[of n k]) auto
      then show ?thesis
        using loop nz by (simp add: next_bit_words_simps[of m "a + k"] del: bit_simps)
    qed
  qed
qed

lemma search_start:
  fixes off sz :: u32
  assumes "off < sz"
  shows "search_at (unat sz) (unat off div 32) (sz - (off AND NOT 31)) (off AND NOT 31)"
proof -
  have "unat (off AND NOT 31) = unat off - unat off mod 32"
    by (simp only: mask_31 unat_and_not_mask) simp
  then have R: "unat (off AND NOT 31) = 32 * (unat off div 32)"
    by (simp only: minus_mod_eq_mult_div)
  moreover have "32 * (unat off div 32) \<le> unat sz"
    using assms by (simp add: word_less_nat_alt)
  ultimately show ?thesis by (simp only: search_at_def unat_minus_le) simp
qed

text \<open>The first, partial word of the search from a position inside a word.\<close>

lemma next_bit_partial_word:
  fixes off :: u32 and m :: wmem and a :: nat
  assumes at: "search_at n k sz result" and n: "n < 2 ^ 32"
    and k: "k = unat off div 32" "unat off < n"
  defines "tmp \<equiv> m (a + k) AND push_bit (unat (off mod 32)) (NOT 0)"
  shows "unat (if sz < 32 then next_bit_found_first tmp sz result
               else if tmp \<noteq> 0 then result + of_nat (ffs tmp)
               else next_bit_words m (a + k + 1) (sz - 32) (result + 32))
         = next_elem (bits_of m a n) (unat off)"
proof -
  have off: "unat off = 32 * k + unat (off mod 32)" using k(1) by (simp add: unat_mod)
  have tmp: "bit tmp j \<longleftrightarrow> bit (m (a + k)) j \<and> unat off \<le> 32 * k + j" if "j < 32" for j
    using that unfolding tmp_def off by (auto simp: bit_simps)
  have R: "unat result = 32 * k" using at by (simp add: search_at_def)
  consider "sz < 32" | "\<not> sz < 32" "tmp \<noteq> 0" | "\<not> sz < 32" "tmp = 0" by blast
  then show ?thesis
  proof cases
    case 1
    then have "unat (next_bit_found_first tmp sz result) = next_elem (bits_of m a n) (unat off)"
      using at n k(2) off tmp
      by (intro found_first_correct[of n k]) (auto simp: search_at_def word_less_nat_alt)
    then show ?thesis using 1 by simp
  next
    case 2
    then have full: "32 * k + 32 \<le> n" using at by (auto simp: search_at_def word_less_nat_alt)
    then have "unat (result + of_nat (ffs tmp)) = 32 * k + ffs tmp"
      using n R ffs_le[of tmp] by (subst unat_add_ffs) auto
    also have "\<dots> = next_elem (bits_of m a n) (unat off)"
      using 2 full off by (intro next_elem_word[symmetric]) (auto simp: window_iff tmp)
    finally show ?thesis using 2 by simp
  next
    case 3
    then have "32 \<le> unat sz" by (simp add: word_less_nat_alt)
    then have "search_at n (Suc k) (sz - 32) (result + 32)"
      using at n by (auto simp: search_at_def unat_plus_small unat_minus_le)
    from next_bit_words_correct[OF this n, of m a]
    have "unat (next_bit_words m (a + k + 1) (sz - 32) (result + 32)) = next_elem (bits_of m a n) (32 * Suc k)"
      by simp
    also have "\<dots> = next_elem (bits_of m a n) (unat off)"
    proof (rule next_elem_skip[symmetric])
      show "unat off \<le> 32 * Suc k" by (simp add: k(1))
      fix i assume i: "i \<in> bits_of m a n" "unat off \<le> i"
      show "32 * Suc k \<le> i"
      proof (rule ccontr)
        assume "\<not> ?thesis"
        then obtain j where j: "i = 32 * k + j" "j < 32" using i(2) off le_Suc_ex[of "32 * k" i] by auto
        then have "bit tmp j" using i tmp by (auto simp: window_iff)
        then show False using 3 by simp
      qed
    qed
    finally show ?thesis using 3 by simp
  qed
qed

lemma bitmap_find_next_bit_correct:
  "unat (bitmap_find_next_bit m a sz offset) =
     (if offset = 0 then 0 else next_elem (bits_of m a (unat sz)) (unat offset - 1))"
proof (cases "offset = 0")
  case False
  define off where "off = offset - 1"
  have off: "unat off = unat offset - 1" using False by (simp add: off_def unat_minus_one)
  show ?thesis
  proof (cases "off < sz")
    case True
    note at = search_start[OF True]
    have le: "\<not> sz \<le> off" using True by simp
    have n: "unat sz < 2 ^ 32" using unsigned_less[where 'a = nat, of sz] by simp
    have "unat (bitmap_find_next_bit m a sz offset) = next_elem (bits_of m a (unat sz)) (unat off)"
    proof (cases "off mod 32 = 0")
      case zero: True
      have "unat (off mod 32) = unat off mod 32" by (simp add: unat_mod)
      then have "32 * (unat off div 32) = unat off" by (simp add: zero minus_mod_eq_mult_div[symmetric])
      then show ?thesis
        using next_bit_words_correct[OF at n, of m a] le False zero
        by (simp add: bitmap_find_next_bit_def Let_def BIT_WORD_def flip: off_def)
    next
      case False
      have "unat off < unat sz" using True by (simp add: word_less_nat_alt)
      from next_bit_partial_word[OF at n refl this, of m a] show ?thesis
        unfolding bitmap_find_next_bit_def Let_def BIT_WORD_def off_def[symmetric]
        by (simp only: False le \<open>offset \<noteq> 0\<close> if_False if_True not_False_eq_True)
    qed
    then show ?thesis using False by (simp add: off)
  next
    case ge: False
    then have "next_elem (bits_of m a (unat sz)) (unat off) = 0"
      by (intro next_elem_none) (auto simp: bits_of_def word_less_nat_alt)
    then show ?thesis
      using False ge by (simp add: bitmap_find_next_bit_def off not_less flip: off_def)
  qed
qed (simp add: bitmap_find_next_bit_def)

text \<open>Searching from the first position is searching for the next bit from position 1.\<close>

lemma bitmap_find_first_bit_next: "bitmap_find_first_bit m a sz = bitmap_find_next_bit m a sz 1"
  by (cases "sz = 0")
    (simp_all add: bitmap_find_first_bit_def bitmap_find_next_bit_def next_bit_words_def
      next_bit_found_first_def BIT_WORD_def Let_def scan_words.simps[of _ m a 0] split: scan.split)

section \<open>Searches for a zero bit\<close>

text \<open>A search for a zero bit is the search for a set bit in the complemented memory.\<close>

lemma scan_words_dual:
  "scan_words (\<lambda>t. NOT t) m p sz result =
     (case scan_words (\<lambda>t. t) (\<lambda>i. NOT (m i)) p sz result of
        Found t r \<Rightarrow> Found (NOT t) r | Rest p s r \<Rightarrow> Rest p s r)"
proof (induction "\<lambda>t::u32. NOT t" m p sz result rule: scan_words.induct)
  case (1 m p sz result)
  show ?case
    using 1 by (subst (1 2) scan_words.simps) (simp add: Let_def del: bit_simps)
qed

lemma next_zero_bit_found_first_dual:
  assumes "unat sz \<le> 32"
  shows "next_zero_bit_found_first tmp sz result = next_bit_found_first (NOT tmp) sz result"
proof -
  have "NOT (tmp OR push_bit (unat sz) (NOT 0)) = NOT tmp AND drop_bit (32 - unat sz) (NOT 0)"
    unfolding ones_drop[OF assms] by (rule bit_word_eqI) (auto simp: bit_simps)
  moreover have "tmp OR push_bit (unat sz) (NOT 0) = NOT 0 \<longleftrightarrow>
      NOT (tmp OR push_bit (unat sz) (NOT 0)) = 0"
    by (metis bit.double_compl)
  ultimately show ?thesis
    by (simp only: next_zero_bit_found_first_def next_bit_found_first_def ffz_def Let_def)
qed

lemma scan_words_rest: "scan_words hit m p sz result = Rest p' sz' r' \<Longrightarrow> unat sz' < 32"
proof (induction hit m p sz result rule: scan_words.induct)
  case (1 hit m p sz result)
  show ?case
  proof (cases "sz AND NOT 31 = 0")
    case True
    then have "\<not> 32 \<le> unat sz" using size_scan_iff[of sz] by blast
    moreover have "sz' = sz" using 1(2) True by (simp add: scan_words.simps[of hit m p])
    ultimately show ?thesis by simp
  next
    case False
    then have "hit (m p) = 0 \<and> scan_words hit m (p + 1) (sz - 32) (result + 32) = Rest p' sz' r'"
      using 1(2) by (subst (asm) scan_words.simps) (simp add: Let_def split: if_splits)
    then show ?thesis using 1(1)[OF False refl] by simp
  qed
qed

lemma next_zero_bit_words_dual:
  "next_zero_bit_words m p sz result = next_bit_words (\<lambda>i. NOT (m i)) p sz result"
proof (cases "scan_words (\<lambda>t. t) (\<lambda>i. NOT (m i)) p sz result")
  case (Found t r)
  then show ?thesis by (simp add: next_zero_bit_words_def next_bit_words_def scan_words_dual ffz_def)
next
  case (Rest p' sz' r')
  then show ?thesis
    using scan_words_rest[OF Rest] next_zero_bit_found_first_dual[of sz' "m p'" r']
    by (simp add: next_zero_bit_words_def next_bit_words_def scan_words_dual)
qed

lemma bitmap_find_next_zero_bit_dual:
  "bitmap_find_next_zero_bit m a sz offset = bitmap_find_next_bit (\<lambda>i. NOT (m i)) a sz offset"
proof -
  have eq: "NOT (w OR drop_bit (32 - unat (off mod 32)) (NOT 0)) = NOT w AND push_bit (unat (off mod 32)) (NOT 0)"
    for w off :: u32
  proof -
    have "unat (off mod 32) \<le> 32" by (simp add: unat_mod less_imp_le)
    from ones_drop[OF this] show ?thesis
      by (intro bit_word_eqI) (auto simp: bit_simps)
  qed
  have first: "next_zero_bit_found_first w s r = next_bit_found_first (NOT w) s r" if "s < 32" for w s r
    using that next_zero_bit_found_first_dual[of s w r] by (simp add: word_less_nat_alt)
  show ?thesis
    unfolding bitmap_find_next_zero_bit_def bitmap_find_next_bit_def Let_def
    by (simp only: first next_zero_bit_words_dual ffz_def eq cong: if_cong)
qed

lemma bitmap_find_first_zero_bit_next:
  "bitmap_find_first_zero_bit m a sz = bitmap_find_next_zero_bit m a sz 1"
  by (cases "sz = 0")
    (simp_all add: bitmap_find_first_zero_bit_def bitmap_find_next_zero_bit_def next_zero_bit_words_def
      next_zero_bit_found_first_def BIT_WORD_def Let_def scan_words.simps[of _ m a 0] split: scan.split)

lemma bitmap_find_next_zero_bit_correct:
  "unat (bitmap_find_next_zero_bit m a sz offset) =
     (if offset = 0 then 0 else next_elem ({..<unat sz} - bits_of m a (unat sz)) (unat offset - 1))"
  by (simp add: bitmap_find_next_zero_bit_dual bitmap_find_next_bit_correct bits_of_not)

section \<open>Search for the last bit\<close>

lemma fls_bounded:
  fixes tmp :: u32
  assumes "tmp \<noteq> 0"
  shows "bit tmp (fls tmp - 1)" "\<And>j. bit tmp j \<Longrightarrow> j < fls tmp" "0 < fls tmp"
proof -
  have "{j. bit tmp j} \<noteq> {}" using assms by (auto simp: word_eq_0_iff_bits)
  then show "bit tmp (fls tmp - 1)" "\<And>j. bit tmp j \<Longrightarrow> j < fls tmp" "0 < fls tmp"
    using assms Max_in[of "{j. bit tmp j}"] by (auto simp: fls_eq less_Suc_eq_le)
qed

lemma Max_word:
  fixes tmp :: u32
  assumes "finite S" "tmp \<noteq> 0"
    and bits: "\<And>j. j < 32 \<Longrightarrow> bit tmp j \<longleftrightarrow> R + j \<in> S"
    and high: "\<And>i. i \<in> S \<Longrightarrow> i < R + 32"
  shows "Suc (Max S) = R + fls tmp" "S \<noteq> {}"
proof -
  note fls = fls_bounded[OF assms(2)]
  have lt: "fls tmp - 1 < 32" using fls(1) bit_imp_le_length by fastforce
  then have mem: "R + (fls tmp - 1) \<in> S" using fls(1) bits by simp
  then show "S \<noteq> {}" by blast
  have "Max S = R + (fls tmp - 1)"
  proof (rule Max_eqI)
    fix i assume i: "i \<in> S"
    show "i \<le> R + (fls tmp - 1)"
    proof (cases "R \<le> i")
      case True
      then obtain j where j: "i = R + j" using le_Suc_ex by blast
      then have "bit tmp j" using i high bits by fastforce
      then show ?thesis using fls(2)[of j] j by simp
    qed simp
  qed (use mem assms(1) in auto)
  then show "Suc (Max S) = R + fls tmp" using fls(3) by simp
qed

lemma bits_of_less: "i \<in> bits_of m a n \<Longrightarrow> i < n"
  by (simp add: bits_of_def)

lemma bits_of_empty_words:
  assumes "m (a + k) = 0"
  shows "bits_of m a (32 * Suc k) = bits_of m a (32 * k)"
  using assms by (simp only: bits_of_Suc_word) simp

lemma find_last_words_correct:
  "find_last_words m a words =
     (if bits_of m a (32 * words) = {} then None
      else Some (of_nat (Suc (Max (bits_of m a (32 * words))))))"
proof (induction words)
  case (Suc k)
  show ?case
  proof (cases "m (a + k) = 0")
    case True
    then show ?thesis using Suc by (simp only: bits_of_empty_words) (simp add: Let_def)
  next
    case False
    have "i < 32 * k + 32" if "i \<in> bits_of m a (32 * Suc k)" for i
      using bits_of_less[OF that] by simp
    then have "Suc (Max (bits_of m a (32 * Suc k))) = 32 * k + fls (m (a + k))"
      "bits_of m a (32 * Suc k) \<noteq> {}"
      using False Max_word[of "bits_of m a (32 * Suc k)" "m (a + k)" "32 * k"]
      by (simp_all add: window_iff)
    then show ?thesis
      using False by (simp only: find_last_words.simps Let_def if_True not_False_eq_True if_False)
        (simp add: mult.commute)
  qed
qed simp

lemma bitmap_find_last_bit_correct:
  "unat (bitmap_find_last_bit m a sz) =
     (if bits_of m a (unat sz) = {} then unat sz else Suc (Max (bits_of m a (unat sz))))"
proof -
  define n where "n = unat sz"
  define k where "k = n div 32"
  let ?S = "bits_of m a n"
  let ?tmp = "m (a + k) AND mask (n mod 32)"
  have n: "n < 2 ^ 32" using unsigned_less[where 'a = nat, of sz] by (simp add: n_def)
  have words: "unat (sz div 32) = k" by (simp add: k_def n_def unat_div)
  then have words': "sz div 32 = of_nat k" by (metis ucast_id of_nat_unat)
  then have wk: "unat (of_nat k :: u32) = k" using words by simp
  have rem: "unat (sz AND 31) = n mod 32"
    by (simp only: mask_31 unat_and_mask n_def) simp
  then have rem0: "sz AND 31 \<noteq> 0 \<longleftrightarrow> n mod 32 \<noteq> 0" by (metis unsigned_eq_0_iff)
  have drop: "drop_bit (32 - n mod 32) (NOT 0 :: u32) = mask (n mod 32)" by (rule ones_drop) (simp add: less_imp_le)
  have result: "unat (of_nat (Suc (Max ?S)) :: u32) = Suc (Max ?S)" if "?S \<noteq> {}"
  proof (rule unat_word_of_nat_small)
    have "Max ?S < n" using Max_in[OF finite_bits_of that] by (simp add: bits_of_def)
    then show "Suc (Max ?S) < 2 ^ LENGTH(32)" using n by simp
  qed
  show ?thesis
  proof (cases "n mod 32 \<noteq> 0 \<and> ?tmp \<noteq> 0")
    case True
    have nk: "n = 32 * k + n mod 32" by (simp add: k_def)
    have "bit ?tmp j \<longleftrightarrow> 32 * k + j \<in> ?S" if "j < 32" for j
      using that nk by (simp add: window_iff bit_simps) linarith
    moreover have "i < 32 * k + 32" if "i \<in> ?S" for i
      using bits_of_less[OF that] nk mod_less_divisor[of 32 n] by linarith
    ultimately have "Suc (Max ?S) = 32 * k + fls ?tmp" "?S \<noteq> {}"
      using True Max_word[of ?S ?tmp "32 * k"] by simp_all
    moreover have "bitmap_find_last_bit m a sz = of_nat (32 * k + fls ?tmp)"
      using True by (simp add: bitmap_find_last_bit_def Let_def words rem rem0 drop words' wk mult.commute)
    ultimately show ?thesis using result by (simp add: n_def)
  next
    case False
    have "bit (m (a + k) AND BITMAP_LAST_WORD_MASK n) j \<longleftrightarrow> bit ?tmp j" if "n mod 32 \<noteq> 0" for j
      using that by (auto simp: bit_simps)
    then have "n mod 32 \<noteq> 0 \<Longrightarrow> {j. bit (m (a + k) AND BITMAP_LAST_WORD_MASK n) j} = {}"
      using False by (auto simp: word_eq_0_iff_bits)
    then have S: "?S = bits_of m a (32 * k)"
      unfolding k_def by (subst bits_of_tail) auto
    have "bitmap_find_last_bit m a sz = (case find_last_words m a k of Some r \<Rightarrow> r | None \<Rightarrow> sz)"
      using False by (auto simp: bitmap_find_last_bit_def Let_def words rem rem0 drop)
    then show ?thesis
      using result by (auto simp: find_last_words_correct S[symmetric] n_def[symmetric] simp del: of_nat_Suc)
  qed
qed

end
