(* ===== verification/Bitmap_Shift.thy ===== *)
theory Bitmap_Shift
  imports Bitmap_Search
begin

text \<open>
  The shifts of \<^verbatim>\<open>kern/lib/libbitmap/\<close>. Their word count \<^verbatim>\<open>lim\<close> comes from
  \<^verbatim>\<open>BITS_TO_LONGS\<close>, so the mask for the last partial word is applied to a word that, for
  more than four bits, lies beyond the bitmap. Shifting left is still correct on the bits
  of the bitmap; shifting right is correct when the bits above the bitmap are zero, and
  feeds them into the bitmap when they are not.
\<close>

section \<open>The written words\<close>

definition shl_word :: "(nat \<Rightarrow> u32) \<Rightarrow> nat \<Rightarrow> nat \<Rightarrow> nat \<Rightarrow> nat \<Rightarrow> nat \<Rightarrow> u32" where
  "shl_word s lim left off rem k =
     (let lower = if rem \<noteq> 0 \<and> 0 < k then s (k - 1) else 0;
          upper = if left \<noteq> 0 \<and> k + 1 = lim then s k AND (push_bit left 1 - 1) else s k;
          v = drop_bit (32 - rem) lower OR push_bit rem upper
      in if left \<noteq> 0 \<and> k + off + 1 = lim then v AND (push_bit left 1 - 1) else v)"

lemma push_bit_1_mask: "push_bit k 1 - 1 = (mask k :: u32)"
  by (simp add: mask_eq_exp_minus_1 push_bit_of_1)

lemma shift_left_body_eq:
  "shift_left_body dst src lim left off rem k m =
     m(dst + off + k := shl_word (\<lambda>k. m (src + k)) lim left off rem k)"
  unfolding shift_left_body_def shl_word_def Let_def
  by (simp only: fun_upd_upd if_distrib[where f = "\<lambda>v. m(_ := v)", symmetric] add.commute add.left_commute split: if_split)

lemma shl_word_cong:
  "s k = s' k \<Longrightarrow> s (k - 1) = s' (k - 1) \<Longrightarrow> shl_word s lim left off rem k = shl_word s' lim left off rem k"
  by (simp add: shl_word_def)

lemma shift_left_loop:
  assumes "src \<le> dst + off \<or> dst + off + lim \<le> src" "N \<le> lim"
  shows "fold (shift_left_body dst src lim left off rem) (rev [0..<N]) m i =
     (if dst + off \<le> i \<and> i < dst + off + N
      then shl_word (\<lambda>k. m (src + k)) lim left off rem (i - (dst + off)) else m i)"
  using assms(2)
proof (induction N arbitrary: m)
  case (Suc N)
  let ?m = "shift_left_body dst src lim left off rem N m"
  have same: "?m (src + k) = m (src + k)" if "k < N" for k
    using assms(1) that Suc.prems by (auto simp: shift_left_body_eq)
  have "shl_word (\<lambda>k. ?m (src + k)) lim left off rem k = shl_word (\<lambda>k. m (src + k)) lim left off rem k"
    if "k < N" for k
    using that by (intro shl_word_cong same) auto
  moreover have "fold (shift_left_body dst src lim left off rem) (rev [0..<Suc N]) m =
      fold (shift_left_body dst src lim left off rem) (rev [0..<N]) ?m" by simp
  ultimately show ?case
    using Suc.IH[of ?m] Suc.prems by (auto simp: shift_left_body_eq not_less less_Suc_eq)
qed auto

lemma shl_word_bit:
  assumes "j < 32" "rem < 32" "left \<noteq> 0 \<and> k + off + 1 = lim \<Longrightarrow> j < left"
    "left \<noteq> 0 \<and> k + 1 = lim \<Longrightarrow> j < left + rem"
  shows "bit (shl_word s lim left off rem k) j \<longleftrightarrow>
     (if rem \<le> j then bit (s k) (j - rem) else 0 < k \<and> bit (s (k - 1)) (32 + j - rem))"
  using assms unfolding shl_word_def Let_def push_bit_1_mask
  by (auto simp: bit_simps split: if_splits dest: bit_imp_le_length)

section \<open>Shift left\<close>

text \<open>The last word of the loop covers positions of the bitmap only for at most four bits.\<close>

lemma last_word_small: "i < n \<Longrightarrow> Suc (i div 32) = BITS_TO_LONGS n \<Longrightarrow> n \<le> 4"
  by (simp add: BITS_TO_LONGS_def DIV_ROUND_UP_def)

lemma shift_position_parts:
  fixes i j k d r :: nat
  assumes i: "i = 32 * (k + d) + j" and sh: "shift = 32 * d + r" and lt: "j < 32" "r < 32"
  shows "shift \<le> i \<and> bit ((s :: nat \<Rightarrow> u32) ((i - shift) div 32)) ((i - shift) mod 32) \<longleftrightarrow>
     (if r \<le> j then bit (s k) (j - r) else 0 < k \<and> bit (s (k - 1)) (32 + j - r))"
proof -
  consider "r \<le> j" | "\<not> r \<le> j" "k = 0" | "\<not> r \<le> j" "0 < k" by blast
  then show ?thesis
  proof cases
    case 1
    then obtain e where e: "j = r + e" using le_Suc_ex by blast
    then have "shift \<le> i" "i - shift = 32 * k + e" "e < 32" using i sh lt by simp_all
    then show ?thesis using e by simp
  next
    case 2
    then show ?thesis using i sh by simp
  next
    case 3
    then obtain k' where k: "k = Suc k'" using gr0_implies_Suc by blast
    obtain e where e: "32 + j = r + e" using lt le_Suc_ex[of r "32 + j"] by auto
    then have "shift \<le> i" "i - shift = 32 * k' + e" "e < 32" "32 + j - r = e"
      using i sh lt 3 k by simp_all
    then show ?thesis using 3 k by simp
  qed
qed

lemma shift_position:
  assumes "k = i div 32 - shift div 32" "shift div 32 \<le> i div 32"
  shows "shift \<le> i \<and> bit ((s :: nat \<Rightarrow> u32) ((i - shift) div 32)) ((i - shift) mod 32) \<longleftrightarrow>
     (if shift mod 32 \<le> i mod 32 then bit (s k) (i mod 32 - shift mod 32)
      else 0 < k \<and> bit (s (k - 1)) (32 + i mod 32 - shift mod 32))"
  using assms by (intro shift_position_parts[of i k "shift div 32"]) simp_all

lemma bitmap_shift_left_sets:
  assumes "src \<le> dst + shift div 32 \<or> dst + shift div 32 + BITS_TO_LONGS n \<le> src"
  shows "bits_of (uu_bitmap_shift_left m dst src shift n) dst n =
         {i. i < n \<and> shift \<le> i \<and> i - shift \<in> bits_of m src n}"
proof -
  let ?m = "uu_bitmap_shift_left m dst src shift n"
  let ?off = "shift div 32" and ?lim = "BITS_TO_LONGS n"
  have "bit (?m (dst + i div 32)) (i mod 32) \<longleftrightarrow>
        shift \<le> i \<and> bit (m (src + (i - shift) div 32)) ((i - shift) mod 32)" if i: "i < n" for i
  proof (cases "i div 32 < ?off")
    case True
    then have "\<not> shift \<le> i" using div_le_mono[of shift i 32] by linarith
    then show ?thesis
      using True by (auto simp: uu_bitmap_shift_left_def Let_def memset_words_def)
  next
    case False
    define k where "k = i div 32 - ?off"
    have k: "k < ?lim - ?off" using False BITS_TO_LONGS_word[OF i] by (simp add: k_def)
    have "?m (dst + i div 32) = shl_word (\<lambda>k. m (src + k)) ?lim (n mod 32) ?off (shift mod 32) k"
      using False k assms
      by (auto simp: uu_bitmap_shift_left_def Let_def memset_words_def shift_left_loop k_def)
    moreover have "n \<le> 4" if "k + ?off + 1 = ?lim" using last_word_small[OF i] that False by (simp add: k_def)
    moreover have "n \<le> 4" if "k + 1 = ?lim" using that k last_word_small[OF i] by (simp add: k_def)
    moreover have "i mod 32 < n mod 32" if "n \<le> 4" using that i by simp
    ultimately have "bit (?m (dst + i div 32)) (i mod 32) \<longleftrightarrow>
      (if shift mod 32 \<le> i mod 32 then bit (m (src + k)) (i mod 32 - shift mod 32)
       else 0 < k \<and> bit (m (src + (k - 1))) (32 + i mod 32 - shift mod 32))"
      by (simp only:) (rule shl_word_bit; auto)
    then show ?thesis
      using False shift_position[OF k_def, of "\<lambda>k. m (src + k)"] by (simp only: not_less)
  qed
  then show ?thesis by (auto simp: bits_of_def)
qed

section \<open>Shift right\<close>

definition shr_word :: "(nat \<Rightarrow> u32) \<Rightarrow> nat \<Rightarrow> nat \<Rightarrow> nat \<Rightarrow> nat \<Rightarrow> nat \<Rightarrow> u32" where
  "shr_word s lim left off rem k =
     (let upper = if rem = 0 \<or> lim \<le> off + k + 1 then 0
                  else if off + k + 1 + 1 = lim \<and> left \<noteq> 0 then s (off + k + 1) AND (push_bit left 1 - 1)
                  else s (off + k + 1);
          lower = s (off + k);
          lower = if left \<noteq> 0 \<and> off + k + 1 = lim then lower AND (push_bit left 1 - 1) else lower;
          v = push_bit (32 - rem) upper OR drop_bit rem lower
      in if left \<noteq> 0 \<and> k + 1 = lim then v AND (push_bit left 1 - 1) else v)"

lemma shift_right_body_eq:
  "shift_right_body dst src lim left off rem k m =
     m(dst + k := shr_word (\<lambda>k. m (src + k)) lim left off rem k)"
  unfolding shift_right_body_def shr_word_def Let_def
  by (simp only: fun_upd_upd if_distrib[where f = "\<lambda>v. m(_ := v)", symmetric] split: if_split)

lemma shr_word_cong:
  "s (off + k) = s' (off + k) \<Longrightarrow> (off + k + 1 < lim \<Longrightarrow> s (off + k + 1) = s' (off + k + 1))
   \<Longrightarrow> shr_word s lim left off rem k = shr_word s' lim left off rem k"
  by (auto simp: shr_word_def Let_def)

lemma shift_right_loop:
  assumes "dst \<le> src + off \<or> src + lim \<le> dst" "N \<le> lim - off"
  shows "for_loop 0 N (shift_right_body dst src lim left off rem) m i =
     (if dst \<le> i \<and> i < dst + N then shr_word (\<lambda>k. m (src + k)) lim left off rem (i - dst) else m i)"
  using assms(2)
proof (induction N arbitrary: i)
  case (Suc N)
  let ?m = "for_loop 0 N (shift_right_body dst src lim left off rem) m"
  have same: "?m (src + k) = m (src + k)" if "off + N \<le> k" "k < lim" for k
    using assms(1) that Suc by auto
  have "shr_word (\<lambda>k. ?m (src + k)) lim left off rem N = shr_word (\<lambda>k. m (src + k)) lim left off rem N"
    using Suc.prems by (intro shr_word_cong same) auto
  then show ?case
    using Suc by (auto simp: for_loop_Suc shift_right_body_eq less_Suc_eq)
qed auto

lemma shr_word_bit:
  assumes "j < 32" "rem < 32" "left \<noteq> 0 \<Longrightarrow> k + 1 = lim \<Longrightarrow> j < left"
    and last: "\<And>p. left \<noteq> 0 \<Longrightarrow> bit (s (lim - 1)) p \<Longrightarrow> p < left"
  shows "bit (shr_word s lim left off rem k) j \<longleftrightarrow>
     (if j + rem < 32 then bit (s (off + k)) (j + rem)
      else off + k + 1 < lim \<and> bit (s (off + k + 1)) (j + rem - 32))"
proof -
  have m: "s (lim - 1) AND mask left = s (lim - 1)" if "left \<noteq> 0"
    using that last by (intro bit_word_eqI) (auto simp: bit_simps)
  have u: "(if off + k + 1 + 1 = lim \<and> left \<noteq> 0 then s (off + k + 1) AND mask left else s (off + k + 1))
      = s (off + k + 1)" using m by auto
  have l: "(if left \<noteq> 0 \<and> off + k + 1 = lim then s (off + k) AND mask left else s (off + k)) = s (off + k)"
    using m by auto
  have "bit (push_bit (32 - rem) (if rem = 0 \<or> lim \<le> off + k + 1 then 0 else s (off + k + 1))
          OR drop_bit rem (s (off + k))) j \<longleftrightarrow>
     (if j + rem < 32 then bit (s (off + k)) (j + rem)
      else off + k + 1 < lim \<and> bit (s (off + k + 1)) (j + rem - 32))"
    using assms(1,2) by (auto simp: bit_simps add.commute dest: bit_imp_le_length)
  then show ?thesis
    using assms(1,3) unfolding shr_word_def Let_def push_bit_1_mask u l
    by (auto simp: bit_simps)
qed

lemma bitmap_shift_right_sets:
  assumes "dst \<le> src + shift div 32 \<or> src + BITS_TO_LONGS n \<le> dst"
    and off: "shift div 32 \<le> BITS_TO_LONGS n"
    and zero: "bits_of m src (32 * BITS_TO_LONGS n) \<subseteq> {..<n}"
  shows "bits_of (uu_bitmap_shift_right m dst src shift n) dst n =
         {i. i < n \<and> i + shift \<in> bits_of m src n}"
proof -
  let ?m = "uu_bitmap_shift_right m dst src shift n"
  let ?off = "shift div 32" and ?lim = "BITS_TO_LONGS n"
  let ?s = "\<lambda>k. m (src + k)"
  have in_n: "32 * k + p < n" if "k < ?lim" "bit (?s k) p" for k p
  proof -
    have "p < 32" using that(2) bit_imp_le_length by fastforce
    then have "32 * k + p \<in> bits_of m src (32 * ?lim)" using that by (simp add: window_iff)
    then show ?thesis using zero by auto
  qed
  have last: "p < n mod 32" if "n mod 32 \<noteq> 0" "bit (?s (?lim - 1)) p" for p
  proof -
    have "0 < n" using that(1) by (auto intro: gr0I)
    then have lim: "?lim - 1 < ?lim" by simp
    have "p < 32" using that(2) bit_imp_le_length by fastforce
    moreover note in_n[OF lim that(2)]
    ultimately show ?thesis using last_word_small[of "32 * (?lim - 1) + p" n] \<open>0 < n\<close> by simp
  qed
  have mem_iff: "32 * w + p \<in> bits_of m src n \<longleftrightarrow> w < ?lim \<and> bit (?s w) p" if "p < 32" for w p
    using that in_n BITS_TO_LONGS_word[of "32 * w + p" n] by (auto simp: window_iff)
  have "bit (?m (dst + i div 32)) (i mod 32) \<longleftrightarrow> i + shift \<in> bits_of m src n" if i: "i < n" for i
  proof (cases "?lim - ?off \<le> i div 32")
    case True
    then have "?lim \<le> (i + shift) div 32" using off by linarith
    then have "\<not> i + shift < n" using BITS_TO_LONGS_word[of "i + shift" n] by linarith
    moreover have "?m (dst + i div 32) = 0"
      using True off BITS_TO_LONGS_word[OF i]
      by (auto simp: uu_bitmap_shift_right_def Let_def memset_words_def)
    ultimately show ?thesis by (simp add: bits_of_def)
  next
    case False
    define k where "k = i div 32"
    have "?m (dst + k) = shr_word ?s ?lim (n mod 32) ?off (shift mod 32) k"
      using False assms(1) off
      by (auto simp: uu_bitmap_shift_right_def Let_def memset_words_def shift_right_loop k_def)
    moreover have "i mod 32 < n mod 32" if "k + 1 = ?lim"
      using last_word_small[OF i] that i by (simp add: k_def)
    ultimately have "bit (?m (dst + k)) (i mod 32) \<longleftrightarrow>
      (if i mod 32 + shift mod 32 < 32 then bit (?s (?off + k)) (i mod 32 + shift mod 32)
       else ?off + k + 1 < ?lim \<and> bit (?s (?off + k + 1)) (i mod 32 + shift mod 32 - 32))"
      using last by (simp only:) (rule shr_word_bit; simp)
    also have "\<dots> \<longleftrightarrow> i + shift \<in> bits_of m src n"
    proof (cases "i mod 32 + shift mod 32 < 32")
      case True
      have "i + shift = 32 * (?off + k) + (i mod 32 + shift mod 32)" by (simp add: k_def)
      moreover have "?off + k < ?lim" using False by (simp add: k_def)
      ultimately show ?thesis using True mem_iff[OF True] by (simp only: if_True) blast
    next
      case carry: False
      have lt: "i mod 32 + shift mod 32 - 32 < 32"
        using mod_less_divisor[of 32 i] mod_less_divisor[of 32 shift] by linarith
      have "i + shift = 32 * (?off + k + 1) + (i mod 32 + shift mod 32 - 32)"
        using carry by (simp add: k_def)
      then show ?thesis using carry mem_iff[OF lt] by (simp only: if_False)
    qed
    finally show ?thesis by (simp add: k_def)
  qed
  then show ?thesis by (auto simp: bits_of_def)
qed

text \<open>
  The bits above the bitmap are fed in: with one stray bit just above a bitmap of five
  zero bits, shifting right by one sets the last bit of the result.
\<close>

lemma bits_of_word:
  assumes "n \<le> 32"
  shows "bits_of m p n = {i. i < n \<and> bit (m p) i}"
  using assms by (auto simp: bits_of_def)

lemma bit_power_word: "k < 32 \<Longrightarrow> bit (2 ^ k :: u32) j \<longleftrightarrow> j = k"
  by (auto simp: bit_exp_iff)

lemma bitmap_shift_right_stray:
  defines "m \<equiv> \<lambda>i. if i = 0 then 2 ^ 5 else (0 :: u32)"
  shows "bits_of m 0 5 = {}" and "bits_of (uu_bitmap_shift_right m 2 0 1 5) 2 5 = {4}"
proof -
  show "bits_of m 0 5 = {}"
  proof -
    have "m 0 = 2 ^ 5" by (simp add: m_def)
    then have "bit (m 0) i \<longleftrightarrow> i = 5" for i by (simp only: bit_power_word)
    then show ?thesis by (simp add: bits_of_word)
  qed
  have lim: "BITS_TO_LONGS 5 = 2" by (simp add: BITS_TO_LONGS_def DIV_ROUND_UP_def)
  have "uu_bitmap_shift_right m 2 0 1 5 2 = shr_word (\<lambda>k. m (0 + k)) 2 5 0 1 0"
    by (simp add: uu_bitmap_shift_right_def Let_def lim shift_right_loop)
  also have "\<dots> = drop_bit 1 (2 ^ 5)"
    by (simp add: shr_word_def m_def)
  finally have "bit (uu_bitmap_shift_right m 2 0 1 5 2) i \<longleftrightarrow> i = 4" for i
    by (simp only: bit_drop_bit_eq comp_def bit_power_word) auto
  then show "bits_of (uu_bitmap_shift_right m 2 0 1 5) 2 5 = {4}" by (auto simp: bits_of_word)
qed

end
