(* ===== verification/Handlers.thy ===== *)
theory Handlers
  imports AIM_Prelude
begin

text \<open>
  The queues of functions that run after the MMU is on (\<^verbatim>\<open>kern/mm/mmu.c\<close>) and after the
  jump to high addresses (\<^verbatim>\<open>kern/mm/jump.c\<close>). A handler is a transformer of the state
  that it runs on.
\<close>

section \<open>After the MMU is on\<close>

definition MMU_HANDLER_QUEUE_LENGTH :: int where "MMU_HANDLER_QUEUE_LENGTH = 10"

record 's mmu_handlers =
  uu_mmu_handler_queue_size :: int
  uu_mmu_handler_queue :: "nat \<Rightarrow> 's \<Rightarrow> 's"

definition mmu_handlers_clear :: "'s mmu_handlers \<Rightarrow> 's mmu_handlers" where
  "mmu_handlers_clear st = st\<lparr>uu_mmu_handler_queue_size := 0\<rparr>"

definition mmu_handlers_add :: "('s \<Rightarrow> 's) \<Rightarrow> 's mmu_handlers \<Rightarrow> ('s mmu_handlers \<times> int) outcome" where
  "mmu_handlers_add entry st =
     (if uu_mmu_handler_queue_size st > MMU_HANDLER_QUEUE_LENGTH then Panic
      else if uu_mmu_handler_queue_size st = MMU_HANDLER_QUEUE_LENGTH then Done (st, EOF)
      else Done (st\<lparr>uu_mmu_handler_queue := (uu_mmu_handler_queue st)(nat (uu_mmu_handler_queue_size st) := entry),
                    uu_mmu_handler_queue_size := uu_mmu_handler_queue_size st + 1\<rparr>, 0))"

definition mmu_handlers_apply :: "'s mmu_handlers \<Rightarrow> 's \<Rightarrow> 's" where
  "mmu_handlers_apply st = for_loop 0 (nat (uu_mmu_handler_queue_size st)) (\<lambda>i s. uu_mmu_handler_queue st i s)"

section \<open>After the jump\<close>

definition JUMP_HANDLER_QUEUE_LENGTH :: int where "JUMP_HANDLER_QUEUE_LENGTH = 10"

record 's jump_handlers =
  uu_jump_handler_queue_size :: int
  uu_jump_handler_queue :: "nat \<Rightarrow> 's \<Rightarrow> 's"

definition jump_handlers_clear :: "'s jump_handlers \<Rightarrow> 's jump_handlers" where
  "jump_handlers_clear st = st\<lparr>uu_jump_handler_queue_size := 0\<rparr>"

definition jump_handlers_add :: "('s \<Rightarrow> 's) \<Rightarrow> 's jump_handlers \<Rightarrow> ('s jump_handlers \<times> int) outcome" where
  "jump_handlers_add entry st =
     (if uu_jump_handler_queue_size st > JUMP_HANDLER_QUEUE_LENGTH then Panic
      else if uu_jump_handler_queue_size st = JUMP_HANDLER_QUEUE_LENGTH then Done (st, EOF)
      else Done (st\<lparr>uu_jump_handler_queue := (uu_jump_handler_queue st)(nat (uu_jump_handler_queue_size st) := entry),
                    uu_jump_handler_queue_size := uu_jump_handler_queue_size st + 1\<rparr>, 0))"

text \<open>The body of the loop is commented out.\<close>

definition jump_handlers_apply :: "'s jump_handlers \<Rightarrow> 's \<Rightarrow> 's" where
  "jump_handlers_apply st = for_loop 0 (nat (uu_jump_handler_queue_size st)) (\<lambda>i s. s)"

section \<open>The contract of a bounded queue\<close>

text \<open>
  A queue of at most \<open>cap\<close> entries: it is a sequence, cleared to the empty one; an entry is
  appended or, when the queue is full, refused with \<^verbatim>\<open>EOF\<close>.
\<close>

locale bounded_queue =
  fixes cap :: nat
    and entries :: "'q \<Rightarrow> 'e list option"
    and clear :: "'q \<Rightarrow> 'q"
    and add :: "'e \<Rightarrow> 'q \<Rightarrow> ('q \<times> int) outcome"
  assumes entries_clear: "entries (clear q) = Some []"
    and entries_bound: "entries q = Some xs \<Longrightarrow> length xs \<le> cap"
    and add_room: "entries q = Some xs \<Longrightarrow> length xs < cap \<Longrightarrow>
      \<exists>q'. add e q = Done (q', 0) \<and> entries q' = Some (xs @ [e])"
    and add_full: "entries q = Some xs \<Longrightarrow> length xs = cap \<Longrightarrow> add e q = Done (q, EOF)"
begin

primrec add_all :: "'e list \<Rightarrow> 'q \<Rightarrow> ('q \<times> int list) outcome" where
  "add_all [] q = Done (q, [])"
| "add_all (e # es) q = bind_outcome (add e q) (\<lambda>(q, r).
     bind_outcome (add_all es q) (\<lambda>(q, rs). Done (q, r # rs)))"

text \<open>
  From any sequence of additions the first ones that fit stay, in order; each of the others is
  refused. No addition panics.
\<close>

lemma add_all_keeps:
  "entries q = Some xs \<Longrightarrow> \<exists>q'. add_all es q =
     Done (q', replicate (min (length es) (cap - length xs)) 0 @ replicate (length es - (cap - length xs)) EOF) \<and>
     entries q' = Some (xs @ take (cap - length xs) es)"
proof (induction es arbitrary: q xs)
  case (Cons e es)
  show ?case
  proof (cases "length xs < cap")
    case True
    then obtain q1 where q1: "add e q = Done (q1, 0)" "entries q1 = Some (xs @ [e])"
      using add_room[OF Cons.prems] by blast
    obtain k where k: "cap - length xs = Suc k" using True by (metis Suc_diff_Suc)
    then have "cap - length (xs @ [e]) = k" by simp
    then show ?thesis using Cons.IH[OF q1(2)] q1(1) k by auto
  next
    case False
    then have full: "length xs = cap" using entries_bound[OF Cons.prems] by simp
    then show ?thesis using Cons.IH[OF Cons.prems] add_full[OF Cons.prems full] by auto
  qed
qed simp

lemma add_all_from_clear:
  "\<exists>q'. add_all es (clear q) =
     Done (q', replicate (min (length es) cap) 0 @ replicate (length es - cap) EOF) \<and>
     entries q' = Some (take cap es)"
  using add_all_keeps[OF entries_clear, of es] by simp

end

section \<open>The two queues\<close>

definition mmu_queue :: "'s mmu_handlers \<Rightarrow> ('s \<Rightarrow> 's) list option" where
  "mmu_queue st = (let n = uu_mmu_handler_queue_size st
     in if 0 \<le> n \<and> n \<le> MMU_HANDLER_QUEUE_LENGTH then Some (map (uu_mmu_handler_queue st) [0..<nat n]) else None)"

definition jump_queue :: "'s jump_handlers \<Rightarrow> ('s \<Rightarrow> 's) list option" where
  "jump_queue st = (let n = uu_jump_handler_queue_size st
     in if 0 \<le> n \<and> n \<le> JUMP_HANDLER_QUEUE_LENGTH then Some (map (uu_jump_handler_queue st) [0..<nat n]) else None)"

lemma map_upt_snoc: "0 \<le> n \<Longrightarrow> map (f(nat n := e)) [0..<nat (n + 1)] = map f [0..<nat n] @ [e]"
  by (simp add: nat_add_distrib)

interpretation mq: bounded_queue 10 mmu_queue mmu_handlers_clear mmu_handlers_add
  by unfold_locales
    (auto simp: mmu_queue_def mmu_handlers_clear_def mmu_handlers_add_def MMU_HANDLER_QUEUE_LENGTH_def Let_def
      map_upt_snoc split: if_splits)

interpretation jq: bounded_queue 10 jump_queue jump_handlers_clear jump_handlers_add
  by unfold_locales
    (auto simp: jump_queue_def jump_handlers_clear_def jump_handlers_add_def JUMP_HANDLER_QUEUE_LENGTH_def Let_def
      map_upt_snoc split: if_splits)

lemma mmu_handlers_apply_queue:
  assumes "mmu_queue st = Some hs"
  shows "mmu_handlers_apply st s = fold (\<lambda>h s. h s) hs s"
  using assms by (auto simp: mmu_queue_def mmu_handlers_apply_def for_loop_def Let_def fold_map comp_def split: if_splits)

lemma jump_handlers_apply_id: "jump_handlers_apply st s = s"
proof -
  have "fold (\<lambda>i s. s) xs s = s" for xs :: "nat list" by (induction xs) simp_all
  then show ?thesis by (simp add: jump_handlers_apply_def for_loop_def)
qed

end
