(* ===== verification/MmuH.thy ===== *)
theory MmuH
  imports Util
begin

text \<open>
  The i386 memory management unit as the headers describe it
  (\<^verbatim>\<open>include/arch/i386/arch-mmu.h\<close>, \<^verbatim>\<open>include/aim/mmu.h\<close>, \<^verbatim>\<open>include/aim/memlayout.h\<close>):
  conversion of addresses, the parts of a virtual address, page table entries, segment
  and gate descriptors, the task state segment. \<^verbatim>\<open>KERN_BASE\<close> has its configured default.
\<close>

section \<open>Address conversion\<close>

definition KERN_BASE :: u32 where "KERN_BASE = 0x80000000"
definition DEVSPACE :: u32 where "DEVSPACE = 0xFE000000"

definition uu_premap_addr :: "u32 \<Rightarrow> u32" where
  "uu_premap_addr kva = kva - KERN_BASE"

definition uu_postmap_addr :: "u32 \<Rightarrow> u32" where
  "uu_postmap_addr pa = pa + KERN_BASE"

definition kva2pa :: "u32 \<Rightarrow> u32" where
  "kva2pa kva = kva - KERN_BASE"

definition pa2kva :: "u64 \<Rightarrow> u32" where
  "pa2kva pa = ucast pa + KERN_BASE"

definition V2P :: "u32 \<Rightarrow> u32" where
  "V2P a = a - KERN_BASE"

definition P2V :: "u32 \<Rightarrow> u32" where
  "P2V a = a + KERN_BASE"

definition premap_addr :: "u32 \<Rightarrow> u32" where
  "premap_addr a = (if KERN_BASE \<le> a then uu_premap_addr a else a)"

definition postmap_addr :: "u32 \<Rightarrow> u32" where
  "postmap_addr a = (if KERN_BASE \<le> a then a else uu_postmap_addr a)"

section \<open>Virtual addresses\<close>

definition NPDENTRIES :: nat where "NPDENTRIES = 1024"
definition NPTENTRIES :: nat where "NPTENTRIES = 1024"
definition PGSIZE :: u32 where "PGSIZE = 4096"
definition PTXSHIFT :: nat where "PTXSHIFT = 12"
definition PDXSHIFT :: nat where "PDXSHIFT = 22"

definition PDX :: "u32 \<Rightarrow> u32" where
  "PDX va = drop_bit PDXSHIFT va AND 0x3FF"

definition PTX :: "u32 \<Rightarrow> u32" where
  "PTX va = drop_bit PTXSHIFT va AND 0x3FF"

definition PGADDR :: "u32 \<Rightarrow> u32 \<Rightarrow> u32 \<Rightarrow> u32" where
  "PGADDR d t off = push_bit PDXSHIFT d OR push_bit PTXSHIFT t OR off"

definition PGROUNDUP :: "u32 \<Rightarrow> u32" where
  "PGROUNDUP sz = (sz + PGSIZE - 1) AND NOT (PGSIZE - 1)"

definition PGROUNDDOWN :: "u32 \<Rightarrow> u32" where
  "PGROUNDDOWN a = a AND NOT (PGSIZE - 1)"

section \<open>Page table entries\<close>

definition PTE_P :: u32 where "PTE_P = 0x001"
definition PTE_W :: u32 where "PTE_W = 0x002"
definition PTE_U :: u32 where "PTE_U = 0x004"
definition PTE_PS :: u32 where "PTE_PS = 0x080"

lemmas pte_flag_defs = PTE_P_def PTE_W_def PTE_U_def PTE_PS_def

definition PTE_ADDR :: "u32 \<Rightarrow> u32" where
  "PTE_ADDR pte = pte AND NOT 0xFFF"

definition PTE_FLAGS :: "u32 \<Rightarrow> u32" where
  "PTE_FLAGS pte = pte AND 0xFFF"

section \<open>Segment descriptors\<close>

definition STA_X :: u32 where "STA_X = 0x8"
definition STA_W :: u32 where "STA_W = 0x2"
definition STA_R :: u32 where "STA_R = 0x2"
definition STS_IG32 :: u32 where "STS_IG32 = 0xE"
definition STS_TG32 :: u32 where "STS_TG32 = 0xF"
definition DPL_USER :: u32 where "DPL_USER = 0x3"

record segdesc =
  lim_15_0 :: u16
  base_15_0 :: u16
  base_23_16 :: u8
  seg_type :: "4 word"
  seg_s :: "1 word"
  seg_dpl :: "2 word"
  seg_p :: "1 word"
  lim_19_16 :: "4 word"
  seg_avl :: "1 word"
  seg_rsv1 :: "1 word"
  seg_db :: "1 word"
  seg_g :: "1 word"
  base_31_24 :: u8

definition SEG :: "u32 \<Rightarrow> u32 \<Rightarrow> u32 \<Rightarrow> u32 \<Rightarrow> segdesc" where
  "SEG type base lim dpl =
     \<lparr>lim_15_0 = ucast (drop_bit 12 lim AND 0xffff), base_15_0 = ucast (base AND 0xffff),
      base_23_16 = ucast (drop_bit 16 base AND 0xff), seg_type = ucast type, seg_s = 1, seg_dpl = ucast dpl,
      seg_p = 1, lim_19_16 = ucast (drop_bit 28 lim), seg_avl = 0, seg_rsv1 = 0, seg_db = 1, seg_g = 1,
      base_31_24 = ucast (drop_bit 24 base)\<rparr>"

definition SEG16 :: "u32 \<Rightarrow> u32 \<Rightarrow> u32 \<Rightarrow> u32 \<Rightarrow> segdesc" where
  "SEG16 type base lim dpl =
     \<lparr>lim_15_0 = ucast (lim AND 0xffff), base_15_0 = ucast (base AND 0xffff),
      base_23_16 = ucast (drop_bit 16 base AND 0xff), seg_type = ucast type, seg_s = 1, seg_dpl = ucast dpl,
      seg_p = 1, lim_19_16 = ucast (drop_bit 16 lim), seg_avl = 0, seg_rsv1 = 0, seg_db = 1, seg_g = 0,
      base_31_24 = ucast (drop_bit 24 base)\<rparr>"

section \<open>Gate descriptors\<close>

record gatedesc =
  off_15_0 :: u16
  gate_cs :: u16
  gate_args :: "5 word"
  gate_rsv1 :: "3 word"
  gate_type :: "4 word"
  gate_s :: "1 word"
  gate_dpl :: "2 word"
  gate_p :: "1 word"
  off_31_16 :: u16

definition SETGATE :: "gatedesc \<Rightarrow> bool \<Rightarrow> u32 \<Rightarrow> u32 \<Rightarrow> u32 \<Rightarrow> gatedesc" where
  "SETGATE gate istrap sel off d =
     gate\<lparr>off_15_0 := ucast (off AND 0xffff), gate_cs := ucast sel, gate_args := 0, gate_rsv1 := 0,
       gate_type := ucast (if istrap then STS_TG32 else STS_IG32), gate_s := 0, gate_dpl := ucast d,
       gate_p := 1, off_31_16 := ucast (drop_bit 16 off)\<rparr>"

section \<open>Task state\<close>

record taskstate =
  ts_link :: u32
  esp0 :: u32
  ss0 :: u16
  padding1 :: u16
  esp1 :: u32
  ss1 :: u16
  padding2 :: u16
  esp2 :: u32
  ss2 :: u16
  padding3 :: u16
  ts_cr3 :: u32
  ts_eip :: u32
  ts_eflags :: u32
  ts_eax :: u32
  ts_ecx :: u32
  ts_edx :: u32
  ts_ebx :: u32
  ts_esp :: u32
  ts_ebp :: u32
  ts_esi :: u32
  ts_edi :: u32
  ts_es :: u16
  padding4 :: u16
  ts_cs :: u16
  padding5 :: u16
  ts_ss :: u16
  padding6 :: u16
  ts_ds :: u16
  padding7 :: u16
  ts_fs :: u16
  padding8 :: u16
  ts_gs :: u16
  padding9 :: u16
  ts_ldt :: u16
  padding10 :: u16
  ts_t :: u16
  ts_iomb :: u16

section \<open>How the processor reads the descriptors\<close>

definition seg_base :: "segdesc \<Rightarrow> u32" where
  "seg_base d = ucast (base_15_0 d) OR push_bit 16 (ucast (base_23_16 d)) OR push_bit 24 (ucast (base_31_24 d))"

definition seg_limit :: "segdesc \<Rightarrow> u32" where
  "seg_limit d = (let lim = ucast (lim_15_0 d) OR push_bit 16 (ucast (lim_19_16 d))
     in if seg_g d = 1 then push_bit 12 lim OR 0xFFF else lim)"

definition gate_offset :: "gatedesc \<Rightarrow> u32" where
  "gate_offset g = ucast (off_15_0 g) OR push_bit 16 (ucast (off_31_16 g))"

section \<open>Lemmas\<close>

text \<open>The masks of the headers, as masks.\<close>

lemma mask_constants:
  "(0x3FF :: u32) = mask 10" "(0xFFF :: u32) = mask 12" "(0xffff :: u32) = mask 16" "(0xff :: u32) = mask 8"
  by (simp_all add: mask_eq_decr_exp)

lemma page_mask: "PGSIZE - 1 = mask 12"
  by (simp add: PGSIZE_def mask_eq_decr_exp)

lemma PGROUNDDOWN_eq: "PGROUNDDOWN a = a AND NOT (mask 12)"
  by (simp only: PGROUNDDOWN_def page_mask)

lemma unat_PGROUNDDOWN: "unat (PGROUNDDOWN a) = unat a div 4096 * 4096"
  by (simp only: PGROUNDDOWN_eq unat_and_not_mask) (simp add: minus_mod_eq_div_mult)

lemma PGROUNDDOWN_idem [simp]: "PGROUNDDOWN (PGROUNDDOWN a) = PGROUNDDOWN a"
  by (simp add: PGROUNDDOWN_def and.assoc)

lemma PGROUNDUP_eq: "PGROUNDUP a = PGROUNDDOWN (a + PGSIZE - 1)"
  by (simp add: PGROUNDUP_def PGROUNDDOWN_def)

lemma unat_PGROUNDUP:
  assumes "unat a + 4095 < 2 ^ 32"
  shows "unat (PGROUNDUP a) = (unat a + 4095) div 4096 * 4096"
proof -
  have "a + PGSIZE - 1 = a + 4095" by (simp add: PGSIZE_def)
  then have "unat (PGROUNDUP a) = unat (a + 4095) div 4096 * 4096" by (simp only: PGROUNDUP_eq unat_PGROUNDDOWN)
  moreover have "unat (a + 4095) = unat a + 4095" using assms by (subst unat_plus_small) simp_all
  ultimately show ?thesis by simp
qed

lemma PDX_bit: "bit (PDX va) i \<longleftrightarrow> i < 10 \<and> bit va (i + 22)"
  unfolding PDX_def mask_constants PDXSHIFT_def by (auto simp: bit_simps add.commute)

lemma PTX_bit: "bit (PTX va) i \<longleftrightarrow> i < 10 \<and> bit va (i + 12)"
  unfolding PTX_def mask_constants PTXSHIFT_def by (auto simp: bit_simps add.commute)

lemma PGADDR_PDX_PTX: "PGADDR (PDX va) (PTX va) (va AND 0xFFF) = va"
proof (rule bit_word_eqI)
  fix i assume "i < LENGTH(32)"
  then show "bit (PGADDR (PDX va) (PTX va) (va AND 0xFFF)) i = bit va i"
    unfolding PGADDR_def mask_constants
    by (cases "22 \<le> i") (auto simp: bit_simps PDX_bit PTX_bit PDXSHIFT_def PTXSHIFT_def)
qed

lemma PDX_PTX_PGADDR:
  assumes "d < 1024" "t < 1024" "off < 4096"
  shows "PDX (PGADDR d t off) = d" "PTX (PGADDR d t off) = t" "PGADDR d t off AND 0xFFF = off"
proof -
  have small: "bit w i \<Longrightarrow> i < n" if "w < 2 ^ n" "n < 32" for w :: u32 and i n
    using that unat_less_bit[of w n i] unat_two_power[of n, where 'a = 32] by (simp add: word_less_nat_alt)
  have d: "bit d i \<Longrightarrow> i < 10" and t: "bit t i \<Longrightarrow> i < 10" and off: "bit off i \<Longrightarrow> i < 12" for i
    using small[of d 10] small[of t 10] small[of off 12] assms by auto
  show "PDX (PGADDR d t off) = d"
    by (rule bit_word_eqI) (auto simp: PDX_bit PGADDR_def bit_simps PDXSHIFT_def PTXSHIFT_def dest: d t off)
  show "PTX (PGADDR d t off) = t"
    by (rule bit_word_eqI) (auto simp: PTX_bit PGADDR_def bit_simps PDXSHIFT_def PTXSHIFT_def dest: d t off)
  show "PGADDR d t off AND 0xFFF = off"
    unfolding mask_constants
    by (rule bit_word_eqI) (auto simp: PGADDR_def bit_simps PDXSHIFT_def PTXSHIFT_def dest: d t off)
qed

lemma PTE_ADDR_FLAGS: "PTE_ADDR pte OR PTE_FLAGS pte = pte" "PTE_ADDR pte AND PTE_FLAGS pte = 0"
  unfolding PTE_ADDR_def PTE_FLAGS_def by (rule bit_word_eqI, auto simp: bit_simps)+

lemma seg_base_SEG [simp]: "seg_base (SEG type base lim dpl) = base"
proof (rule bit_word_eqI)
  fix n assume "n < LENGTH(32)"
  then show "bit (seg_base (SEG type base lim dpl)) n = bit base n"
    unfolding SEG_def seg_base_def mask_constants by (cases "24 \<le> n") (auto simp: bit_simps)
qed

lemma seg_limit_SEG: "seg_limit (SEG type base lim dpl) = lim OR 0xFFF"
proof (rule bit_word_eqI)
  fix n assume "n < LENGTH(32)"
  then show "bit (seg_limit (SEG type base lim dpl)) n = bit (lim OR 0xFFF) n"
    unfolding SEG_def seg_limit_def mask_constants Let_def by (cases "28 \<le> n") (auto simp: bit_simps)
qed

lemma gate_offset_SETGATE [simp]: "gate_offset (SETGATE gate istrap sel off d) = off"
  unfolding SETGATE_def gate_offset_def mask_constants
  by (rule bit_word_eqI) (auto simp: bit_simps)

lemma kva2pa_pa2kva: "kva2pa (pa2kva pa) = ucast pa"
  by (simp add: kva2pa_def pa2kva_def)

lemma V2P_P2V [simp]: "V2P (P2V a) = a" "P2V (V2P a) = a"
  by (simp_all add: V2P_def P2V_def)

lemma premap_postmap: "premap_addr (postmap_addr a) = premap_addr a" "postmap_addr (premap_addr a) = postmap_addr a"
proof -
  have lt: "\<not> KERN_BASE \<le> a - KERN_BASE" if "KERN_BASE \<le> a" for a
    using that unsigned_less[where 'a = nat, of a] by (auto simp: word_le_nat_alt KERN_BASE_def unat_minus_le)
  have ge: "KERN_BASE \<le> a + KERN_BASE" if "\<not> KERN_BASE \<le> a" for a
    using that by (simp add: word_le_nat_alt KERN_BASE_def unat_plus_small)
  show "premap_addr (postmap_addr a) = premap_addr a"
    using ge[of a] by (auto simp: premap_addr_def postmap_addr_def uu_premap_addr_def uu_postmap_addr_def)
  show "postmap_addr (premap_addr a) = postmap_addr a"
    using lt[of a] by (auto simp: premap_addr_def postmap_addr_def uu_premap_addr_def uu_postmap_addr_def)
qed

end
