(* ===== verification/EarlyKmmap.thy ===== *)
theory EarlyKmmap
  imports MmuH
begin

text \<open>
  The queue of early mappings of \<^verbatim>\<open>kern/mm/kmmap/early_kmmap.c\<close>, and how they are entered in
  the boot page index (\<^verbatim>\<open>page_index_init\<close> of \<^verbatim>\<open>kern/mm/mmu.c\<close> and \<^verbatim>\<open>page_index_early_map\<close> of
  \<^verbatim>\<open>kern/arch/i386/arch_mmu.c\<close>).
\<close>

section \<open>The queue\<close>

definition KMMAP_BASE :: u32 where "KMMAP_BASE = 0xf0000000"
definition RESERVED_BASE :: u32 where "RESERVED_BASE = 0xfffff000"

definition KERN_START :: u32 where "KERN_START = 0"

datatype mapping_type = EARLY_MAPPING_MEMORY | EARLY_MAPPING_KMMAP | EARLY_MAPPING_TEMP | EARLY_MAPPING_OTHER

record early_mapping =
  em_paddr :: u64
  em_vaddr :: u32
  em_size :: u32
  em_type :: mapping_type

definition EARLY_MAPPING_QUEUE_LENGTH :: nat where "EARLY_MAPPING_QUEUE_LENGTH = 10"

record early_kmmap =
  queue :: "nat \<Rightarrow> early_mapping"
  queue_size :: nat
  mem_top :: u32
  kmmap_top :: u32

definition early_mapping_clear :: "early_kmmap \<Rightarrow> early_kmmap" where
  "early_mapping_clear st = st\<lparr>queue_size := 0, mem_top := KERN_BASE, kmmap_top := KMMAP_BASE\<rparr>"

definition early_mapping_valid :: "early_mapping \<Rightarrow> bool" where
  "early_mapping_valid entry = True"

definition early_mapping_add :: "early_mapping \<Rightarrow> early_kmmap \<Rightarrow> (early_kmmap \<times> int) outcome" where
  "early_mapping_add entry st =
     (if \<not> queue_size st \<le> EARLY_MAPPING_QUEUE_LENGTH then Panic
      else if queue_size st = EARLY_MAPPING_QUEUE_LENGTH then Done (st, - ENOMEM)
      else if \<not> early_mapping_valid entry then Done (st, - EINVAL)
      else if list_ex (\<lambda>i. OVERLAP (em_vaddr entry) (em_size entry) (em_vaddr (queue st i)) (em_size (queue st i)))
                [0..<queue_size st]
      then Done (st, - EINVAL)
      else Done (st\<lparr>queue := (queue st)(queue_size st := entry), queue_size := queue_size st + 1\<rparr>, 0))"

definition early_mapping_add_memory :: "u64 \<Rightarrow> u32 \<Rightarrow> early_kmmap \<Rightarrow> (early_kmmap \<times> u32) outcome" where
  "early_mapping_add_memory base sz st =
     (if mem_top st \<ge> KMMAP_BASE then Done (st, 0)
      else let sz = (if sz > KMMAP_BASE - mem_top st then KMMAP_BASE - mem_top st else sz);
               entry = \<lparr>em_paddr = base, em_vaddr = mem_top st, em_size = sz, em_type = EARLY_MAPPING_MEMORY\<rparr>
           in bind_outcome (early_mapping_add entry st) (\<lambda>(st, r).
                if r < 0 then Done (st, 0) else Done (st\<lparr>mem_top := mem_top st + sz\<rparr>, sz)))"

text \<open>\<open>0\<close> is the result \<^verbatim>\<open>NULL\<close>.\<close>

definition early_mapping_add_kmmap :: "u64 \<Rightarrow> u32 \<Rightarrow> early_kmmap \<Rightarrow> (early_kmmap \<times> u32) outcome" where
  "early_mapping_add_kmmap base sz st =
     (if kmmap_top st \<ge> RESERVED_BASE then Done (st, 0)
      else if sz > RESERVED_BASE - kmmap_top st then Done (st, 0)
      else let entry = \<lparr>em_paddr = base, em_vaddr = kmmap_top st, em_size = sz, em_type = EARLY_MAPPING_KMMAP\<rparr>
           in bind_outcome (early_mapping_add entry st) (\<lambda>(st, r).
                if r < 0 then Done (st, 0) else Done (st\<lparr>kmmap_top := kmmap_top st + sz\<rparr>, em_vaddr entry)))"

text \<open>A pointer into the queue is the index of its entry.\<close>

definition early_mapping_next :: "early_kmmap \<Rightarrow> int option \<Rightarrow> int option" where
  "early_mapping_next st base =
     (let tmp = (case base of None \<Rightarrow> 0 | Some b \<Rightarrow> b + 1)
      in if tmp < 0 \<or> tmp \<ge> int (queue_size st) then None else Some tmp)"

section \<open>The boot page index\<close>

type_synonym pgindex = "nat \<Rightarrow> u32"

text \<open>The loop of \<^verbatim>\<open>page_index_early_map\<close>; it may wrap around the address space and not end.\<close>

partial_function (option) early_map_loop :: "pgindex \<Rightarrow> u32 \<Rightarrow> u32 \<Rightarrow> u64 \<Rightarrow> (pgindex \<times> u32) option" where
  "early_map_loop idx a lst pa =
     (if a < lst
      then early_map_loop
             (idx(unat (drop_bit PDXSHIFT a) := ucast (pa OR ucast (PTE_P OR PTE_W OR PTE_PS))))
             (a + push_bit 22 1) lst (pa + push_bit 22 1)
      else Some (idx, a))"

definition page_index_early_map :: "pgindex \<Rightarrow> u64 \<Rightarrow> u32 \<Rightarrow> u32 \<Rightarrow> (pgindex \<times> int) option" where
  "page_index_early_map idx pa vaddr sz =
     (let a = PGROUNDDOWN vaddr;
          lst = PGROUNDDOWN (vaddr + sz - 1)
      in map_option (\<lambda>(idx, a). (idx, sint (drop_bit 22 (lst - a)))) (early_map_loop idx a lst pa))"

text \<open>
  \<open>clear\<close> stands for \<^verbatim>\<open>page_index_clear\<close> on the boot page index, which may free page
  tables; the iteration over the queue follows.
\<close>

primrec early_map_all :: "nat \<Rightarrow> early_kmmap \<Rightarrow> int option \<Rightarrow> pgindex \<Rightarrow> (pgindex \<times> int) option" where
  "early_map_all 0 st mapping idx = None"
| "early_map_all (Suc n) st mapping idx = (case mapping of
     None \<Rightarrow> Some (idx, 0)
   | Some i \<Rightarrow>
       (let e = queue st (nat i)
        in case page_index_early_map idx (em_paddr e) (em_vaddr e) (em_size e) of
             None \<Rightarrow> None
           | Some (idx, ret) \<Rightarrow>
               if ret = EOF then Some (idx, EOF)
               else early_map_all n st (early_mapping_next st mapping) idx))"

definition page_index_init :: "nat \<Rightarrow> (pgindex \<Rightarrow> pgindex) \<Rightarrow> early_kmmap \<Rightarrow> pgindex \<Rightarrow> (pgindex \<times> int) option" where
  "page_index_init n clear st idx =
     (let mapping = early_mapping_next st None; idx = clear idx in early_map_all n st mapping idx)"

definition early_mm_init :: "u32 \<Rightarrow> pgindex \<Rightarrow> pgindex option" where
  "early_mm_init kend idx =
     (case page_index_early_map idx 0 0 (kend - KERN_BASE + 0x10000000) of
        None \<Rightarrow> None
      | Some (idx, _) \<Rightarrow>
         (case page_index_early_map idx 0 (P2V 0) (kend - KERN_BASE + KERN_START + 0x10000000) of
            None \<Rightarrow> None
          | Some (idx, _) \<Rightarrow>
             map_option fst (page_index_early_map idx (ucast DEVSPACE) DEVSPACE 0x01000000)))"

section \<open>The mappings do not meet\<close>

abbreviation em_range :: "early_mapping \<Rightarrow> nat set" where
  "em_range e \<equiv> {unat (em_vaddr e) ..< unat (em_vaddr e) + unat (em_size e)}"

definition em_inv :: "early_kmmap \<Rightarrow> bool" where
  "em_inv st \<longleftrightarrow> queue_size st \<le> EARLY_MAPPING_QUEUE_LENGTH \<and>
     KERN_BASE \<le> mem_top st \<and> mem_top st \<le> KMMAP_BASE \<and> KMMAP_BASE \<le> kmmap_top st \<and> kmmap_top st \<le> RESERVED_BASE \<and>
     (\<forall>i<queue_size st. em_range (queue st i) \<subseteq> {unat KERN_BASE ..< unat (mem_top st)} \<and> em_type (queue st i) = EARLY_MAPPING_MEMORY \<or>
        em_range (queue st i) \<subseteq> {unat KMMAP_BASE ..< unat (kmmap_top st)} \<and> em_type (queue st i) = EARLY_MAPPING_KMMAP) \<and>
     (\<forall>i j. i < j \<and> j < queue_size st \<longrightarrow> em_range (queue st i) \<inter> em_range (queue st j) = {})"

text \<open>The steps of the users of the queue, which only reserve the next free range.\<close>

inductive em_step :: "early_kmmap \<Rightarrow> early_kmmap \<Rightarrow> bool" where
  clear: "em_step st (early_mapping_clear st)"
| memory: "early_mapping_add_memory base sz st = Done (st', r) \<Longrightarrow> em_step st st'"
| kmmap: "early_mapping_add_kmmap base sz st = Done (st', r) \<Longrightarrow> em_step st st'"

lemma early_mapping_add_cases:
  assumes "early_mapping_add e st = Done (st', r)"
  obtains (Refused) "st' = st" "r < 0"
  | (Added) "st' = st\<lparr>queue := (queue st)(queue_size st := e), queue_size := queue_size st + 1\<rparr>" "r = 0"
      "queue_size st < EARLY_MAPPING_QUEUE_LENGTH"
  using assms by (auto simp: early_mapping_add_def split: if_splits)

lemma em_inv_clear: "em_inv (early_mapping_clear st)"
  by (simp add: em_inv_def early_mapping_clear_def KERN_BASE_def KMMAP_BASE_def RESERVED_BASE_def)

lemma em_inv_append:
  assumes inv: "em_inv st" and room: "queue_size st < EARLY_MAPPING_QUEUE_LENGTH"
    and tops: "mem_top st \<le> mt" "mt \<le> KMMAP_BASE" "kmmap_top st \<le> kt" "kt \<le> RESERVED_BASE"
    and e: "em_range e \<subseteq> {unat (mem_top st) ..< unat mt} \<and> em_type e = EARLY_MAPPING_MEMORY \<or>
            em_range e \<subseteq> {unat (kmmap_top st) ..< unat kt} \<and> em_type e = EARLY_MAPPING_KMMAP"
  shows "em_inv (st\<lparr>queue := (queue st)(queue_size st := e), queue_size := queue_size st + 1, mem_top := mt, kmmap_top := kt\<rparr>)"
proof -
  let ?n = "queue_size st" and ?q = "(queue st)(queue_size st := e)"
  have b: "unat KERN_BASE \<le> unat (mem_top st)" "unat (mem_top st) \<le> unat KMMAP_BASE" "unat KMMAP_BASE \<le> unat (kmmap_top st)"
    "unat (mem_top st) \<le> unat mt" "unat (kmmap_top st) \<le> unat kt" "unat mt \<le> unat KMMAP_BASE"
    using inv tops by (auto simp: em_inv_def word_le_nat_alt)
  have old: "em_range (queue st i) \<subseteq> {unat KERN_BASE ..< unat (mem_top st)} \<and> em_type (queue st i) = EARLY_MAPPING_MEMORY \<or>
      em_range (queue st i) \<subseteq> {unat KMMAP_BASE ..< unat (kmmap_top st)} \<and> em_type (queue st i) = EARLY_MAPPING_KMMAP"
    if "i < ?n" for i using inv that by (auto simp: em_inv_def)
  have mono: "{unat KERN_BASE ..< unat (mem_top st)} \<subseteq> {unat KERN_BASE ..< unat mt}"
    "{unat KMMAP_BASE ..< unat (kmmap_top st)} \<subseteq> {unat KMMAP_BASE ..< unat kt}"
    "{unat (mem_top st) ..< unat mt} \<subseteq> {unat KERN_BASE ..< unat mt}"
    "{unat (kmmap_top st) ..< unat kt} \<subseteq> {unat KMMAP_BASE ..< unat kt}"
    using b by auto
  have regions: "em_range (?q i) \<subseteq> {unat KERN_BASE ..< unat mt} \<and> em_type (?q i) = EARLY_MAPPING_MEMORY \<or>
      em_range (?q i) \<subseteq> {unat KMMAP_BASE ..< unat kt} \<and> em_type (?q i) = EARLY_MAPPING_KMMAP" if "i < Suc ?n" for i
  proof (cases "i = ?n")
    case True
    then have q: "?q i = e" by simp
    show ?thesis unfolding q using e mono(3,4) by (auto dest: subset_trans)
  next
    case False
    then have q: "?q i = queue st i" "i < ?n" using that by simp_all
    show ?thesis unfolding q(1) using old[OF q(2)] mono(1,2) by (auto dest: subset_trans)
  qed
  have apart: "em_range (queue st i) \<inter> em_range e = {}" if "i < ?n" for i
  proof -
    let ?A = "{unat KERN_BASE ..< unat (mem_top st)}" and ?B = "{unat KMMAP_BASE ..< unat (kmmap_top st)}"
    let ?C = "{unat (mem_top st) ..< unat mt}" and ?D = "{unat (kmmap_top st) ..< unat kt}"
    have "?A \<inter> ?C = {}" "?A \<inter> ?D = {}" "?B \<inter> ?C = {}" "?B \<inter> ?D = {}" using b by auto
    moreover have "em_range (queue st i) \<subseteq> ?A \<or> em_range (queue st i) \<subseteq> ?B" using old[OF that] by blast
    moreover have "em_range e \<subseteq> ?C \<or> em_range e \<subseteq> ?D" using e by blast
    ultimately show ?thesis by blast
  qed
  have disj: "em_range (?q i) \<inter> em_range (?q j) = {}" if "i < j" "j < Suc ?n" for i j
  proof (cases "j = ?n")
    case True
    then show ?thesis using apart[of i] that by simp
  next
    case False
    then show ?thesis using inv that by (auto simp: em_inv_def)
  qed
  have "KERN_BASE \<le> mt" "KMMAP_BASE \<le> kt" using b by (auto simp: word_le_nat_alt)
  then show ?thesis
    unfolding em_inv_def using regions disj room tops(2,4) by (simp add: Suc_le_eq)
qed

lemma em_inv_step: "em_step st st' \<Longrightarrow> em_inv st \<Longrightarrow> em_inv st'"
proof (induction rule: em_step.induct)
  case (clear st)
  show ?case by (rule em_inv_clear)
next
  case (memory base sz st st' r)
  have inv: "mem_top st \<le> KMMAP_BASE" "kmmap_top st \<le> RESERVED_BASE" using memory.prems by (auto simp: em_inv_def)
  show ?case
  proof (cases "mem_top st \<ge> KMMAP_BASE")
    case True
    then show ?thesis using memory by (simp add: early_mapping_add_memory_def)
  next
    case False
    define s where "s = (if sz > KMMAP_BASE - mem_top st then KMMAP_BASE - mem_top st else sz)"
    define e where "e = \<lparr>em_paddr = base, em_vaddr = mem_top st, em_size = s, em_type = EARLY_MAPPING_MEMORY\<rparr>"
    have "unat s \<le> unat KMMAP_BASE - unat (mem_top st)"
      using inv by (simp add: s_def word_less_nat_alt word_le_nat_alt unat_minus_le)
    then have "unat (mem_top st) + unat s \<le> unat KMMAP_BASE" using inv by (simp add: word_le_nat_alt)
    moreover from this have t: "unat (mem_top st + s) = unat (mem_top st) + unat s"
      using unsigned_less[where 'a = nat, of KMMAP_BASE] by (intro unat_plus_small) linarith
    ultimately have top: "mem_top st \<le> mem_top st + s" "mem_top st + s \<le> KMMAP_BASE"
      by (simp_all add: word_le_nat_alt)
    obtain r1 st1 where add: "early_mapping_add e st = Done (st1, r1)"
      and st': "st' = (if r1 < 0 then st1 else st1\<lparr>mem_top := mem_top st1 + s\<rparr>)"
      using memory.hyps False by (auto simp: early_mapping_add_memory_def Let_def s_def[symmetric] e_def[symmetric] split: if_splits)
    from add show ?thesis
    proof (cases rule: early_mapping_add_cases)
      case Refused
      then show ?thesis using st' memory.prems by simp
    next
      case Added
      have "em_range e \<subseteq> {unat (mem_top st) ..< unat (mem_top st + s)}" by (simp add: e_def t)
      then show ?thesis
        using em_inv_append[OF memory.prems Added(3) top order_refl inv(2), of e] Added(1,2) st' by (simp add: e_def)
    qed
  qed
next
  case (kmmap base sz st st' r)
  have inv: "mem_top st \<le> KMMAP_BASE" "kmmap_top st \<le> RESERVED_BASE" using kmmap.prems by (auto simp: em_inv_def)
  show ?case
  proof (cases "kmmap_top st \<ge> RESERVED_BASE \<or> sz > RESERVED_BASE - kmmap_top st")
    case True
    then have "early_mapping_add_kmmap base sz st = Done (st, 0)" by (auto simp: early_mapping_add_kmmap_def)
    then show ?thesis using kmmap by simp
  next
    case False
    define e where "e = \<lparr>em_paddr = base, em_vaddr = kmmap_top st, em_size = sz, em_type = EARLY_MAPPING_KMMAP\<rparr>"
    have "unat sz \<le> unat RESERVED_BASE - unat (kmmap_top st)"
      using inv False by (simp add: word_less_nat_alt word_le_nat_alt unat_minus_le)
    then have "unat (kmmap_top st) + unat sz \<le> unat RESERVED_BASE" using inv by (simp add: word_le_nat_alt)
    moreover from this have t: "unat (kmmap_top st + sz) = unat (kmmap_top st) + unat sz"
      using unsigned_less[where 'a = nat, of RESERVED_BASE] by (intro unat_plus_small) linarith
    ultimately have top: "kmmap_top st \<le> kmmap_top st + sz" "kmmap_top st + sz \<le> RESERVED_BASE"
      by (simp_all add: word_le_nat_alt)
    obtain r1 st1 where add: "early_mapping_add e st = Done (st1, r1)"
      and st': "st' = (if r1 < 0 then st1 else st1\<lparr>kmmap_top := kmmap_top st1 + sz\<rparr>)"
      using kmmap.hyps False by (auto simp: early_mapping_add_kmmap_def Let_def e_def[symmetric] split: if_splits)
    from add show ?thesis
    proof (cases rule: early_mapping_add_cases)
      case Refused
      then show ?thesis using st' kmmap.prems by simp
    next
      case Added
      have "em_range e \<subseteq> {unat (kmmap_top st) ..< unat (kmmap_top st + sz)}" by (simp add: e_def t)
      then show ?thesis
        using em_inv_append[OF kmmap.prems Added(3) order_refl inv(1) top, of e] Added(1,2) st' by (simp add: e_def)
    qed
  qed
qed

lemma em_inv_reachable: "em_step\<^sup>*\<^sup>* (early_mapping_clear st0) st \<Longrightarrow> em_inv st"
  by (induction rule: rtranclp_induct) (auto intro: em_inv_clear em_inv_step)

section \<open>Entries of the boot page index\<close>

definition big_page :: "u64 \<Rightarrow> u32" where
  "big_page pa = ucast (pa OR ucast (PTE_P OR PTE_W OR PTE_PS))"

text \<open>
  As long as the last address is not in the topmost 4 MB, the loop ends after \<open>n\<close> rounds,
  where \<open>n\<close> counts the 4 MB steps from \<open>a\<close> that begin below \<open>lst\<close>.
\<close>

lemma early_map_loop_entries:
  assumes "unat a + 2 ^ 22 * n < 2 ^ 32" "unat lst \<le> unat a + 2 ^ 22 * n" "\<forall>k<n. unat a + 2 ^ 22 * k < unat lst"
  shows "early_map_loop idx a lst pa = Some (\<lambda>i. if unat a div 2 ^ 22 \<le> i \<and> i < unat a div 2 ^ 22 + n
      then big_page (pa + of_nat (2 ^ 22 * (i - unat a div 2 ^ 22))) else idx i, a + of_nat (2 ^ 22 * n))"
  using assms
proof (induction n arbitrary: idx a pa)
  case 0
  then have "\<not> a < lst" by (simp add: word_less_nat_alt)
  then show ?case by (subst early_map_loop.simps) (auto intro!: ext)
next
  case (Suc n)
  let ?a = "a + push_bit 22 1" and ?d = "unat a div 2 ^ 22"
  have lt: "a < lst" using Suc.prems(3) by (auto simp: word_less_nat_alt)
  have ua: "unat ?a = unat a + 2 ^ 22" using Suc.prems(1) by (subst unat_plus_small) simp_all
  then have d: "unat ?a div 2 ^ 22 = Suc ?d" by simp
  have u: "unat (drop_bit PDXSHIFT a) = ?d" by (simp only: unat_drop_bit PDXSHIFT_def)
  have IH: "early_map_loop (idx(?d := big_page pa)) ?a lst (pa + push_bit 22 1) =
      Some (\<lambda>i. if Suc ?d \<le> i \<and> i < Suc ?d + n then big_page (pa + push_bit 22 1 + of_nat (2 ^ 22 * (i - Suc ?d)))
        else (idx(?d := big_page pa)) i, ?a + of_nat (2 ^ 22 * n))"
  proof -
    have "\<forall>k<n. unat ?a + 2 ^ 22 * k < unat lst"
      using Suc.prems(3) ua by (metis Suc_less_eq add.assoc mult_Suc_right)
    moreover have "unat ?a + 2 ^ 22 * n < 2 ^ 32" "unat lst \<le> unat ?a + 2 ^ 22 * n"
      using Suc.prems(1,2) unfolding ua by simp_all
    ultimately show ?thesis
      using Suc.IH[of ?a "idx(?d := big_page pa)" "pa + push_bit 22 1"] unfolding d by blast
  qed
  have step: "pa + push_bit 22 1 + of_nat (2 ^ 22 * (i - Suc ?d)) = pa + of_nat (2 ^ 22 * (i - ?d))"
    if "Suc ?d \<le> i" for i
  proof -
    have "i - ?d = Suc (i - Suc ?d)" using that by simp
    then show ?thesis by (simp add: add.assoc algebra_simps)
  qed
  have fin: "?a + of_nat (2 ^ 22 * n) = a + of_nat (2 ^ 22 * Suc n)" by (simp add: algebra_simps)
  have "early_map_loop idx a lst pa = early_map_loop (idx(?d := big_page pa)) ?a lst (pa + push_bit 22 1)"
    using lt by (subst early_map_loop.simps) (simp only: u big_page_def if_True)
  also have "\<dots> = Some (\<lambda>i. if ?d \<le> i \<and> i < ?d + Suc n then big_page (pa + of_nat (2 ^ 22 * (i - ?d))) else idx i,
      a + of_nat (2 ^ 22 * Suc n))"
    unfolding IH fin using step by (auto intro!: ext simp: le_Suc_eq)
  finally show ?case .
qed

text \<open>
  The comparison \<^verbatim>\<open>a < last\<close> leaves out the step that begins at the last page itself: a
  mapping of one page at a 4 MB boundary enters nothing.
\<close>

lemma early_map_one_page:
  assumes "unat va mod 4096 = 0"
  shows "page_index_early_map idx pa va 4096 = Some (idx, 0)"
proof -
  have va: "PGROUNDDOWN va = va"
    by (rule unsigned_word_eqI[where 'a = nat]) (use assms in \<open>simp add: unat_PGROUNDDOWN minus_mod_eq_div_mult[symmetric]\<close>)
  obtain q where q: "unat va = 4096 * q" using assms by auto
  have "unat va < 4294967296" using unsigned_less[where 'a = nat, of va] by simp
  then have "q \<le> 1048575" using q by simp
  then have "unat va + 4095 < 4294967296" using q by linarith
  then have u: "unat (va + 4095) = unat va + 4095" by (subst unat_plus_small) simp_all
  have "unat (PGROUNDDOWN (va + 4096 - 1)) = unat (va + 4096 - 1) div 4096 * 4096" by (rule unat_PGROUNDDOWN)
  also have "va + 4096 - 1 = va + 4095" by simp
  also have "unat (va + 4095) div 4096 * 4096 = (4096 * q + 4095) div 4096 * 4096" by (simp only: u q)
  also have "\<dots> = unat va" unfolding q by simp
  finally have "PGROUNDDOWN (va + 4095) = va" by (rule unsigned_word_eqI)
  then have lst: "PGROUNDDOWN (va + 4096 - 1) = va" by (simp add: add.commute)
  have "early_map_loop idx va va pa = Some (idx, va)" by (subst early_map_loop.simps) simp
  then show ?thesis unfolding page_index_early_map_def Let_def va lst by simp
qed

section \<open>Iteration\<close>

text \<open>From \<^verbatim>\<open>NULL\<close> the iterator visits the entries in order and then ends.\<close>

primrec iterate_mappings :: "nat \<Rightarrow> early_kmmap \<Rightarrow> int option \<Rightarrow> int list option" where
  "iterate_mappings 0 st mapping = None"
| "iterate_mappings (Suc n) st mapping = (case mapping of
     None \<Rightarrow> Some []
   | Some i \<Rightarrow> map_option ((#) i) (iterate_mappings n st (early_mapping_next st mapping)))"

lemma iterate_from:
  "j \<le> queue_size st \<Longrightarrow> queue_size st - j < n \<Longrightarrow>
   iterate_mappings n st (if j < queue_size st then Some (int j) else None) = Some (map int [j..<queue_size st])"
proof (induction n arbitrary: j)
  case (Suc n)
  show ?case
  proof (cases "j < queue_size st")
    case True
    have "early_mapping_next st (Some (int j)) = (if Suc j < queue_size st then Some (int (Suc j)) else None)"
      by (auto simp: early_mapping_next_def Let_def)
    moreover have "iterate_mappings n st (if Suc j < queue_size st then Some (int (Suc j)) else None)
        = Some (map int [Suc j..<queue_size st])"
      using Suc.prems True by (intro Suc.IH) auto
    ultimately show ?thesis using True by (simp add: upt_conv_Cons)
  qed simp
qed simp

lemma iterate_all: "queue_size st < n \<Longrightarrow> iterate_mappings n st (early_mapping_next st None) = Some (map int [0..<queue_size st])"
  using iterate_from[of 0 st n] by (auto simp: early_mapping_next_def Let_def split: if_splits)

text \<open>The test for overlap misses two mappings that begin at the same address.\<close>

lemma early_mapping_add_same_start:
  assumes "queue_size st = 1" "em_vaddr (queue st 0) = em_vaddr e"
  shows "early_mapping_add e st = Done (st\<lparr>queue := (queue st)(1 := e), queue_size := 2\<rparr>, 0)"
  using assms by (simp add: early_mapping_add_def EARLY_MAPPING_QUEUE_LENGTH_def early_mapping_valid_def OVERLAP_def)

end
