(* ===== verification/Snprintf.thy ===== *)
theory Snprintf
  imports AIM_Prelude
begin

text \<open>
  \<^verbatim>\<open>vsnprintf\<close> of \<^verbatim>\<open>lib/libc/snprintf.c\<close>. A format is the string before its null byte, the
  variable arguments are the 32-bit slots of the stack, and a \<^verbatim>\<open>char *\<close> argument is looked up
  in the strings of the memory. The output is the sequence of bytes stored from \<^verbatim>\<open>str\<close> on,
  whether they fit or not.
\<close>

section \<open>Digits\<close>

definition is_digit :: "char \<Rightarrow> bool" where
  "is_digit ch \<longleftrightarrow> 48 \<le> (of_char ch :: nat) \<and> (of_char ch :: nat) \<le> 57"

definition digits :: "nat \<Rightarrow> char" where
  "digits x = (if x \<le> 9 then char_of (48 + x :: nat) else char_of (97 + x - 10))"

text \<open>The loop that fills \<^verbatim>\<open>buf\<close>, the lowest digit first.\<close>

function fill_buf :: "nat \<Rightarrow> nat \<Rightarrow> char list" where
  "fill_buf base uval = (if uval > 0 \<and> base > 1 then digits (uval mod base) # fill_buf base (uval div base) else [])"
  by pat_completeness auto

termination fill_buf
  by (relation "measure snd") auto

declare fill_buf.simps [simp del]

definition uint_buf :: "nat \<Rightarrow> u64 \<Rightarrow> char list" where
  "uint_buf base uval = (let buf = fill_buf base (unat uval) in if buf = [] then [CHR ''0''] else buf)"

section \<open>Output\<close>

text \<open>\<^verbatim>\<open>set_ch\<close>: \<open>Inl\<close> is the return with a full buffer.\<close>

definition set_ch :: "nat \<Rightarrow> char \<Rightarrow> char list \<Rightarrow> char list + char list" where
  "set_ch sz ch out = (let out = out @ [ch] in if length out = sz then Inl (butlast out @ [CHR 0x00]) else Inr out)"

primrec set_chs :: "nat \<Rightarrow> char list \<Rightarrow> char list \<Rightarrow> char list + char list" where
  "set_chs sz [] out = Inr out"
| "set_chs sz (c # cs) out = (case set_ch sz c out of Inl full \<Rightarrow> Inl full | Inr out \<Rightarrow> set_chs sz cs out)"

definition FLAG_ZEROPAD :: u32 where "FLAG_ZEROPAD = 0x002"
definition FLAG_NEG :: u32 where "FLAG_NEG = 0x100"

text \<open>The three branches behind \<^verbatim>\<open>print_uint\<close>; the condition of the second is written with a bitwise or.\<close>

definition padded :: "char \<Rightarrow> nat \<Rightarrow> char list \<Rightarrow> char list" where
  "padded pad width buf = map (\<lambda>w. if w \<ge> length buf then pad else buf ! w) (rev [0..<width])"

definition print_uint :: "int \<Rightarrow> u32 \<Rightarrow> char list \<Rightarrow> char list" where
  "print_uint width flag buf =
     (let sign = (if flag AND FLAG_NEG \<noteq> 0 then [CHR ''-''] else [])
      in if width = 0 then sign @ rev buf
         else if width > 0 \<and> flag OR FLAG_ZEROPAD \<noteq> 0 then sign @ padded (CHR ''0'') (nat width) buf
         else if width > 0 then padded (CHR '' '') (nat width) (buf @ sign)
         else [])"

section \<open>The conversions\<close>

record vs =
  v_out :: "char list"
  v_width :: int
  v_flag :: u32
  v_long :: nat
  v_arg :: nat

text \<open>\<^verbatim>\<open>getint\<close> and \<^verbatim>\<open>getuint\<close>: \<^verbatim>\<open>int\<close> and \<^verbatim>\<open>long\<close> are one slot, \<^verbatim>\<open>long long\<close> is two.\<close>

definition getint :: "(nat \<Rightarrow> u32) \<Rightarrow> vs \<Rightarrow> u64 \<times> vs" where
  "getint ap v =
     (if v_long v \<le> 1 then (scast (ap (v_arg v)), v\<lparr>v_arg := v_arg v + 1\<rparr>)
      else (push_bit 32 (ucast (ap (v_arg v + 1))) OR ucast (ap (v_arg v)), v\<lparr>v_arg := v_arg v + 2\<rparr>))"

definition getuint :: "(nat \<Rightarrow> u32) \<Rightarrow> vs \<Rightarrow> u64 \<times> vs" where
  "getuint ap v =
     (if v_long v \<le> 1 then (ucast (ap (v_arg v)), v\<lparr>v_arg := v_arg v + 1\<rparr>)
      else (push_bit 32 (ucast (ap (v_arg v + 1))) OR ucast (ap (v_arg v)), v\<lparr>v_arg := v_arg v + 2\<rparr>))"

text \<open>
  One conversion character \<open>c\<close>: the characters it prints, and the state behind it. \<open>None\<close> is the
  branch \<^verbatim>\<open>default\<close>.
\<close>

definition conv_uint :: "nat \<Rightarrow> (nat \<Rightarrow> u32) \<Rightarrow> vs \<Rightarrow> char list \<times> vs" where
  "conv_uint base ap v =
     (let (uval, v) = getuint ap v; v = v\<lparr>v_long := 0\<rparr>
      in (print_uint (v_width v) (v_flag v) (uint_buf base uval), v))"

definition conv_int :: "(nat \<Rightarrow> u32) \<Rightarrow> vs \<Rightarrow> char list \<times> vs" where
  "conv_int ap v =
     (let (val, v) = getint ap v;
          v = v\<lparr>v_long := 0\<rparr>;
          (uval, v) = (if sint val < 0 then (- val, v\<lparr>v_flag := v_flag v OR FLAG_NEG\<rparr>) else (val, v))
      in (print_uint (v_width v) (v_flag v) (uint_buf 10 uval), v))"

definition conv_str :: "(nat \<Rightarrow> u32) \<Rightarrow> (u32 \<Rightarrow> char list) \<Rightarrow> vs \<Rightarrow> char list \<times> vs" where
  "conv_str ap strs v =
     (let a = ap (v_arg v); s = (if a = 0 then ''(null)'' else strs a)
      in (s @ replicate (nat (v_width v) - length s) (CHR '' ''), v\<lparr>v_arg := v_arg v + 1\<rparr>))"

definition convert :: "(nat \<Rightarrow> u32) \<Rightarrow> (u32 \<Rightarrow> char list) \<Rightarrow> char \<Rightarrow> vs \<Rightarrow> (char list \<times> vs) option" where
  "convert ap strs c v =
     (if c = CHR ''d'' then Some (conv_int ap v)
      else if c = CHR ''o'' then Some (conv_uint 8 ap v)
      else if c = CHR ''x'' then Some (conv_uint 16 ap v)
      else if c = CHR ''p'' then Some (conv_uint 16 ap (v\<lparr>v_flag := v_flag v OR FLAG_ZEROPAD, v_long := 1, v_width := 8\<rparr>))
      else if c = CHR ''u'' then Some (conv_uint 10 ap v)
      else if c = CHR ''c'' then Some ([char_of (unat (ap (v_arg v)))], v\<lparr>v_arg := v_arg v + 1\<rparr>)
      else if c = CHR ''s'' then Some (conv_str ap strs v)
      else if c = CHR ''%'' then Some (''%'', v)
      else None)"

definition width_step :: "int \<Rightarrow> char \<Rightarrow> int" where
  "width_step width ch = width * 10 + (of_char ch - 48)"

text \<open>
  One round on the character \<open>c\<close>, with \<open>f\<close> the rest of the format. With \<open>spec\<close> it stands behind a
  percent sign, at \<^verbatim>\<open>fmt_loop\<close>. It gives the characters to print, whether the next character is
  again read at \<^verbatim>\<open>fmt_loop\<close>, where the format goes on, and the new state.
\<close>

definition fmt_step :: "(nat \<Rightarrow> u32) \<Rightarrow> (u32 \<Rightarrow> char list) \<Rightarrow> bool \<Rightarrow> char \<Rightarrow> char list \<Rightarrow> vs \<Rightarrow>
    char list \<times> bool \<times> char list \<times> vs" where
  "fmt_step ap strs spec c f v =
     (if \<not> spec then if c = CHR ''%'' then ([], True, f, v) else ([c], False, f, v)
      else if c = CHR ''l'' then ([], True, f, v\<lparr>v_long := v_long v + 1\<rparr>)
      else if c = CHR ''0'' then ([], True, f, v\<lparr>v_flag := v_flag v OR FLAG_ZEROPAD\<rparr>)
      else if is_digit c
      then ([], True, dropWhile is_digit f, v\<lparr>v_width := foldl width_step (v_width v) (c # takeWhile is_digit f)\<rparr>)
      else case convert ap strs c v of
             Some (s, v) \<Rightarrow> (s, False, f, v\<lparr>v_flag := 0, v_width := 0\<rparr>)
           | None \<Rightarrow> ([CHR ''%'', c], False, f, v))"

lemma fmt_step_shorter: "fmt_step ap strs spec c f v = (s, spec', f', v') \<Longrightarrow> length f' \<le> length f"
  by (auto simp: fmt_step_def length_dropWhile_le split: if_splits option.splits)

text \<open>
  The loop over the format: what has been stored and the return value; \<open>None\<close> is a read behind the
  end of the format.
\<close>

function fmt_run ::
    "nat \<Rightarrow> (nat \<Rightarrow> u32) \<Rightarrow> (u32 \<Rightarrow> char list) \<Rightarrow> bool \<Rightarrow> char list \<Rightarrow> vs \<Rightarrow> (char list \<times> nat) option" where
  "fmt_run sz ap strs spec [] v =
     (if \<not> spec
      then case set_ch sz (CHR 0x00) (v_out v) of Inl full \<Rightarrow> Some (full, sz) | Inr out \<Rightarrow> Some (out, length out - 1)
      else case set_chs sz [CHR ''%'', CHR 0x00] (v_out v) of Inl full \<Rightarrow> Some (full, sz) | Inr out \<Rightarrow> None)"
| "fmt_run sz ap strs spec (c # f) v =
     (case fmt_step ap strs spec c f v of (s, spec, f', v') \<Rightarrow>
        (case set_chs sz s (v_out v) of
           Inl full \<Rightarrow> Some (full, sz)
         | Inr out \<Rightarrow> fmt_run sz ap strs spec f' (v'\<lparr>v_out := out\<rparr>)))"
  by pat_completeness auto

termination fmt_run
  by (relation "measure (\<lambda>(sz, ap, strs, spec, f, v). length f)")
     (auto dest!: fmt_step_shorter[OF sym])

definition vsnprintf :: "nat \<Rightarrow> (nat \<Rightarrow> u32) \<Rightarrow> (u32 \<Rightarrow> char list) \<Rightarrow> char list \<Rightarrow> (char list \<times> nat) option" where
  "vsnprintf sz ap strs fmt =
     fmt_run sz ap strs False fmt \<lparr>v_out = [], v_width = 0, v_flag = 0, v_long = 0, v_arg = 0\<rparr>"

definition snprintf :: "nat \<Rightarrow> (nat \<Rightarrow> u32) \<Rightarrow> (u32 \<Rightarrow> char list) \<Rightarrow> char list \<Rightarrow> (char list \<times> nat) option" where
  "snprintf sz ap strs fmt = vsnprintf sz ap strs fmt"

section \<open>Truncation\<close>

lemma set_chs_result:
  "length out < sz \<Longrightarrow> set_chs sz cs out =
    (if length (out @ cs) < sz then Inr (out @ cs) else Inl (take (sz - 1) (out @ cs) @ [CHR 0x00]))"
proof (induction cs arbitrary: out)
  case (Cons c cs)
  show ?case
  proof (cases "length out + 1 = sz")
    case True
    then show ?thesis using Cons.prems by (auto simp: set_ch_def Let_def)
  next
    case False
    then show ?thesis using Cons.prems Cons.IH[of "out @ [c]"] by (auto simp: set_ch_def Let_def)
  qed
qed simp

lemma set_ch_set_chs: "set_ch sz c out = set_chs sz [c] out"
  by (simp split: sum.split)

lemma set_chs_unbounded [simp]: "set_chs 0 cs out = Inr (out @ cs)"
  by (induction cs arbitrary: out) (simp_all add: set_ch_def Let_def)

lemma set_ch_unbounded [simp]: "set_ch 0 c out = Inr (out @ [c])"
  by (simp add: set_ch_def Let_def)

text \<open>The output without a bound extends what was there.\<close>

lemma fmt_run_extends:
  assumes "fmt_run 0 ap strs spec f v = Some (txt, n)"
  shows "\<exists>t. txt = v_out v @ t \<and> last txt = CHR 0x00 \<and> txt \<noteq> [] \<and> n = length txt - 1"
  using assms
proof (induction "0 :: nat" ap strs spec f v rule: fmt_run.induct)
  case (1 ap strs spec v)
  then show ?case by (auto split: if_splits)
next
  case (2 ap strs spec c f v)
  obtain s spec' f' v' where st: "fmt_step ap strs spec c f v = (s, spec', f', v')" by (metis prod_cases4)
  have run: "fmt_run 0 ap strs spec' f' (v'\<lparr>v_out := v_out v @ s\<rparr>) = Some (txt, n)" using 2(2) by (simp add: st)
  from 2(1)[OF st[symmetric] refl refl set_chs_unbounded run] show ?case by auto
qed

text \<open>
  With a bound the same text is stored as long as it fits with its null byte before the last place;
  otherwise its beginning and a null byte, and the size is returned.
\<close>

lemma fmt_run_truncates:
  assumes "fmt_run 0 ap strs spec f v = Some (txt, n)" "length (v_out v) < sz"
  shows "fmt_run sz ap strs spec f v =
    Some (if length txt < sz then (txt, n) else (take (sz - 1) txt @ [CHR 0x00], sz))"
  using assms
proof (induction sz ap strs spec f v rule: fmt_run.induct)
  case (1 sz ap strs spec v)
  then show ?case by (auto simp: set_ch_set_chs set_chs_result simp del: set_chs.simps split: if_splits)
next
  case (2 sz ap strs spec c f v)
  obtain s spec' f' v' where st: "fmt_step ap strs spec c f v = (s, spec', f', v')" by (metis prod_cases4)
  have run: "fmt_run 0 ap strs spec' f' (v'\<lparr>v_out := v_out v @ s\<rparr>) = Some (txt, n)" using 2(2) by (simp add: st)
  obtain t where t: "txt = v_out v @ s @ t" using fmt_run_extends[OF run] by auto
  show ?case
  proof (cases "length (v_out v @ s) < sz")
    case True
    then have r: "set_chs sz s (v_out v) = Inr (v_out v @ s)" using 2(3) by (simp add: set_chs_result)
    show ?thesis using 2(1)[OF st[symmetric] refl refl r run] True by (simp add: st r)
  next
    case False
    then have "set_chs sz s (v_out v) = Inl (take (sz - 1) (v_out v @ s) @ [CHR 0x00])" using 2(3) by (simp add: set_chs_result)
    then show ?thesis using False t by (simp add: st)
  qed
qed

lemma vsnprintf_truncates:
  assumes "vsnprintf 0 ap strs fmt = Some (txt, n)" "0 < sz"
  shows "vsnprintf sz ap strs fmt = Some (if length txt < sz then (txt, n) else (take (sz - 1) txt @ [CHR 0x00], sz))"
  using fmt_run_truncates[OF assms(1)[unfolded vsnprintf_def]] assms(2) by (simp add: vsnprintf_def)

text \<open>Whatever the format, the buffer is not overrun and ends with a null byte.\<close>

lemma fmt_run_bounded:
  assumes "fmt_run sz ap strs spec f v = Some (buf, r)" "length (v_out v) < sz"
  shows "length buf \<le> sz \<and> buf \<noteq> [] \<and> last buf = CHR 0x00 \<and> r \<le> sz"
  using assms
proof (induction sz ap strs spec f v rule: fmt_run.induct)
  case (1 sz ap strs spec v)
  then show ?case by (auto simp: set_ch_set_chs set_chs_result simp del: set_chs.simps split: if_splits)
next
  case (2 sz ap strs spec c f v)
  obtain s spec' f' v' where st: "fmt_step ap strs spec c f v = (s, spec', f', v')" by (metis prod_cases4)
  show ?case
  proof (cases "length (v_out v @ s) < sz")
    case True
    then have r: "set_chs sz s (v_out v) = Inr (v_out v @ s)" using 2(3) by (simp add: set_chs_result)
    show ?thesis using 2(1)[OF st[symmetric] refl refl r] 2(2) True by (simp add: st r)
  next
    case False
    then have "set_chs sz s (v_out v) = Inl (take (sz - 1) (v_out v @ s) @ [CHR 0x00])" using 2(3) by (simp add: set_chs_result)
    then show ?thesis using False 2(2,3) by (auto simp: st)
  qed
qed

text \<open>A format whose last percent sign has its conversion is read to its end and no further.\<close>

fun fmt_closed :: "bool \<Rightarrow> char list \<Rightarrow> bool" where
  "fmt_closed spec [] = (\<not> spec)"
| "fmt_closed False (c # f) = fmt_closed (c = CHR ''%'') f"
| "fmt_closed True (c # f) = fmt_closed (c = CHR ''l'' \<or> is_digit c) f"

lemma fmt_closed_digits: "fmt_closed True (dropWhile is_digit f) = fmt_closed True f"
  by (induction f) auto

lemma fmt_step_closed:
  assumes "fmt_closed spec (c # f)" "fmt_step ap strs spec c f v = (s, spec', f', v')"
  shows "fmt_closed spec' f'"
proof (cases spec)
  case True
  have "is_digit CHR ''0''" by (simp add: is_digit_def)
  then show ?thesis using assms True
    by (auto simp: fmt_step_def fmt_closed_digits split: if_splits option.splits)
next
  case False
  then show ?thesis using assms by (auto simp: fmt_step_def split: if_splits)
qed

lemma fmt_run_returns:
  assumes "fmt_closed spec f"
  shows "\<exists>r. fmt_run sz ap strs spec f v = Some r"
  using assms
proof (induction sz ap strs spec f v rule: fmt_run.induct)
  case (1 sz ap strs spec v)
  then show ?case by (auto split: sum.split)
next
  case (2 sz ap strs spec c f v)
  obtain s spec' f' v' where st: "fmt_step ap strs spec c f v = (s, spec', f', v')" by (metis prod_cases4)
  from fmt_step_closed[OF 2(2) this] 2(1)[OF st[symmetric] refl refl] show ?case by (auto simp: st split: sum.split)
qed

text \<open>Text without conversions is copied.\<close>

lemma fmt_run_plain:
  assumes "CHR ''%'' \<notin> set f"
  shows "fmt_run 0 ap strs False f v = Some (v_out v @ f @ [CHR 0x00], length (v_out v @ f))"
  using assms by (induction f arbitrary: v) (auto simp: fmt_step_def)

section \<open>Numbers\<close>

definition digit_val :: "char \<Rightarrow> nat" where
  "digit_val c = (if is_digit c then of_char c - 48 else of_char c - 87)"

text \<open>The number that a row of digits, the lowest first, stands for.\<close>

primrec number :: "nat \<Rightarrow> char list \<Rightarrow> nat" where
  "number base [] = 0"
| "number base (c # cs) = digit_val c + base * number base cs"

lemma digit_val_digits: "x < 16 \<Longrightarrow> digit_val (digits x) = x"
  by (auto simp: digit_val_def digits_def is_digit_def)

lemma number_fill_buf:
  assumes "2 \<le> base" "base \<le> 16"
  shows "number base (fill_buf base n) = n"
proof (induction n rule: less_induct)
  case (less n)
  show ?case
  proof (cases "n = 0")
    case False
    have "n mod base < 16" using assms by (meson less_le_trans mod_less_divisor zero_less_numeral order_trans)
    moreover have "n div base < n" using assms False by simp
    ultimately show ?thesis using False assms less[of "n div base"]
      by (subst fill_buf.simps) (simp add: digit_val_digits)
  qed (simp add: fill_buf.simps)
qed

lemma number_uint_buf: "2 \<le> base \<Longrightarrow> base \<le> 16 \<Longrightarrow> number base (uint_buf base u) = unat u"
proof -
  assume b: "2 \<le> base" "base \<le> 16"
  show ?thesis
  proof (cases "fill_buf base (unat u) = []")
    case True
    then have "unat u = 0" using number_fill_buf[OF b, of "unat u"] by simp
    then show ?thesis using True by (simp add: uint_buf_def digit_val_def is_digit_def)
  qed (use number_fill_buf[OF b, of "unat u"] in \<open>simp add: uint_buf_def\<close>)
qed

lemma padded_eq: "padded pad w buf = replicate (w - length buf) pad @ rev (take w buf)"
proof (rule nth_equalityI)
  show "length (padded pad w buf) = length (replicate (w - length buf) pad @ rev (take w buf))" by (simp add: padded_def)
  fix i
  assume "i < length (padded pad w buf)"
  then have i: "i < w" by (simp add: padded_def)
  then show "padded pad w buf ! i = (replicate (w - length buf) pad @ rev (take w buf)) ! i"
  proof (cases "w \<le> length buf")
    case True
    then have "\<not> length buf \<le> w - Suc i" using i by simp
    then show ?thesis using True i by (simp add: padded_def rev_nth)
  next
    case False
    then show ?thesis using i by (auto simp: padded_def rev_nth nth_append)
  qed
qed

text \<open>
  A width pads with zeros, whether or not the format asks for them, and cuts off the leading digits
  that do not fit.
\<close>

lemma print_uint_width:
  assumes "0 < width"
  shows "print_uint width flag buf = (if flag AND FLAG_NEG \<noteq> 0 then ''-'' else []) @
    replicate (nat width - length buf) (CHR ''0'') @ rev (take (nat width) buf)"
proof -
  have "bit (flag OR FLAG_ZEROPAD) 1" by (simp add: FLAG_ZEROPAD_def bit_simps)
  then have "flag OR FLAG_ZEROPAD \<noteq> 0" by (metis bit_0_eq bot_apply bot_bool_def)
  then show ?thesis using assms by (simp add: print_uint_def padded_eq)
qed

lemma print_uint_no_width: "print_uint 0 flag buf = (if flag AND FLAG_NEG \<noteq> 0 then ''-'' else []) @ rev buf"
  by (simp add: print_uint_def)

text \<open>A width keeps the low digits of the number only.\<close>

lemma fill_buf_digits: "2 \<le> base \<Longrightarrow> base \<le> 16 \<Longrightarrow> c \<in> set (fill_buf base n) \<Longrightarrow> digit_val c < base"
proof (induction n rule: less_induct)
  case (less n)
  have r: "n mod base < base" using less.prems(1) by simp
  then have r16: "n mod base < 16" using less.prems(2) by linarith
  show ?case
  proof (cases "0 < n")
    case True
    then have "n div base < n" using less.prems(1) by simp
    moreover have "c = digits (n mod base) \<or> c \<in> set (fill_buf base (n div base))"
      using less.prems(3) by (subst (asm) fill_buf.simps) (auto split: if_splits)
    ultimately show ?thesis using less.IH less.prems(1,2) r r16 by (auto simp: digit_val_digits)
  next
    case False
    then show ?thesis using less.prems(3) by (simp add: fill_buf.simps)
  qed
qed

lemma number_take: "\<forall>c\<in>set cs. digit_val c < base \<Longrightarrow> number base (take w cs) = number base cs mod base ^ w"
proof (induction cs arbitrary: w)
  case (Cons c cs)
  show ?case
  proof (cases w)
    case (Suc v)
    have "(digit_val c + base * number base cs) mod (base * base ^ v) = base * (number base cs mod base ^ v) + digit_val c"
      using Cons.prems by (simp add: mod_mult2_eq)
    then show ?thesis using Cons by (simp add: Suc)
  qed simp
qed simp

lemma number_zeros [simp]: "number base (replicate k (CHR ''0'')) = 0" "number base (cs @ replicate k (CHR ''0'')) = number base cs"
proof -
  show z: "number base (replicate k (CHR ''0'')) = 0" by (induction k) (simp_all add: digit_val_def is_digit_def)
  show "number base (cs @ replicate k (CHR ''0'')) = number base cs" by (induction cs) (simp_all add: z)
qed

lemma print_uint_value:
  assumes "2 \<le> base" "base \<le> 16" "0 \<le> w"
  shows "number base (rev (print_uint w 0 (uint_buf base u))) = (if w = 0 then unat u else unat u mod base ^ nat w)"
proof -
  have "\<forall>c\<in>set (uint_buf base u). digit_val c < base"
    using fill_buf_digits[OF assms(1,2)] assms(1) by (auto simp: uint_buf_def Let_def digit_val_def is_digit_def)
  then have "number base (take (nat w) (uint_buf base u)) = unat u mod base ^ nat w"
    by (simp add: number_take number_uint_buf[OF assms(1,2)])
  moreover have "number base (uint_buf base u) = unat u" by (rule number_uint_buf[OF assms(1,2)])
  ultimately show ?thesis using assms(3) by (cases "w = 0") (simp_all add: print_uint_no_width print_uint_width)
qed

end
