(* ===== verification/Libc.thy ===== *)
theory Libc
  imports AIM_Prelude
begin

text \<open>
  The string functions of \<^verbatim>\<open>lib/libc\<close> over a memory of bytes with 32-bit addresses:
  \<^verbatim>\<open>memset\<close>, \<^verbatim>\<open>memcpy\<close> with its word-wise copy, \<^verbatim>\<open>memmove\<close>, \<^verbatim>\<open>memcmp\<close>, \<^verbatim>\<open>strcmp\<close> and
  \<^verbatim>\<open>strlcpy\<close>. The window of \<open>n\<close> bytes from \<open>p\<close> is the set of the addresses \<open>a\<close> with
  \<open>a - p < n\<close>, also where it wraps around.
\<close>

type_synonym vmem = "u32 \<Rightarrow> u8"

section \<open>memset\<close>

text \<open>The \<^verbatim>\<open>do ... while (--n != 0)\<close> loop, which is entered for \<^verbatim>\<open>n != 0\<close>.\<close>

function memset_loop :: "vmem \<Rightarrow> u32 \<Rightarrow> u8 \<Rightarrow> u32 \<Rightarrow> vmem" where
  "memset_loop m d c n =
     (if n = 0 then m else memset_loop (m(d := c)) (d + 1) c (n - 1))"
  by pat_completeness auto

termination memset_loop
  by (relation "measure (\<lambda>(m, d, c, n). unat n)") (auto simp: unat_minus_one unat_gt_0)

declare memset_loop.simps [simp del]

definition memset :: "vmem \<Rightarrow> u32 \<Rightarrow> u8 \<Rightarrow> u32 \<Rightarrow> vmem" where
  "memset m dst c n = (if n \<noteq> 0 then memset_loop m dst c n else m)"

section \<open>memcpy\<close>

type_synonym copy_state = "vmem \<times> u32 \<times> u32"

text \<open>\<^verbatim>\<open>*dst++ = *src++\<close> and \<^verbatim>\<open>*(word *)dst = *(word *)src; src += wsize; dst += wsize\<close>\<close>

definition copy_byte :: "copy_state \<Rightarrow> copy_state" where
  "copy_byte = (\<lambda>(m, dst, src). (m(dst := m src), dst + 1, src + 1))"

definition copy_word :: "copy_state \<Rightarrow> copy_state" where
  "copy_word = (\<lambda>(m, dst, src).
     (m(dst := m src, dst + 1 := m (src + 1), dst + 2 := m (src + 2), dst + 3 := m (src + 3)),
      dst + 4, src + 4))"

abbreviation (input) wsize :: u32 where "wsize \<equiv> 4"
abbreviation (input) wmask :: u32 where "wmask \<equiv> 3"

definition tloop :: "(copy_state \<Rightarrow> copy_state) \<Rightarrow> u32 \<Rightarrow> copy_state \<Rightarrow> copy_state" where
  "tloop s t st = (s ^^ unat t) st"

definition memcpy :: "vmem \<Rightarrow> u32 \<Rightarrow> u32 \<Rightarrow> u32 \<Rightarrow> vmem" where
  "memcpy m dst src len =
     (if len = 0 \<or> dst = src then m
      else let (st, len) =
                 (if (src OR dst) AND wmask \<noteq> 0
                  then let t = (if (src XOR dst) AND wmask \<noteq> 0 \<or> len < wsize then len
                                else wsize - (src AND wmask))
                       in (tloop copy_byte t (m, dst, src), len - t)
                  else ((m, dst, src), len));
               st = tloop copy_word (len div wsize) st;
               st = tloop copy_byte (len AND wmask) st
           in fst st)"

section \<open>memmove\<close>

text \<open>\<^verbatim>\<open>while (n-- > 0) *--d = *--s\<close>\<close>

definition copy_back :: "copy_state \<Rightarrow> copy_state" where
  "copy_back = (\<lambda>(m, d, s). (m(d - 1 := m (s - 1)), d - 1, s - 1))"

definition memmove :: "vmem \<Rightarrow> u32 \<Rightarrow> u32 \<Rightarrow> u32 \<Rightarrow> vmem" where
  "memmove m dst src n =
     (if src < dst \<and> src + n > dst
      then fst (tloop copy_back n (m, dst + n, src + n))
      else fst (tloop copy_byte n (m, dst, src)))"

section \<open>memcmp, strcmp, strlcpy\<close>

text \<open>The loop of \<^verbatim>\<open>memcmp\<close>, its counter the value of \<^verbatim>\<open>count\<close> after the decrement.\<close>

primrec memcmp_loop :: "vmem \<Rightarrow> u32 \<Rightarrow> u32 \<Rightarrow> nat \<Rightarrow> u32 \<times> u32" where
  "memcmp_loop m buf1 buf2 0 = (buf1, buf2)"
| "memcmp_loop m buf1 buf2 (Suc count) =
     (if m buf1 = m buf2 then memcmp_loop m (buf1 + 1) (buf2 + 1) count else (buf1, buf2))"

definition memcmp :: "vmem \<Rightarrow> u32 \<Rightarrow> u32 \<Rightarrow> u32 \<Rightarrow> int" where
  "memcmp m buf1 buf2 count =
     (if count = 0 then 0
      else let (buf1, buf2) = memcmp_loop m buf1 buf2 (unat count - 1)
           in uint (m buf1) - uint (m buf2))"

partial_function (option) strcmp :: "vmem \<Rightarrow> u32 \<Rightarrow> u32 \<Rightarrow> int option" where
  "strcmp m s1 s2 =
     (if m s1 = m s2
      then if m s1 = 0 then Some 0 else strcmp m (s1 + 1) (s2 + 1)
      else Some (uint (m s1) - uint (m s2)))"

function strlcpy_loop :: "vmem \<Rightarrow> u32 \<Rightarrow> u32 \<Rightarrow> u32 \<Rightarrow> u32 \<Rightarrow> vmem \<times> u32" where
  "strlcpy_loop m dst src dsize i =
     (if i < dsize
      then let m = m(dst + i := m (src + i))
           in if m (src + i) = 0 then (m, i) else strlcpy_loop m dst src dsize (i + 1)
      else (m, i))"
  by pat_completeness auto

lemma unat_diff_Suc_less: "(i :: u32) < n \<Longrightarrow> unat n - unat (i + 1) < unat n - unat i"
  by (simp add: unat_Suc_less word_less_nat_alt)

termination strlcpy_loop
  by (relation "measure (\<lambda>(m, dst, src, dsize, i). unat dsize - unat i)") (auto intro: unat_diff_Suc_less)

declare strlcpy_loop.simps [simp del]

definition strlcpy :: "vmem \<Rightarrow> u32 \<Rightarrow> u32 \<Rightarrow> u32 \<Rightarrow> vmem \<times> u32" where
  "strlcpy m dst src dsize = strlcpy_loop m dst src dsize 0"

section \<open>Windows\<close>

abbreviation in_window :: "u32 \<Rightarrow> u32 \<Rightarrow> u32 \<Rightarrow> bool" where
  "in_window p n a \<equiv> a - p < n"

lemma window_step:
  fixes a d n :: u32
  assumes "n \<noteq> 0" "a \<noteq> d"
  shows "a - (d + 1) < n - 1 \<longleftrightarrow> a - d < n"
proof -
  have "a - d \<noteq> 0" using assms(2) by simp
  then have "unat (a - d - 1) = unat (a - d) - 1" "0 < unat (a - d)" by (auto simp: unat_minus_one unat_gt_0)
  moreover have "unat (n - 1) = unat n - 1" "0 < unat n" using assms(1) by (auto simp: unat_minus_one unat_gt_0)
  ultimately show ?thesis by (simp add: word_less_nat_alt diff_diff_eq[symmetric]) linarith
qed

lemma memset_loop_window: "memset_loop m d c n a = (if in_window d n a then c else m a)"
proof (induction m d c n rule: memset_loop.induct)
  case (1 m d c n)
  show ?case
  proof (cases "n = 0")
    case False
    then have "memset_loop m d c n a = (if in_window (d + 1) (n - 1) a then c else (m(d := c)) a)"
      using 1[OF False] False by (subst memset_loop.simps) (simp add: fun_upd_def)
    also have "\<dots> = (if in_window d n a then c else m a)"
      using False window_step[OF False, of a d] by (cases "a = d") (auto simp: word_gt_0)
    finally show ?thesis .
  qed (simp add: memset_loop.simps)
qed

lemma memset_window: "memset m p c n a = (if in_window p n a then c else m a)"
  by (simp add: memset_def memset_loop_window)

section \<open>Forward copies\<close>

definition copied :: "vmem \<Rightarrow> u32 \<Rightarrow> u32 \<Rightarrow> nat \<Rightarrow> copy_state \<Rightarrow> bool" where
  "copied m0 d0 s0 k = (\<lambda>(m, d, s). d = d0 + of_nat k \<and> s = s0 + of_nat k \<and>
     (\<forall>a. m a = (if unat (a - d0) < k then m0 (s0 + (a - d0)) else m0 a)))"

lemma copied_0: "copied m d s 0 (m, d, s)"
  by (simp add: copied_def)

lemma unread_yet:
  fixes d0 s0 :: u32
  assumes apart: "n \<le> unat (d0 - s0)" and j: "k \<le> j" "j < n"
  shows "\<not> unat (s0 + of_nat j - d0) < k"
proof
  assume lt: "unat (s0 + of_nat j - d0) < k"
  define i where "i = unat (s0 + of_nat j - d0)"
  have "of_nat i = s0 + of_nat j - d0" by (simp add: i_def)
  then have "d0 - s0 = of_nat j - of_nat i" by (metis diff_diff_eq2 diff_add_cancel add_diff_cancel_left' add.commute)
  also have "\<dots> = of_nat (j - i)" using lt j(1) by (simp add: i_def of_nat_diff)
  finally have "unat (d0 - s0) \<le> j - i" by (simp add: unat_word_of_nat_le)
  then show False using apart j lt by (simp add: i_def)
qed

lemma copied_byte:
  assumes c: "copied m0 d0 s0 k st" and apart: "n \<le> unat (d0 - s0)" and k: "k < n"
  shows "copied m0 d0 s0 (Suc k) (copy_byte st)"
proof -
  obtain m d s where st: "st = (m, d, s)" by (cases st)
  have ds: "d = d0 + of_nat k" "s = s0 + of_nat k"
    and m: "\<And>a. m a = (if unat (a - d0) < k then m0 (s0 + (a - d0)) else m0 a)"
    using c by (auto simp: copied_def st)
  have "k < 2 ^ LENGTH(32)" using k apart unsigned_less[where 'a = nat, of "d0 - s0"] by linarith
  then have uk: "unat (of_nat k :: u32) = k" by (rule unat_word_of_nat_small)
  have "m s = m0 (s0 + of_nat k)" using unread_yet[OF apart order_refl k] by (simp add: m ds)
  moreover have "unat (a - d0) < Suc k \<longleftrightarrow> a = d \<or> unat (a - d0) < k" for a
  proof -
    have "unat (a - d0) = k \<longleftrightarrow> a - d0 = of_nat k" using uk by (metis word_of_nat_eq_iff unsigned_word_eqI)
    then show ?thesis by (auto simp: ds less_Suc_eq algebra_simps)
  qed
  ultimately show ?thesis by (auto simp: copied_def copy_byte_def st ds m uk)
qed

lemma copied_bytes:
  assumes "copied m0 d0 s0 k st" "n \<le> unat (d0 - s0)" "k + t \<le> n"
  shows "copied m0 d0 s0 (k + t) ((copy_byte ^^ t) st)"
  using assms(3)
proof (induction t)
  case (Suc t)
  then show ?case using copied_byte[OF Suc.IH assms(2)] by simp
qed (use assms(1) in simp)

text \<open>A word that is read before it is written is the same as four bytes.\<close>

lemma copy_word_bytes:
  assumes c: "copied m0 d0 s0 k st" and apart: "n \<le> unat (d0 - s0)" and k: "k + 4 \<le> n"
  shows "copy_word st = (copy_byte ^^ 4) st"
proof -
  obtain m d s where st: "st = (m, d, s)" by (cases st)
  have "unat (d0 - s0) < 2 ^ LENGTH(32)" by (rule unsigned_less)
  then have ne: "s + j \<noteq> d + i" if "unat i < unat j" "unat j < 4" for i j :: u32
  proof -
    have "s + j = d + i \<Longrightarrow> d0 - s0 = j - i" using c by (auto simp: copied_def st algebra_simps)
    moreover have "unat (j - i) < 4" using that by (simp add: unat_minus_le)
    ultimately show ?thesis using apart k by force
  qed
  have "s + 1 \<noteq> d" "s + 2 \<noteq> d" "s + 3 \<noteq> d" "s + 2 \<noteq> d + 1" "s + 3 \<noteq> d + 1" "s + 3 \<noteq> d + 2"
    using ne[of 0 1] ne[of 0 2] ne[of 0 3] ne[of 1 2] ne[of 1 3] ne[of 2 3] by simp_all
  then show ?thesis by (simp add: st copy_word_def copy_byte_def numeral_eq_Suc add.assoc)
qed

lemma copied_words:
  assumes "copied m0 d0 s0 k st" "n \<le> unat (d0 - s0)" "k + 4 * t \<le> n"
  shows "copied m0 d0 s0 (k + 4 * t) ((copy_word ^^ t) st)"
  using assms(3)
proof (induction t)
  case (Suc t)
  then have IH: "copied m0 d0 s0 (k + 4 * t) ((copy_word ^^ t) st)" by simp
  from copied_bytes[OF IH assms(2), of 4] copy_word_bytes[OF IH assms(2)] Suc.prems
  show ?case by (simp add: add.commute add.left_commute)
qed (use assms(1) in simp)

lemma copied_final:
  assumes "copied m0 d0 s0 (unat n) st"
  shows "fst st a = (if in_window d0 n a then m0 (s0 + (a - d0)) else m0 a)"
  using assms by (cases st) (auto simp: copied_def word_less_nat_alt)

lemma and_3_mod: "unat (n AND (3 :: u32)) = unat n mod 4"
proof -
  have "(3 :: u32) = mask 2" by (simp add: mask_eq_decr_exp)
  then have "unat (n AND 3) = unat (n AND mask 2)" by simp
  also have "\<dots> = unat n mod 2 ^ 2" by (rule unat_and_mask)
  finally show ?thesis by simp
qed

lemma memcpy_tail:
  assumes c: "copied m0 d0 s0 k st" and apart: "unat n \<le> unat (d0 - s0)" and k: "k + unat len = unat n"
  shows "copied m0 d0 s0 (unat n) (tloop copy_byte (len AND wmask) (tloop copy_word (len div wsize) st))"
proof -
  have t: "unat (len div 4) = unat len div 4" "unat (len AND 3) = unat len mod 4"
    by (simp_all add: unat_div and_3_mod)
  have "k + 4 * (unat len div 4) \<le> unat n" using k by linarith
  from copied_words[OF c apart this]
  have "copied m0 d0 s0 (k + 4 * (unat len div 4)) (tloop copy_word (len div wsize) st)" by (simp add: tloop_def t)
  from copied_bytes[OF this apart, of "unat len mod 4"] k
  show ?thesis by (simp add: tloop_def t add.assoc)
qed

lemma memcpy_window:
  assumes apart: "n \<le> dst - src \<or> dst = src"
  shows "memcpy m dst src n a = (if in_window dst n a then m (src + (a - dst)) else m a)"
proof (cases "n = 0 \<or> dst = src")
  case True
  then show ?thesis by (auto simp: memcpy_def)
next
  case False
  then have ap: "unat n \<le> unat (dst - src)" using apart by (simp add: word_le_nat_alt)
  define t where "t = (if (src OR dst) AND wmask = 0 then 0
    else if (src XOR dst) AND wmask \<noteq> 0 \<or> n < wsize then n else wsize - (src AND wmask))"
  have tn: "unat t \<le> unat n"
  proof -
    have "unat (src AND 3) \<le> 4" using and_3_mod[of src] by simp
    then have "unat (4 - (src AND 3)) \<le> 4" by (simp add: unat_minus_le)
    then show ?thesis by (auto simp: t_def word_less_nat_alt not_less)
  qed
  have "copied m dst src (unat t) (tloop copy_byte t (m, dst, src))"
    using copied_bytes[OF copied_0 ap, of "unat t"] tn by (simp add: tloop_def)
  then have "copied m dst src (unat n)
      (tloop copy_byte ((n - t) AND wmask) (tloop copy_word ((n - t) div wsize) (tloop copy_byte t (m, dst, src))))"
    by (rule memcpy_tail[OF _ ap]) (simp add: unat_minus_le tn)
  moreover have "memcpy m dst src n =
      fst (tloop copy_byte ((n - t) AND wmask) (tloop copy_word ((n - t) div wsize) (tloop copy_byte t (m, dst, src))))"
    using False by (auto simp: memcpy_def t_def tloop_def Let_def)
  ultimately show ?thesis by (simp only: copied_final)
qed

section \<open>Backward copies\<close>

lemma sum_wraps: "(p + q) mod 2 ^ 32 = 0 \<Longrightarrow> p < 2 ^ 32 \<Longrightarrow> q < 2 ^ 32 \<Longrightarrow> 0 < p \<Longrightarrow> p + q = (2 ^ 32 :: nat)"
  by (auto simp: mod_eq_0_iff_dvd elim!: dvdE)

lemma unat_diff_swap:
  fixes x y :: u32
  assumes "x \<noteq> y"
  shows "unat (y - x) = 2 ^ 32 - unat (x - y)"
proof -
  have "(unat (x - y) + unat (y - x)) mod 2 ^ 32 = 0"
    using unat_word_ariths(1)[of "x - y" "y - x"] by simp
  moreover have "unat (x - y) < 2 ^ 32" "unat (y - x) < 2 ^ 32"
    using unsigned_less[where 'a = nat, of "x - y"] unsigned_less[where 'a = nat, of "y - x"] by simp_all
  moreover have "0 < unat (x - y)" using assms by (simp add: unat_gt_0)
  ultimately have "unat (x - y) + unat (y - x) = 2 ^ 32" by (rule sum_wraps)
  then show ?thesis by linarith
qed

text \<open>\<open>j\<close> bytes are still to be copied, those from \<open>j\<close> on have been.\<close>

definition copied_down :: "vmem \<Rightarrow> u32 \<Rightarrow> u32 \<Rightarrow> nat \<Rightarrow> nat \<Rightarrow> copy_state \<Rightarrow> bool" where
  "copied_down m0 d0 s0 n j = (\<lambda>(m, d, s). d = d0 + of_nat j \<and> s = s0 + of_nat j \<and>
     (\<forall>a. m a = (if j \<le> unat (a - d0) \<and> unat (a - d0) < n then m0 (s0 + (a - d0)) else m0 a)))"

lemma copied_down_step:
  assumes c: "copied_down m0 d0 s0 n (Suc j) st" and j: "Suc j \<le> n" "n < 2 ^ 32"
    and apart: "0 < unat (d0 - s0)" "unat (d0 - s0) + n \<le> 2 ^ 32"
  shows "copied_down m0 d0 s0 n j (copy_back st)"
proof -
  obtain m d s where st: "st = (m, d, s)" by (cases st)
  have ds: "d - 1 = d0 + of_nat j" "s - 1 = s0 + of_nat j"
    and m: "\<And>a. m a = (if Suc j \<le> unat (a - d0) \<and> unat (a - d0) < n then m0 (s0 + (a - d0)) else m0 a)"
    using c by (auto simp: copied_down_def st)
  have uj: "unat (of_nat i :: u32) = i" if "i < n" for i using that j by (intro unat_word_of_nat_small) simp
  have "\<not> (Suc j \<le> unat (s0 + of_nat j - d0) \<and> unat (s0 + of_nat j - d0) < n)"
  proof
    assume a: "Suc j \<le> unat (s0 + of_nat j - d0) \<and> unat (s0 + of_nat j - d0) < n"
    define i where "i = unat (s0 + of_nat j - d0)"
    have "s0 - d0 = of_nat i - of_nat j" by (simp add: i_def)
    also have "\<dots> = of_nat (i - j)" using a by (simp add: i_def of_nat_diff)
    finally have "unat (s0 - d0) = i - j" using a uj[of "i - j"] j by (simp add: i_def less_imp_diff_less)
    moreover have "unat (s0 - d0) = 2 ^ 32 - unat (d0 - s0)"
      using apart(1) by (intro unat_diff_swap) auto
    ultimately show False using a apart(2) by (simp add: i_def) linarith
  qed
  then have ms: "m (s - 1) = m0 (s0 + of_nat j)" by (simp only: ds m if_False)
  have iff: "j \<le> unat (a - d0) \<and> unat (a - d0) < n \<longleftrightarrow>
      a = d - 1 \<or> Suc j \<le> unat (a - d0) \<and> unat (a - d0) < n" for a
  proof -
    have "unat (a - d0) = j \<longleftrightarrow> a - d0 = of_nat j" using uj[of j] j by (metis Suc_le_lessD word_of_nat_eq_iff unsigned_word_eqI)
    then have "unat (a - d0) = j \<longleftrightarrow> a = d - 1" by (auto simp: ds algebra_simps)
    then show ?thesis using j by (metis Suc_le_eq le_eq_less_or_eq)
  qed
  have "(m(d - 1 := m (s - 1))) a =
      (if j \<le> unat (a - d0) \<and> unat (a - d0) < n then m0 (s0 + (a - d0)) else m0 a)" for a
  proof (cases "a = d - 1")
    case True
    then show ?thesis using iff[of a] ms by (simp add: ds)
  next
    case False
    then show ?thesis unfolding iff[of a] by (simp add: m)
  qed
  then show ?thesis unfolding copied_down_def copy_back_def st using ds by simp
qed

lemma copied_down_all:
  assumes "n < 2 ^ 32" "0 < unat (d0 - s0)" "unat (d0 - s0) + n \<le> 2 ^ 32" "k \<le> n"
  shows "copied_down m d0 s0 n (n - k) ((copy_back ^^ k) (m, d0 + of_nat n, s0 + of_nat n))"
  using assms(4)
proof (induction k)
  case (Suc k)
  then have "copied_down m d0 s0 n (Suc (n - Suc k)) ((copy_back ^^ k) (m, d0 + of_nat n, s0 + of_nat n))"
    by (simp add: Suc_diff_Suc)
  then show ?case using copied_down_step[OF _ _ assms(1-3)] Suc.prems by simp
qed (auto simp: copied_down_def)

lemma memmove_window:
  assumes fits: "unat src + unat n < 2 ^ 32" "unat dst + unat n \<le> 2 ^ 32"
  shows "memmove m dst src n a = (if in_window dst n a then m (src + (a - dst)) else m a)"
proof (cases "src < dst \<and> src + n > dst")
  case True
  have "unat (src + n) = unat src + unat n" using fits(1) by (intro unat_plus_small) simp
  then have b: "unat src < unat dst" "unat dst < unat src + unat n" using True by (auto simp: word_less_nat_alt)
  have ds: "unat (dst - src) = unat dst - unat src" using b by (simp add: unat_minus_le)
  have "copied_down m dst src (unat n) 0 ((copy_back ^^ unat n) (m, dst + of_nat (unat n), src + of_nat (unat n)))"
    using copied_down_all[of "unat n" dst src "unat n" m] ds b fits by simp
  then show ?thesis using True
    by (cases "(copy_back ^^ unat n) (m, dst + n, src + n)")
      (simp add: memmove_def tloop_def copied_down_def word_less_nat_alt)
next
  case False
  have "unat (src + n) = unat src + unat n" using fits(1) by (intro unat_plus_small) simp
  then have b: "unat dst \<le> unat src \<or> unat src + unat n \<le> unat dst" using False by (auto simp: word_less_nat_alt not_less)
  show ?thesis
  proof (cases "dst = src")
    case True
    have "(copy_byte ^^ k) (m, src, src) = (m, src + of_nat k, src + of_nat k)" for k
      by (induction k) (simp_all add: copy_byte_def algebra_simps)
    then show ?thesis using False True by (simp add: memmove_def tloop_def)
  next
    case ne: False
    have "unat n \<le> unat (dst - src)"
    proof (cases "unat src + unat n \<le> unat dst")
      case True
      then show ?thesis by (simp add: unat_minus_le)
    next
      case False
      then have lt: "unat dst < unat src" using b ne by (metis le_neq_implies_less unsigned_word_eqI)
      then have "unat (dst - src) = 2 ^ 32 - (unat src - unat dst)"
        using unat_diff_swap[of src dst] ne by (simp add: unat_minus_le)
      then show ?thesis using fits(1) lt by linarith
    qed
    then have "copied m dst src (unat n) (tloop copy_byte n (m, dst, src))"
      using copied_bytes[OF copied_0, of "unat n" dst src "unat n" m] by (simp add: tloop_def)
    then show ?thesis using False by (auto simp: memmove_def copied_final)
  qed
qed

section \<open>Comparisons\<close>

lemma memcmp_loop_result:
  "\<exists>k\<le>count. memcmp_loop m b1 b2 count = (b1 + of_nat k, b2 + of_nat k) \<and>
     (\<forall>i<k. m (b1 + of_nat i) = m (b2 + of_nat i)) \<and> (k = count \<or> m (b1 + of_nat k) \<noteq> m (b2 + of_nat k))"
proof (induction count arbitrary: b1 b2)
  case (Suc count)
  show ?case
  proof (cases "m b1 = m b2")
    case True
    obtain k where k: "k \<le> count" "memcmp_loop m (b1 + 1) (b2 + 1) count = (b1 + 1 + of_nat k, b2 + 1 + of_nat k)"
      "\<forall>i<k. m (b1 + 1 + of_nat i) = m (b2 + 1 + of_nat i)"
      "k = count \<or> m (b1 + 1 + of_nat k) \<noteq> m (b2 + 1 + of_nat k)"
      using Suc.IH[of "b1 + 1" "b2 + 1"] by blast
    have "m (b1 + of_nat i) = m (b2 + of_nat i)" if "i < Suc k" for i
      using that True k(3) by (cases i) (auto simp: add.assoc)
    then show ?thesis using k True by (intro exI[of _ "Suc k"]) (auto simp: add.assoc)
  qed (auto intro: exI[of _ 0])
qed auto

text \<open>The sign of the first difference, 0 if there is none.\<close>

lemma memcmp_eq_0: "memcmp m b1 b2 n = 0 \<longleftrightarrow> (\<forall>i<unat n. m (b1 + of_nat i) = m (b2 + of_nat i))"
  and memcmp_first_difference:
    "k < unat n \<Longrightarrow> (\<forall>i<k. m (b1 + of_nat i) = m (b2 + of_nat i)) \<Longrightarrow> m (b1 + of_nat k) \<noteq> m (b2 + of_nat k)
     \<Longrightarrow> memcmp m b1 b2 n = uint (m (b1 + of_nat k)) - uint (m (b2 + of_nat k))"
proof -
  obtain j where j: "j \<le> unat n - 1" "memcmp_loop m b1 b2 (unat n - 1) = (b1 + of_nat j, b2 + of_nat j)"
    "\<forall>i<j. m (b1 + of_nat i) = m (b2 + of_nat i)"
    "j = unat n - 1 \<or> m (b1 + of_nat j) \<noteq> m (b2 + of_nat j)"
    using memcmp_loop_result by blast
  have val: "memcmp m b1 b2 n = (if n = 0 then 0 else uint (m (b1 + of_nat j)) - uint (m (b2 + of_nat j)))"
    unfolding memcmp_def j(2) by simp
  have n: "n \<noteq> 0 \<Longrightarrow> j < unat n" using j(1) unat_minus_1[of n] by linarith
  show "memcmp m b1 b2 n = 0 \<longleftrightarrow> (\<forall>i<unat n. m (b1 + of_nat i) = m (b2 + of_nat i))"
  proof (cases "n = 0")
    case False
    have "uint (m (b1 + of_nat j)) = uint (m (b2 + of_nat j)) \<longleftrightarrow> m (b1 + of_nat j) = m (b2 + of_nat j)"
      by (auto dest: unsigned_word_eqI)
    moreover have "i < j \<or> i = j" if "i < unat n" "j = unat n - 1" for i using that by linarith
    ultimately show ?thesis using val False j n by fastforce
  qed (use val in simp)
  assume k: "k < unat n" "\<forall>i<k. m (b1 + of_nat i) = m (b2 + of_nat i)" "m (b1 + of_nat k) \<noteq> m (b2 + of_nat k)"
  then have "j = k" using j by (metis linorder_neqE_nat Suc_pred' diff_Suc_1 less_Suc_eq not_less0 neq0_conv)
  then show "memcmp m b1 b2 n = uint (m (b1 + of_nat k)) - uint (m (b2 + of_nat k))" using val k(1) by auto
qed

text \<open>The bytes of a string at an address.\<close>

fun cstring :: "vmem \<Rightarrow> u32 \<Rightarrow> u8 list \<Rightarrow> bool" where
  "cstring m p [] \<longleftrightarrow> m p = 0"
| "cstring m p (x # xs) \<longleftrightarrow> x \<noteq> 0 \<and> m p = x \<and> cstring m (p + 1) xs"

fun lex_diff :: "u8 list \<Rightarrow> u8 list \<Rightarrow> int" where
  "lex_diff [] [] = 0"
| "lex_diff [] (y # ys) = - uint y"
| "lex_diff (x # xs) [] = uint x"
| "lex_diff (x # xs) (y # ys) = (if x = y then lex_diff xs ys else uint x - uint y)"

lemma strcmp_strings: "cstring m p xs \<Longrightarrow> cstring m q ys \<Longrightarrow> strcmp m p q = Some (lex_diff xs ys)"
proof (induction xs ys arbitrary: p q rule: lex_diff.induct)
  case (2 y ys)
  then show ?case by (auto simp: strcmp.simps[of m p])
next
  case (3 x xs)
  then show ?case by (auto simp: strcmp.simps[of m p])
next
  case (4 x xs y ys)
  then show ?case by (auto simp: strcmp.simps[of m p])
qed (simp add: strcmp.simps)

lemma lex_diff_eq_0: "0 \<notin> set xs \<Longrightarrow> 0 \<notin> set ys \<Longrightarrow> lex_diff xs ys = 0 \<longleftrightarrow> xs = ys"
  by (induction xs ys rule: lex_diff.induct) (auto simp: unsigned_eq_0_iff dest: unsigned_word_eqI)

lemma cstring_end: "cstring m p xs \<Longrightarrow> i \<le> length xs \<Longrightarrow> m (p + of_nat i) = 0 \<longleftrightarrow> i = length xs"
proof (induction xs arbitrary: p i)
  case (Cons x xs)
  then show ?case using Cons.IH[of "p + 1" "i - 1"] by (cases i) (auto simp: add.assoc)
qed simp

text \<open>
  \<^verbatim>\<open>strlcpy\<close> copies the string and its terminator if they fit in \<open>dsize\<close> bytes; otherwise it
  copies \<open>dsize\<close> bytes and no terminator.
\<close>

lemma strlcpy_loop_result:
  assumes "cstring m0 src xs" "unat dsize \<le> unat (dst - src)"
    "copied m0 dst src (unat i) (m, dst + i, src + i)" "unat i \<le> length xs" "unat i \<le> unat dsize"
  shows "\<exists>m'. strlcpy_loop m dst src dsize i = (m', of_nat (min (length xs) (unat dsize))) \<and>
    (\<exists>d s. copied m0 dst src (min (Suc (length xs)) (unat dsize)) (m', d, s))"
  using assms
proof (induction m dst src dsize i rule: strlcpy_loop.induct)
  case (1 m dst src dsize i)
  show ?case
  proof (cases "i < dsize")
    case False
    then have "unat i = unat dsize" using "1.prems"(5) by (simp add: word_less_nat_alt)
    then have "i = dsize" "min (Suc (length xs)) (unat dsize) = unat i" "min (length xs) (unat dsize) = unat i"
      using "1.prems"(4) by (auto dest: unsigned_word_eqI)
    then show ?thesis using False "1.prems"(3) by (subst strlcpy_loop.simps) auto
  next
    case True
    then have i: "unat i < unat dsize" by (simp add: word_less_nat_alt)
    let ?m = "m(dst + i := m (src + i))"
    have c: "copied m0 dst src (Suc (unat i)) (?m, dst + (i + 1), src + (i + 1))"
      using copied_byte[OF "1.prems"(3,2) i] by (simp add: copy_byte_def add.assoc)
    have "m (src + i) = m0 (src + i)"
      using "1.prems"(3) unread_yet[OF "1.prems"(2) order_refl i] by (auto simp: copied_def)
    moreover have "dst \<noteq> src" using "1.prems"(2) i by auto
    ultimately have nul: "?m (src + i) = 0 \<longleftrightarrow> unat i = length xs"
      using cstring_end[OF "1.prems"(1,4)] by simp
    have eq: "strlcpy_loop m dst src dsize i =
        (if ?m (src + i) = 0 then (?m, i) else strlcpy_loop ?m dst src dsize (i + 1))"
      by (subst strlcpy_loop.simps) (simp add: True Let_def)
    show ?thesis
    proof (cases "unat i = length xs")
      case True
      then have "min (length xs) (unat dsize) = unat i" "min (Suc (length xs)) (unat dsize) = Suc (unat i)"
        using i by auto
      moreover have "of_nat (unat i) = i" by simp
      moreover have "strlcpy_loop m dst src dsize i = (?m, i)" using True nul eq by simp
      ultimately show ?thesis using c by metis
    next
      case False
      have u: "unat (i + 1) = Suc (unat i)" by (rule unat_Suc_less[OF True])
      have "\<exists>m'. strlcpy_loop ?m dst src dsize (i + 1) = (m', of_nat (min (length xs) (unat dsize))) \<and>
          (\<exists>d s. copied m0 dst src (min (Suc (length xs)) (unat dsize)) (m', d, s))"
        using False nul c i "1.prems" u by (intro "1.IH"[OF True refl]) (auto simp: fun_upd_def)
      then show ?thesis using False nul eq by simp
    qed
  qed
qed

lemma strlcpy_result:
  assumes "cstring m src xs" "dsize \<le> dst - src"
  obtains m' where "strlcpy m dst src dsize = (m', of_nat (min (length xs) (unat dsize)))"
    "\<And>a. m' a = (if unat (a - dst) < min (Suc (length xs)) (unat dsize) then m (src + (a - dst)) else m a)"
  using strlcpy_loop_result[of m src xs dsize dst 0 m] assms
  by (auto simp: strlcpy_def copied_def word_le_nat_alt)

end
