(* ===== verification/Cpu.thy ===== *)
theory Cpu
  imports Libc
begin

text \<open>
  The processor and the port devices as \<^verbatim>\<open>include/arch/i386/asm.h\<close> uses them. The machine
  has a memory of bytes, the registers that the inline assembly touches, and the trace
  of port accesses and of accesses to device registers in memory; the devices are two functions
  of the trace so far and the port, or the address, which give the value of the next read.
\<close>

section \<open>Memory words\<close>

definition load32 :: "vmem \<Rightarrow> u32 \<Rightarrow> u32" where
  "load32 m a = ucast (m a) OR push_bit 8 (ucast (m (a + 1))) OR
     push_bit 16 (ucast (m (a + 2))) OR push_bit 24 (ucast (m (a + 3)))"

definition store32 :: "vmem \<Rightarrow> u32 \<Rightarrow> u32 \<Rightarrow> vmem" where
  "store32 m a v = m(a := ucast v, a + 1 := ucast (drop_bit 8 v),
     a + 2 := ucast (drop_bit 16 v), a + 3 := ucast (drop_bit 24 v))"

definition load16 :: "vmem \<Rightarrow> u32 \<Rightarrow> u16" where
  "load16 m a = ucast (m a) OR push_bit 8 (ucast (m (a + 1)))"

definition store16 :: "vmem \<Rightarrow> u32 \<Rightarrow> u16 \<Rightarrow> vmem" where
  "store16 m a v = m(a := ucast v, a + 1 := ucast (drop_bit 8 v))"

section \<open>Flags\<close>

abbreviation (input) FL_IF :: u32 where "FL_IF \<equiv> 0x200"
abbreviation (input) CR0_PG :: u32 where "CR0_PG \<equiv> 0x80000000"
abbreviation (input) CR0_WP :: u32 where "CR0_WP \<equiv> 0x10000"
abbreviation (input) CR4_PSE :: u32 where "CR4_PSE \<equiv> 0x10"

section \<open>The machine\<close>

datatype io =
    In8 u16 u8 | In16 u16 u16 | In32 u16 u32
  | Out8 u16 u8 | Out16 u16 u16 | Out32 u16 u32
  | Mmio_Read u32 u32 | Mmio_Write u32 u32

record mach =
  mem :: vmem
  eflags :: u32
  cr0 :: u32
  cr2 :: u32
  cr3 :: u32
  cr4 :: u32
  gs :: u16
  tr :: u16
  idtr :: "u16 \<times> u32"
  gdtr :: "u16 \<times> u32"
  trace :: "io list"
  devices :: "io list \<Rightarrow> u16 \<Rightarrow> u32"
  mmio :: "io list \<Rightarrow> u32 \<Rightarrow> u32"

definition log_io :: "io \<Rightarrow> mach \<Rightarrow> mach" where
  "log_io e s = s\<lparr>trace := trace s @ [e]\<rparr>"

section \<open>Port input and output\<close>

definition inb :: "u16 \<Rightarrow> mach \<Rightarrow> u8 \<times> mach" where
  "inb port s = (let data = ucast (devices s (trace s) port) in (data, log_io (In8 port data) s))"

definition inw :: "u16 \<Rightarrow> mach \<Rightarrow> u16 \<times> mach" where
  "inw port s = (let data = ucast (devices s (trace s) port) in (data, log_io (In16 port data) s))"

definition inl :: "u16 \<Rightarrow> mach \<Rightarrow> u32 \<times> mach" where
  "inl port s = (let data = devices s (trace s) port in (data, log_io (In32 port data) s))"

definition outb :: "u16 \<Rightarrow> u8 \<Rightarrow> mach \<Rightarrow> mach" where
  "outb port data = log_io (Out8 port data)"

definition outw :: "u16 \<Rightarrow> u16 \<Rightarrow> mach \<Rightarrow> mach" where
  "outw port data = log_io (Out16 port data)"

text \<open>The parameter of \<^verbatim>\<open>outl\<close> is a \<^verbatim>\<open>uint8_t\<close>: only a byte reaches the 32-bit port.\<close>

definition outl :: "u16 \<Rightarrow> u8 \<Rightarrow> mach \<Rightarrow> mach" where
  "outl port data = log_io (Out32 port (ucast data))"

text \<open>The trace after \<open>n\<close> reads of the same port.\<close>

primrec polled :: "(io list \<Rightarrow> u16 \<Rightarrow> u32) \<Rightarrow> u16 \<Rightarrow> nat \<Rightarrow> io list \<Rightarrow> io list" where
  "polled dev port 0 t = t"
| "polled dev port (Suc n) t = polled dev port n (t @ [In8 port (ucast (dev t port))])"

text \<open>Loads and stores of \<^verbatim>\<open>volatile\<close> device registers that are mapped into memory.\<close>

definition mmio_read :: "u32 \<Rightarrow> mach \<Rightarrow> u32 \<times> mach" where
  "mmio_read a s = (let v = mmio s (trace s) a in (v, log_io (Mmio_Read a v) s))"

definition mmio_write :: "u32 \<Rightarrow> u32 \<Rightarrow> mach \<Rightarrow> mach" where
  "mmio_write a v = log_io (Mmio_Write a v)"

text \<open>The repeated string instructions; \<^verbatim>\<open>ecx\<close> counts down from \<^verbatim>\<open>cnt\<close>.\<close>

primrec insl_rep :: "nat \<Rightarrow> u16 \<Rightarrow> u32 \<Rightarrow> mach \<Rightarrow> mach" where
  "insl_rep 0 port addr s = s"
| "insl_rep (Suc cnt) port addr s =
     (let (v, s) = inl port s; s = s\<lparr>mem := store32 (mem s) addr v\<rparr>
      in insl_rep cnt port (addr + 4) s)"

definition insl :: "u32 \<Rightarrow> u32 \<Rightarrow> u32 \<Rightarrow> mach \<Rightarrow> mach" where
  "insl port addr cnt = insl_rep (unat cnt) (ucast port) addr"

primrec outsl_rep :: "nat \<Rightarrow> u16 \<Rightarrow> u32 \<Rightarrow> mach \<Rightarrow> mach" where
  "outsl_rep 0 port addr s = s"
| "outsl_rep (Suc cnt) port addr s =
     outsl_rep cnt port (addr + 4) (log_io (Out32 port (load32 (mem s) addr)) s)"

definition outsl :: "u32 \<Rightarrow> u32 \<Rightarrow> u32 \<Rightarrow> mach \<Rightarrow> mach" where
  "outsl port addr cnt = outsl_rep (unat cnt) (ucast port) addr"

primrec stosb_rep :: "nat \<Rightarrow> u32 \<Rightarrow> u8 \<Rightarrow> vmem \<Rightarrow> vmem" where
  "stosb_rep 0 addr data m = m"
| "stosb_rep (Suc cnt) addr data m = stosb_rep cnt (addr + 1) data (m(addr := data))"

definition stosb :: "u32 \<Rightarrow> u32 \<Rightarrow> u32 \<Rightarrow> mach \<Rightarrow> mach" where
  "stosb addr data cnt s = s\<lparr>mem := stosb_rep (unat cnt) addr (ucast data) (mem s)\<rparr>"

primrec stosl_rep :: "nat \<Rightarrow> u32 \<Rightarrow> u32 \<Rightarrow> vmem \<Rightarrow> vmem" where
  "stosl_rep 0 addr data m = m"
| "stosl_rep (Suc cnt) addr data m = stosl_rep cnt (addr + 4) data (store32 m addr data)"

definition stosl :: "u32 \<Rightarrow> u32 \<Rightarrow> u32 \<Rightarrow> mach \<Rightarrow> mach" where
  "stosl addr data cnt s = s\<lparr>mem := stosl_rep (unat cnt) addr data (mem s)\<rparr>"

section \<open>Descriptor tables and registers\<close>

text \<open>The six bytes of the operand of \<^verbatim>\<open>lidt\<close> and \<^verbatim>\<open>lgdt\<close> as three half-words.\<close>

definition pseudo_descriptor :: "u32 \<Rightarrow> u32 \<Rightarrow> u16 \<times> u16 \<times> u16" where
  "pseudo_descriptor p sz = (ucast (sz - 1), ucast p, ucast (drop_bit 16 p))"

definition load_descriptor :: "u16 \<times> u16 \<times> u16 \<Rightarrow> u16 \<times> u32" where
  "load_descriptor = (\<lambda>(pd0, pd1, pd2). (pd0, ucast pd1 OR push_bit 16 (ucast pd2)))"

definition lidt :: "u32 \<Rightarrow> u32 \<Rightarrow> mach \<Rightarrow> mach" where
  "lidt p sz s = s\<lparr>idtr := load_descriptor (pseudo_descriptor p sz)\<rparr>"

definition write_idtr :: "u32 \<Rightarrow> u32 \<Rightarrow> mach \<Rightarrow> mach" where
  "write_idtr addr sz s = s\<lparr>idtr := load_descriptor (pseudo_descriptor addr sz)\<rparr>"

definition lgdt :: "u32 \<Rightarrow> u32 \<Rightarrow> mach \<Rightarrow> mach" where
  "lgdt p sz s = s\<lparr>gdtr := load_descriptor (pseudo_descriptor p sz)\<rparr>"

definition ltr :: "u16 \<Rightarrow> mach \<Rightarrow> mach" where
  "ltr sel s = s\<lparr>tr := sel\<rparr>"

definition loadgs :: "u16 \<Rightarrow> mach \<Rightarrow> mach" where
  "loadgs v s = s\<lparr>gs := v\<rparr>"

definition readeflags :: "mach \<Rightarrow> u32" where
  "readeflags s = eflags s"

definition seteflags :: "u32 \<Rightarrow> mach \<Rightarrow> mach" where
  "seteflags v s = s\<lparr>eflags := v\<rparr>"

definition cli :: "mach \<Rightarrow> mach" where
  "cli s = s\<lparr>eflags := eflags s AND NOT FL_IF\<rparr>"

definition sti :: "mach \<Rightarrow> mach" where
  "sti s = s\<lparr>eflags := eflags s OR FL_IF\<rparr>"

definition xchg :: "u32 \<Rightarrow> u32 \<Rightarrow> mach \<Rightarrow> u32 \<times> mach" where
  "xchg addr newval s = (load32 (mem s) addr, s\<lparr>mem := store32 (mem s) addr newval\<rparr>)"

definition rcr2 :: "mach \<Rightarrow> u32" where
  "rcr2 s = cr2 s"

definition lcr3 :: "u32 \<Rightarrow> mach \<Rightarrow> mach" where
  "lcr3 v s = s\<lparr>cr3 := v\<rparr>"

text \<open>Whether interrupts are delivered.\<close>

definition irq_enabled :: "mach \<Rightarrow> bool" where
  "irq_enabled s \<longleftrightarrow> eflags s AND FL_IF \<noteq> 0"

section \<open>Loads after stores\<close>

lemma load32_bits:
  "bit (load32 m a) i \<longleftrightarrow>
     (if i < 8 then bit (m a) i else if i < 16 then bit (m (a + 1)) (i - 8)
      else if i < 24 then bit (m (a + 2)) (i - 16) else i < 32 \<and> bit (m (a + 3)) (i - 24))"
  unfolding load32_def
  by (auto simp: bit_simps dest: bit_imp_le_length)

lemma load32_store32 [simp]: "load32 (store32 m a v) a = v"
proof -
  have ne: "a + 1 \<noteq> a" "a + 2 \<noteq> a" "a + 3 \<noteq> a" "a + 1 \<noteq> a + 2" "a + 1 \<noteq> a + 3" "a + 2 \<noteq> a + 3" by simp_all
  show ?thesis
    by (rule bit_word_eqI) (simp only: load32_bits, auto simp: store32_def ne bit_simps)
qed

lemma store32_other:
  "b \<notin> {a, a + 1, a + 2, a + 3} \<Longrightarrow> store32 m a v b = m b"
  by (simp add: store32_def)

lemma load16_store16 [simp]: "load16 (store16 m a v) a = v"
proof -
  have "a + 1 \<noteq> a" by simp
  then show ?thesis unfolding load16_def store16_def by (intro bit_word_eqI) (auto simp: bit_simps)
qed

text \<open>The words of two aligned addresses are equal or disjoint.\<close>

lemma aligned_words_disjoint:
  fixes a b :: u32
  assumes "unat a mod 4 = 0" "unat b mod 4 = 0" "a \<noteq> b"
  shows "{a, a + 1, a + 2, a + 3} \<inter> {b, b + 1, b + 2, b + 3} = {}"
proof -
  have u: "unat (a + of_nat i) = unat a + i" if "i < 4" "unat a mod 4 = 0" for i and a :: u32
  proof -
    have "unat a < 4294967296" using unsigned_less[where 'a = nat, of a] by simp
    then have "unat a + i < 4294967296" using that by presburger
    then show ?thesis using that by (simp add: unat_plus_small unat_word_of_nat_small)
  qed
  have "unat a \<noteq> unat b" using assms(3) by (auto dest: unsigned_word_eqI)
  then have "unat a + i \<noteq> unat b + j" if "i < 4" "j < 4" for i j
    using assms(1,2) that by presburger
  then have ne: "a + of_nat i \<noteq> b + of_nat j" if "i < 4" "j < 4" for i j
    using that u[of i a] u[of j b] assms(1,2) by metis
  have cells: "{a, a + 1, a + 2, a + 3} = (\<lambda>i. a + of_nat i) ` {0, 1, 2, 3}" for a :: u32 by simp
  show ?thesis unfolding cells
  proof (rule ccontr)
    assume "(\<lambda>i. a + of_nat i) ` {0, 1, 2, 3} \<inter> (\<lambda>i. b + of_nat i) ` {0, 1, 2, 3} \<noteq> {}"
    then obtain i j :: nat where "i \<in> {0, 1, 2, 3}" "j \<in> {0, 1, 2, 3}" "a + of_nat i = b + of_nat j" by blast
    moreover from this(1,2) have "i < 4" "j < 4" by auto
    ultimately show False using ne by blast
  qed
qed

lemma load32_store32_other:
  assumes "unat a mod 4 = 0" "unat b mod 4 = 0" "a \<noteq> b"
  shows "load32 (store32 m a v) b = load32 m b"
proof -
  have d: "{a, a + 1, a + 2, a + 3} \<inter> {b, b + 1, b + 2, b + 3} = {}" by (rule aligned_words_disjoint[OF assms])
  have "store32 m a v c = m c" if "c \<in> {b, b + 1, b + 2, b + 3}" for c
    using that d by (intro store32_other) blast
  then show ?thesis by (simp add: load32_def)
qed

section \<open>The instructions\<close>

lemma stosb_rep_window: "n < 2 ^ 32 \<Longrightarrow> stosb_rep n a c m x = (if unat (x - a) < n then c else m x)"
proof (induction n arbitrary: a m)
  case (Suc n)
  have "unat (x - (a + 1)) < n \<longleftrightarrow> x \<noteq> a \<and> unat (x - a) < Suc n"
  proof (cases "x = a")
    case True
    then show ?thesis using Suc.prems by (simp add: unsigned_minus_1_eq_mask mask_eq_exp_minus_1)
  next
    case False
    then have "unat (x - a - 1) = unat (x - a) - 1" "0 < unat (x - a)" by (auto simp: unat_minus_1)
    then show ?thesis using False by (simp add: diff_diff_eq[symmetric]) linarith
  qed
  then show ?case using Suc by auto
qed simp

text \<open>\<^verbatim>\<open>rep stosb\<close> does what the C loop of \<^verbatim>\<open>memset\<close> does.\<close>

lemma stosb_memset: "mem (stosb a c n s) = memset (mem s) a (ucast c) n"
  using unsigned_less[where 'a = nat, of n]
  by (intro ext) (simp add: stosb_def memset_window stosb_rep_window word_less_nat_alt)

lemma load_descriptor_table:
  assumes "0 < sz" "unat sz \<le> 2 ^ 16"
  shows "load_descriptor (pseudo_descriptor p sz) = (of_nat (unat sz - 1), p)"
proof -
  have "ucast (ucast p :: u16) OR push_bit 16 (ucast (ucast (drop_bit 16 p) :: u16)) = p"
    by (rule bit_word_eqI) (auto simp: bit_simps)
  moreover have "(ucast (sz - 1) :: u16) = of_nat (unat sz - 1)"
    using unat_minus_1(1)[of sz] assms(1) by (metis less_irrefl of_nat_unat)
  ultimately show ?thesis by (simp add: load_descriptor_def pseudo_descriptor_def)
qed

lemma irq_enabled_cli [simp]: "\<not> irq_enabled (cli s)"
  by (simp add: irq_enabled_def cli_def and.assoc)

lemma irq_enabled_sti [simp]: "irq_enabled (sti s)"
proof -
  have "(x OR y) AND y = y" for x y :: u32 by (rule bit_word_eqI) (auto simp: bit_and_iff bit_or_iff)
  then show ?thesis by (simp add: irq_enabled_def sti_def)
qed

end
