(* ===== verification/Boot.thy ===== *)
theory Boot
  imports Cpu "HOL-Library.Monad_Syntax"
begin

text \<open>
  The second stage of the boot loader (\<^verbatim>\<open>boot/bootmain.c\<close>): it reads the
  kernel image from the active disk through the ports of the ATA controller, copies the segments to
  their physical addresses and enters the kernel. Loops that poll the controller do not
  return when it never becomes ready; not returning is the value \<^term>\<open>None\<close>.
\<close>

section \<open>Layout of the image\<close>

definition SECTSIZE :: u32 where "SECTSIZE = 512"

text \<open>The fields of \<^verbatim>\<open>struct elf32hdr\<close> and \<^verbatim>\<open>struct elf32_phdr\<close> that the loader reads.\<close>

definition e_entry :: "vmem \<Rightarrow> u32 \<Rightarrow> u32" where "e_entry m elf = load32 m (elf + 24)"
definition e_phoff :: "vmem \<Rightarrow> u32 \<Rightarrow> u32" where "e_phoff m elf = load32 m (elf + 28)"
definition e_phnum :: "vmem \<Rightarrow> u32 \<Rightarrow> u16" where "e_phnum m elf = load16 m (elf + 44)"

definition sizeof_phdr :: u32 where "sizeof_phdr = 32"

record elf32_phdr =
  p_offset :: u32
  p_paddr :: u32
  p_filesz :: u32
  p_memsz :: u32

definition phdr_at :: "vmem \<Rightarrow> u32 \<Rightarrow> elf32_phdr" where
  "phdr_at m ph = \<lparr>p_offset = load32 m (ph + 4), p_paddr = load32 m (ph + 12),
     p_filesz = load32 m (ph + 16), p_memsz = load32 m (ph + 20)\<rparr>"

text \<open>The entry of the partition table at \<^verbatim>\<open>0x7c00 + 0x1be\<close>; each entry has 16 bytes.\<close>

definition LBA_of_first_absolute_sector :: "vmem \<Rightarrow> u32 \<Rightarrow> u32" where
  "LBA_of_first_absolute_sector m pe = load32 m (pe + 8)"

section \<open>The loader\<close>

partial_function (option) waitdisk :: "mach \<Rightarrow> mach option" where
  "waitdisk s = (let (v, s) = inb 0x1F7 s in if v AND 0xC0 \<noteq> 0x40 then waitdisk s else Some s)"

definition readsect :: "u32 \<Rightarrow> u32 \<Rightarrow> mach \<Rightarrow> mach option" where
  "readsect dst offset s = do {
     s \<leftarrow> waitdisk s;
     let s = outb 0x1F2 1 s;
     let s = outb 0x1F3 (ucast offset) s;
     let s = outb 0x1F4 (ucast (drop_bit 8 offset)) s;
     let s = outb 0x1F5 (ucast (drop_bit 16 offset)) s;
     let s = outb 0x1F6 (ucast (drop_bit 24 offset OR 0xE0)) s;
     let s = outb 0x1F7 0x20 s;
     s \<leftarrow> waitdisk s;
     Some (insl 0x1F0 dst (SECTSIZE div 4) s)
   }"

partial_function (option) readseg_loop :: "u32 \<Rightarrow> u32 \<Rightarrow> u32 \<Rightarrow> mach \<Rightarrow> mach option" where
  "readseg_loop epa pa offset s =
     (if pa < epa then Option.bind (readsect pa offset s) (readseg_loop epa (pa + SECTSIZE) (offset + 1))
      else Some s)"

definition readseg :: "u32 \<Rightarrow> u32 \<Rightarrow> u32 \<Rightarrow> mach \<Rightarrow> mach option" where
  "readseg pa count offset s =
     (let epa = pa + count; pa = pa - offset mod SECTSIZE; offset = offset div SECTSIZE
      in readseg_loop epa pa offset s)"

definition load_segment :: "elf32_phdr \<Rightarrow> u32 \<Rightarrow> mach \<Rightarrow> mach option" where
  "load_segment p disk_offset s = do {
     let pa = p_paddr p;
     s \<leftarrow> readseg pa (p_filesz p) (p_offset p + disk_offset) s;
     Some (if p_memsz p > p_filesz p then stosb (pa + p_filesz p) 0 (p_memsz p - p_filesz p) s else s)
   }"

partial_function (option) segment_loop :: "u32 \<Rightarrow> u32 \<Rightarrow> u32 \<Rightarrow> mach \<Rightarrow> mach option" where
  "segment_loop disk_offset eph ph s =
     (if ph < eph
      then Option.bind (load_segment (phdr_at (mem s) ph) disk_offset s) (segment_loop disk_offset eph (ph + sizeof_phdr))
      else Some s)"

text \<open>The result is the state in which the kernel is entered, with the address of the entry.\<close>

definition bootmain :: "mach \<Rightarrow> (u32 \<times> mach) option" where
  "bootmain s = do {
     let pe = 0x7c00 + 0x1be + 16;
     let elf = 0x10000;
     let disk_offset = LBA_of_first_absolute_sector (mem s) pe * SECTSIZE;
     s \<leftarrow> readseg elf 10240 disk_offset s;
     let ph = elf + e_phoff (mem s) elf;
     let eph = ph + ucast (e_phnum (mem s) elf) * sizeof_phdr;
     s \<leftarrow> segment_loop disk_offset eph ph s;
     Some (e_entry (mem s) elf, s)
   }"

section \<open>The disk\<close>

text \<open>
  The registers of the controller that the loader writes: the sector address in four
  parts, and, after the read command, the sector and the number of its words read so far.
\<close>

record ata =
  lba0 :: u8
  lba1 :: u8
  lba2 :: u8
  lba3 :: u8
  sect :: nat
  taken :: nat

definition lba :: "ata \<Rightarrow> nat" where
  "lba d = unat (lba0 d) + 2 ^ 8 * unat (lba1 d) + 2 ^ 16 * unat (lba2 d) + 2 ^ 24 * (unat (lba3 d) mod 16)"

fun ata_step :: "io \<Rightarrow> ata \<Rightarrow> ata" where
  "ata_step (Out8 port v) d =
     (if port = 0x1F3 then d\<lparr>lba0 := v\<rparr> else if port = 0x1F4 then d\<lparr>lba1 := v\<rparr>
      else if port = 0x1F5 then d\<lparr>lba2 := v\<rparr> else if port = 0x1F6 then d\<lparr>lba3 := v\<rparr>
      else if port = 0x1F7 \<and> v = 0x20 then d\<lparr>sect := lba d, taken := 0\<rparr> else d)"
| "ata_step (In32 port v) d = (if port = 0x1F0 then d\<lparr>taken := Suc (taken d)\<rparr> else d)"
| "ata_step _ d = d"

definition ata_state :: "io list \<Rightarrow> ata" where
  "ata_state t = fold ata_step t \<lparr>lba0 = 0, lba1 = 0, lba2 = 0, lba3 = 0, sect = 0, taken = 0\<rparr>"

definition disk_word :: "(nat \<Rightarrow> u8) \<Rightarrow> nat \<Rightarrow> u32" where
  "disk_word disk a = load32 (\<lambda>x. disk (a + unat x)) 0"

text \<open>
  The devices contain a disk with the contents \<open>disk\<close>: the status register shows a ready
  controller after finitely many polls, and the data register gives the words of the
  selected sector in order.
\<close>

definition is_ata :: "(nat \<Rightarrow> u8) \<Rightarrow> (io list \<Rightarrow> u16 \<Rightarrow> u32) \<Rightarrow> bool" where
  "is_ata disk dev \<longleftrightarrow>
     (\<forall>t. (\<exists>n. ucast (dev (polled dev 0x1F7 n t) 0x1F7) AND 0xC0 = (0x40 :: u8)) \<and>
           dev t 0x1F0 = disk_word disk (512 * sect (ata_state t) + 4 * taken (ata_state t)))"

text \<open>A controller that is always ready.\<close>

definition ata_devices :: "(nat \<Rightarrow> u8) \<Rightarrow> io list \<Rightarrow> u16 \<Rightarrow> u32" where
  "ata_devices disk t port =
     (if port = 0x1F7 then 0x40
      else if port = 0x1F0 then disk_word disk (512 * sect (ata_state t) + 4 * taken (ata_state t)) else 0)"

lemma is_ata_devices: "is_ata disk (ata_devices disk)"
  unfolding is_ata_def by (auto simp: ata_devices_def)

section \<open>Reading a sector\<close>

lemma waitdisk_returns:
  assumes "ucast (devices s (polled (devices s) 0x1F7 n (trace s)) 0x1F7) AND 0xC0 = (0x40 :: u8)"
  shows "\<exists>k. waitdisk s = Some (s\<lparr>trace := polled (devices s) 0x1F7 k (trace s)\<rparr>)"
  using assms
proof (induction n arbitrary: s)
  case 0
  then show ?case
    by (intro exI[of _ 1], subst waitdisk.simps) (simp add: inb_def log_io_def Let_def)
next
  case (Suc n)
  show ?case
  proof (cases "ucast (devices s (trace s) 0x1F7) AND 0xC0 = (0x40 :: u8)")
    case True
    then show ?thesis by (intro exI[of _ 1], subst waitdisk.simps) (simp add: inb_def log_io_def Let_def)
  next
    case False
    let ?s = "log_io (In8 0x1F7 (ucast (devices s (trace s) 0x1F7))) s"
    have "\<exists>k. waitdisk ?s = Some (?s\<lparr>trace := polled (devices ?s) 0x1F7 k (trace ?s)\<rparr>)"
      using Suc.prems by (intro Suc.IH) (simp add: log_io_def)
    then obtain k where "waitdisk ?s = Some (?s\<lparr>trace := polled (devices ?s) 0x1F7 k (trace ?s)\<rparr>)" ..
    then show ?thesis using False
      by (intro exI[of _ "Suc k"], subst waitdisk.simps) (simp add: inb_def log_io_def Let_def)
  qed
qed

lemma ata_state_snoc [simp]: "ata_state (t @ [e]) = ata_step e (ata_state t)"
  by (simp add: ata_state_def)

lemma ata_state_polled [simp]: "ata_state (polled dev 0x1F7 n t) = ata_state t"
  by (induction n arbitrary: t) auto

lemma waitdisk_ata:
  assumes "is_ata disk (devices s)"
  obtains t where "waitdisk s = Some (s\<lparr>trace := t\<rparr>)" "ata_state t = ata_state (trace s)"
  using assms waitdisk_returns[of s] unfolding is_ata_def by (metis ata_state_polled)

lemma bytes_load32:
  "ucast (load32 m a) = m a" "ucast (drop_bit 8 (load32 m a)) = m (a + 1)"
  "ucast (drop_bit 16 (load32 m a)) = m (a + 2)" "ucast (drop_bit 24 (load32 m a)) = m (a + 3)"
  by (rule bit_word_eqI; simp add: bit_simps load32_bits)+

text \<open>The bytes \<open>f 0\<close>, \<open>f 1\<close>, ... in a window of \<open>n\<close> bytes at \<open>a\<close>.\<close>

definition paste :: "u32 \<Rightarrow> nat \<Rightarrow> (nat \<Rightarrow> u8) \<Rightarrow> vmem \<Rightarrow> vmem" where
  "paste a n f m = (\<lambda>x. if unat (x - a) < n then f (unat (x - a)) else m x)"

lemma paste_0 [simp]: "paste a 0 f m = m"
  by (simp add: paste_def)

lemma unat_sub_step:
  fixes x :: u32
  assumes "n < 2 ^ 32"
  shows "unat (x - (a + of_nat n)) = (if n \<le> unat (x - a) then unat (x - a) - n else unat (x - a) + 2 ^ 32 - n)"
proof -
  define y where "y = x - a"
  have y: "x - (a + of_nat n) = y - of_nat n" by (simp add: y_def)
  have "unat (of_nat n :: u32) = n" using assms by (simp add: unat_word_of_nat_small)
  then have "unat (y - of_nat n) = (if n \<le> unat y then unat y - n else unat y + 2 ^ 32 - n)"
    by (simp add: unat_sub_if_size word_size)
  then show ?thesis by (simp only: y) (simp only: y_def)
qed

lemma paste_append:
  assumes "n + k \<le> 2 ^ 32" "0 < k"
  shows "paste (a + of_nat n) k (\<lambda>i. f (n + i)) (paste a n f m) = paste a (n + k) f m"
proof
  fix x
  have n: "n < 2 ^ 32" using assms by simp
  show "paste (a + of_nat n) k (\<lambda>i. f (n + i)) (paste a n f m) x = paste a (n + k) f m x"
    using assms unsigned_less[where 'a = nat, of "x - a"] unat_sub_step[OF n, of x a]
    by (auto simp: paste_def)
qed

lemma store32_paste: "store32 m a (disk_word disk b) = paste a 4 (\<lambda>i. disk (b + i)) m"
proof
  fix x
  have ne: "a + 1 \<noteq> a" "a + 2 \<noteq> a" "a + 3 \<noteq> a" "a + 1 \<noteq> a + 2" "a + 1 \<noteq> a + 3" "a + 2 \<noteq> a + 3" by simp_all
  define w where "w = disk_word disk b"
  have b: "ucast w = disk b" "ucast (drop_bit 8 w) = disk (b + 1)"
    "ucast (drop_bit 16 w) = disk (b + 2)" "ucast (drop_bit 24 w) = disk (b + 3)"
    unfolding w_def disk_word_def bytes_load32 by simp_all
  show "store32 m a (disk_word disk b) x = paste a 4 (\<lambda>i. disk (b + i)) m x"
  proof (cases "unat (x - a) < 4")
    case True
    define i where "i = unat (x - a)"
    have x: "x = a + of_nat i" by (simp add: i_def)
    have "i = 0 \<or> i = 1 \<or> i = 2 \<or> i = 3" using True by (auto simp: i_def)
    then show ?thesis unfolding w_def[symmetric] using True ne by (auto simp: store32_def paste_def b i_def[symmetric] x)
  next
    case False
    then have "x \<notin> {a, a + 1, a + 2, a + 3}" by (auto simp: unat_word_ariths)
    then show ?thesis using False by (simp add: store32_other paste_def)
  qed
qed

text \<open>The repeated input instruction stores the rest of the selected sector.\<close>

lemma insl_rep_ata:
  assumes "is_ata disk (devices s)" "4 * n \<le> 2 ^ 32"
  shows "\<exists>t. insl_rep n 0x1F0 dst s =
     s\<lparr>mem := paste dst (4 * n)
        (\<lambda>i. disk (512 * sect (ata_state (trace s)) + 4 * taken (ata_state (trace s)) + i)) (mem s), trace := t\<rparr>"
  using assms
proof (induction n arbitrary: dst s)
  case 0
  have "insl_rep 0 0x1F0 dst s = s\<lparr>mem := mem s, trace := trace s\<rparr>" by simp
  then show ?case unfolding mult_0_right paste_0 by blast
next
  case (Suc n)
  define d where "d = ata_state (trace s)"
  define f where "f = (\<lambda>i. disk (512 * sect d + 4 * taken d + i))"
  define v where "v = disk_word disk (512 * sect d + 4 * taken d)"
  have v: "devices s (trace s) 0x1F0 = v" using Suc.prems(1) by (simp add: is_ata_def v_def d_def)
  define s1 where "s1 = s\<lparr>trace := trace s @ [In32 0x1F0 v], mem := store32 (mem s) dst v\<rparr>"
  have m1: "mem s1 = paste dst 4 f (mem s)" by (simp add: s1_def v_def store32_paste f_def)
  have "insl_rep (Suc n) 0x1F0 dst s = insl_rep n 0x1F0 (dst + 4) s1"
    by (simp add: inl_def log_io_def Let_def v s1_def)
  moreover obtain t where "insl_rep n 0x1F0 (dst + 4) s1 =
      s1\<lparr>mem := paste (dst + 4) (4 * n) (\<lambda>i. f (4 + i)) (mem s1), trace := t\<rparr>"
    using Suc.IH[of s1 "dst + 4"] Suc.prems by (auto simp: s1_def f_def d_def algebra_simps)
  moreover have "paste (dst + 4) (4 * n) (\<lambda>i. f (4 + i)) (mem s1) = paste dst (4 * Suc n) f (mem s)"
    using paste_append[of 4 "4 * n" dst f "mem s"] Suc.prems(2) by (cases "n = 0") (auto simp: m1)
  ultimately show ?case by (auto simp: s1_def f_def d_def)
qed

lemma base256_digits:
  fixes n :: nat
  assumes "n < 2 ^ 28"
  shows "n mod 256 + 256 * (n div 256 mod 256) + 65536 * (n div 65536 mod 256) + 16777216 * (n div 16777216 mod 256 mod 16) = n"
proof -
  have "n div 16777216 < 16" using assms by (simp add: less_mult_imp_div_less)
  then have "n div 16777216 mod 256 mod 16 = n div 16777216" by simp
  moreover have "n div 256 div 256 = n div 65536" "n div 65536 div 256 = n div 16777216" by (simp_all add: div_mult2_eq[symmetric])
  moreover have "256 * (n div 256) + n mod 256 = n" "256 * (n div 256 div 256) + n div 256 mod 256 = n div 256"
    "256 * (n div 65536 div 256) + n div 65536 mod 256 = n div 65536" by simp_all
  ultimately show ?thesis by linarith
qed

lemma lba_bytes:
  fixes w :: u32
  assumes "unat w < 2 ^ 28"
  shows "unat (ucast w :: u8) + 2 ^ 8 * unat (ucast (drop_bit 8 w) :: u8) + 2 ^ 16 * unat (ucast (drop_bit 16 w) :: u8) +
     2 ^ 24 * (unat (ucast (drop_bit 24 w OR 0xE0) :: u8) mod 16) = unat w"
proof -
  have "take_bit 4 (ucast (drop_bit 24 w OR 0xE0) :: u8) = take_bit 4 (ucast (drop_bit 24 w))"
  proof (rule bit_word_eqI)
    fix n assume "n < LENGTH(8)"
    then have "n < 4 \<longrightarrow> \<not> bit (0xE0 :: u32) n" by (auto simp: bit_numeral_rec less_Suc_eq numeral_eq_Suc)
    then show "bit (take_bit 4 (ucast (drop_bit 24 w OR 0xE0) :: u8)) n = bit (take_bit 4 (ucast (drop_bit 24 w) :: u8)) n"
      by (auto simp: bit_simps)
  qed
  moreover have "unat (take_bit 4 v) = unat v mod 16" for v :: u8
    by (simp add: take_bit_eq_mod unat_mod)
  ultimately have "unat (ucast (drop_bit 24 w OR 0xE0) :: u8) mod 16 = unat (ucast (drop_bit 24 w) :: u8) mod 16"
    by metis
  moreover have "unat (ucast v :: u8) = unat v mod 256" for v :: u32
    by (simp add: unsigned_ucast_eq take_bit_eq_mod)
  moreover have "unat (drop_bit k w) = unat w div 2 ^ k" if "k < 32" for k
    using that by (simp add: drop_bit_eq_div unat_div unat_two_power)
  ultimately show ?thesis using base256_digits[OF assms] by simp
qed

lemma readsect_reads:
  assumes "is_ata disk (devices s)" "unat offset < 2 ^ 28"
  obtains t where "readsect dst offset s = Some (s\<lparr>mem := paste dst 512 (\<lambda>i. disk (512 * unat offset + i)) (mem s), trace := t\<rparr>)"
proof -
  obtain t0 where w0: "waitdisk s = Some (s\<lparr>trace := t0\<rparr>)" using waitdisk_ata[OF assms(1)] .
  define t1 where "t1 = t0 @ [Out8 0x1F2 1] @ [Out8 0x1F3 (ucast offset)] @ [Out8 0x1F4 (ucast (drop_bit 8 offset))] @
    [Out8 0x1F5 (ucast (drop_bit 16 offset))] @ [Out8 0x1F6 (ucast (drop_bit 24 offset OR 0xE0))] @ [Out8 0x1F7 0x20]"
  have st1: "sect (ata_state t1) = unat offset" "taken (ata_state t1) = 0"
    unfolding t1_def by (simp_all only: append.assoc[symmetric] ata_state_snoc) (use lba_bytes[OF assms(2)] in \<open>simp_all add: lba_def\<close>)
  obtain t2 where w2: "waitdisk (s\<lparr>trace := t1\<rparr>) = Some (s\<lparr>trace := t2\<rparr>)" and st2: "ata_state t2 = ata_state t1"
    using waitdisk_ata[of disk "s\<lparr>trace := t1\<rparr>"] assms(1) by auto
  obtain t where "insl_rep 128 0x1F0 dst (s\<lparr>trace := t2\<rparr>) =
      s\<lparr>mem := paste dst 512 (\<lambda>i. disk (512 * unat offset + i)) (mem s), trace := t\<rparr>"
    using insl_rep_ata[of disk "s\<lparr>trace := t2\<rparr>" 128 dst] assms(1) by (auto simp: st1 st2)
  then show thesis using w0 w2 that
    by (simp add: readsect_def outb_def log_io_def insl_def SECTSIZE_def t1_def)
qed

section \<open>Reading a range\<close>

text \<open>The number of sectors that \<^verbatim>\<open>readseg\<close> reads.\<close>

definition sectors :: "u32 \<Rightarrow> u32 \<Rightarrow> nat" where
  "sectors offset count = (unat offset mod 512 + unat count + 511) div 512"

lemma readseg_loop_reads:
  assumes "is_ata disk (devices s)" "unat epa + 512 \<le> 2 ^ 32"
    and "unat pa + 512 * k < unat epa + 512" "unat epa \<le> unat pa + 512 * k" "unat offset + k \<le> 2 ^ 28"
  obtains t where "readseg_loop epa pa offset s =
     Some (s\<lparr>mem := paste pa (512 * k) (\<lambda>i. disk (512 * unat offset + i)) (mem s), trace := t\<rparr>)"
  using assms
proof (induction k arbitrary: pa offset s thesis)
  case 0
  then have "\<not> pa < epa" by (simp add: word_less_nat_alt)
  then have "readseg_loop epa pa offset s = Some (s\<lparr>trace := trace s\<rparr>)" by (subst readseg_loop.simps) simp
  then show ?case by (intro 0(1)[of "trace s"]) simp
next
  case (Suc k)
  define f where "f = (\<lambda>i. disk (512 * unat offset + i))"
  have lt: "pa < epa" using Suc.prems by (simp add: word_less_nat_alt)
  have pa: "unat (pa + SECTSIZE) = unat pa + 512"
    using Suc.prems by (subst unat_plus_small) (simp_all add: SECTSIZE_def)
  have off: "unat (offset + 1) = unat offset + 1" using Suc.prems by (subst unat_plus_small) simp_all
  obtain t where r: "readsect pa offset s = Some (s\<lparr>mem := paste pa 512 f (mem s), trace := t\<rparr>)"
    using readsect_reads[of disk s offset pa] Suc.prems unfolding f_def by auto
  obtain t' where "readseg_loop epa (pa + SECTSIZE) (offset + 1) (s\<lparr>mem := paste pa 512 f (mem s), trace := t\<rparr>) =
      Some (s\<lparr>mem := paste (pa + SECTSIZE) (512 * k) (\<lambda>i. f (512 + i)) (paste pa 512 f (mem s)), trace := t'\<rparr>)"
    using Suc.IH[where pa = "pa + SECTSIZE" and offset = "offset + 1" and s = "s\<lparr>mem := paste pa 512 f (mem s), trace := t\<rparr>"]
      Suc.prems unfolding f_def pa off by (auto simp: algebra_simps)
  moreover have "paste (pa + SECTSIZE) (512 * k) (\<lambda>i. f (512 + i)) (paste pa 512 f (mem s)) = paste pa (512 * Suc k) f (mem s)"
    using paste_append[of 512 "512 * k" pa f "mem s"] Suc.prems by (cases "k = 0") (auto simp: SECTSIZE_def)
  ultimately show ?case using lt r unfolding f_def
    by (intro Suc.prems(1)[of t'], subst readseg_loop.simps) simp
qed

lemma readseg_reads:
  assumes "is_ata disk (devices s)" "unat offset mod 512 \<le> unat pa" "unat pa + unat count + 512 \<le> 2 ^ 32"
  obtains t where "readseg pa count offset s = Some (s\<lparr>
     mem := paste (pa - offset mod SECTSIZE) (512 * sectors offset count) (\<lambda>i. disk (512 * (unat offset div 512) + i)) (mem s),
     trace := t\<rparr>)"
proof -
  have om: "unat (offset mod SECTSIZE) = unat offset mod 512" "unat (offset div SECTSIZE) = unat offset div 512"
    by (simp_all add: SECTSIZE_def unat_mod unat_div)
  have pa: "unat (pa - offset mod SECTSIZE) = unat pa - unat offset mod 512"
    using assms(2) by (subst unat_minus_le) (simp_all add: om)
  have epa: "unat (pa + count) = unat pa + unat count" using assms(3) by (subst unat_plus_small) simp_all
  have k: "unat offset mod 512 + unat count \<le> 512 * sectors offset count"
    "512 * sectors offset count < unat offset mod 512 + unat count + 512" by (simp_all add: sectors_def)
  have "unat offset < 2 ^ 32" "unat count < 2 ^ 32"
    using unsigned_less[where 'a = nat, of offset] unsigned_less[where 'a = nat, of count] by simp_all
  then have "unat offset div 512 + sectors offset count \<le> 2 ^ 28" by (simp add: sectors_def)
  moreover have "unat (pa - offset mod SECTSIZE) + 512 * sectors offset count < unat (pa + count) + 512"
    "unat (pa + count) \<le> unat (pa - offset mod SECTSIZE) + 512 * sectors offset count"
    unfolding pa epa using k assms(2) by linarith+
  ultimately obtain t where "readseg_loop (pa + count) (pa - offset mod SECTSIZE) (offset div SECTSIZE) s =
     Some (s\<lparr>mem := paste (pa - offset mod SECTSIZE) (512 * sectors offset count)
        (\<lambda>i. disk (512 * unat (offset div SECTSIZE) + i)) (mem s), trace := t\<rparr>)"
    using readseg_loop_reads[of disk s "pa + count" "pa - offset mod SECTSIZE" "sectors offset count" "offset div SECTSIZE"]
      assms(1,3) epa om(2) by auto
  then show thesis using that by (simp add: readseg_def om)
qed

section \<open>Loading the segments\<close>

text \<open>The bytes that loading a segment may write, and what it must leave there.\<close>

definition seg_window :: "u32 \<Rightarrow> elf32_phdr \<Rightarrow> u32 set" where
  "seg_window d p =
     {x. unat (x - (p_paddr p - (p_offset p + d) mod SECTSIZE)) < 512 * sectors (p_offset p + d) (p_filesz p)} \<union>
     {x. unat (x - (p_paddr p + p_filesz p)) < unat (p_memsz p) - unat (p_filesz p)}"

definition seg_fits :: "u32 \<Rightarrow> elf32_phdr \<Rightarrow> bool" where
  "seg_fits d p \<longleftrightarrow> unat (p_offset p + d) mod 512 \<le> unat (p_paddr p) \<and>
     unat (p_paddr p) + unat (p_filesz p) + 512 \<le> 2 ^ 32"

definition seg_loaded :: "(nat \<Rightarrow> u8) \<Rightarrow> u32 \<Rightarrow> elf32_phdr \<Rightarrow> vmem \<Rightarrow> bool" where
  "seg_loaded disk d p m \<longleftrightarrow>
     (\<forall>i<unat (p_filesz p). m (p_paddr p + of_nat i) = disk (unat (p_offset p + d) + i)) \<and>
     (\<forall>i<unat (p_memsz p). unat (p_filesz p) \<le> i \<longrightarrow> m (p_paddr p + of_nat i) = 0)"

text \<open>The offset of byte \<open>i\<close> of a segment from the start of the sectors, and from the end of the file part.\<close>

lemma file_distance:
  assumes "i < unat fs" "unat off mod 512 \<le> unat pa" "unat pa + unat fs + 512 \<le> 2 ^ 32"
  shows "unat (pa + of_nat i - (pa - off mod SECTSIZE)) = i + unat off mod 512" "i + unat off mod 512 < 512 * sectors off fs"
proof -
  show "unat (pa + of_nat i - (pa - off mod SECTSIZE)) = i + unat off mod 512"
    using assms by (simp add: unat_plus_small unat_word_of_nat_small unat_mod SECTSIZE_def)
  show "i + unat off mod 512 < 512 * sectors off fs" using assms(1) by (simp add: sectors_def)
qed

lemma tail_distance:
  fixes pa :: u32
  assumes "i < 2 ^ 32"
  shows "unat (pa + of_nat i - (pa + fs)) = (if unat fs \<le> i then i - unat fs else i + 2 ^ 32 - unat fs)"
  using unat_sub_step[of "unat fs" "pa + of_nat i" pa] assms unsigned_less[where 'a = nat, of fs]
  by (simp add: unat_word_of_nat_small)

lemma load_segment_loads:
  assumes "is_ata disk (devices s)" "seg_fits d p"
  obtains t m where "load_segment p d s = Some (s\<lparr>mem := m, trace := t\<rparr>)" "seg_loaded disk d p m"
    "\<And>x. x \<notin> seg_window d p \<Longrightarrow> m x = mem s x"
proof -
  define pa fs ms off where d: "pa = p_paddr p" "fs = p_filesz p" "ms = p_memsz p" "off = p_offset p + d"
  define g where "g = (\<lambda>i. disk (512 * (unat off div 512) + i))"
  define m1 where "m1 = paste (pa - off mod SECTSIZE) (512 * sectors off fs) g (mem s)"
  define m where "m = (\<lambda>x. if unat (x - (pa + fs)) < unat ms - unat fs then 0 else m1 x)"
  have fits: "unat off mod 512 \<le> unat pa" "unat pa + unat fs + 512 \<le> 2 ^ 32"
    using assms(2) by (auto simp: seg_fits_def d)
  obtain t where r: "readseg pa fs off s = Some (s\<lparr>mem := m1, trace := t\<rparr>)"
    using readseg_reads[OF assms(1) fits] unfolding m1_def g_def by blast
  have "mem (stosb (pa + fs) 0 (ms - fs) (s\<lparr>mem := m1, trace := t\<rparr>)) = m" if "fs < ms"
    using that unat_minus_le[of fs ms] unsigned_less[where 'a = nat, of "ms - fs"]
    by (auto simp: stosb_def m_def stosb_rep_window word_less_nat_alt)
  then have "load_segment p d s = Some (s\<lparr>mem := m, trace := t\<rparr>)"
    using r by (auto simp: load_segment_def d[symmetric] stosb_def m_def word_less_nat_alt not_less)
  moreover have "seg_loaded disk d p m" unfolding seg_loaded_def d[symmetric]
  proof (intro conjI allI impI)
    fix i
    {
      assume i: "i < unat fs"
      have "\<not> unat (pa + of_nat i - (pa + fs)) < unat ms - unat fs"
        using i tail_distance[of i pa fs] unsigned_less[where 'a = nat, of fs] unsigned_less[where 'a = nat, of ms] by simp
      then have "m (pa + of_nat i) = m1 (pa + of_nat i)" unfolding m_def by simp
      moreover have "512 * (unat off div 512) + (i + unat off mod 512) = unat off + i" by simp
      ultimately show "m (pa + of_nat i) = disk (unat off + i)"
        using file_distance[OF i fits] by (simp add: m1_def paste_def g_def)
    next
      assume i: "i < unat ms" "unat fs \<le> i"
      then have "unat (pa + of_nat i - (pa + fs)) < unat ms - unat fs"
        using tail_distance[of i pa fs] unsigned_less[where 'a = nat, of ms] by (simp add: diff_less_mono)
      then show "m (pa + of_nat i) = 0" unfolding m_def by simp
    }
  qed
  moreover have "m x = mem s x" if "x \<notin> seg_window d p" for x
    using that by (simp add: seg_window_def d[symmetric] m_def m1_def paste_def)
  ultimately show thesis using that by blast
qed

lemma seg_loaded_window:
  assumes "seg_loaded disk d p m" "seg_fits d p" "\<And>x. x \<in> seg_window d p \<Longrightarrow> m' x = m x"
  shows "seg_loaded disk d p m'"
proof -
  have "p_paddr p + of_nat i \<in> seg_window d p" if "i < unat (p_filesz p)" for i
    using file_distance[OF that, of "p_offset p + d" "p_paddr p"] assms(2) by (simp add: seg_window_def seg_fits_def)
  moreover have "p_paddr p + of_nat i \<in> seg_window d p" if "i < unat (p_memsz p)" "unat (p_filesz p) \<le> i" for i
    using tail_distance[of i "p_paddr p" "p_filesz p"] that unsigned_less[where 'a = nat, of "p_memsz p"]
    by (simp add: seg_window_def diff_less_mono)
  ultimately show ?thesis using assms(1,3) by (simp add: seg_loaded_def)
qed

primrec phdrs :: "vmem \<Rightarrow> u32 \<Rightarrow> elf32_phdr list \<Rightarrow> bool" where
  "phdrs m ph [] = True"
| "phdrs m ph (p # ps) = (phdr_at m ph = p \<and> phdrs m (ph + sizeof_phdr) ps)"

lemma phdr_at_cong: "(\<And>x. unat (x - ph) < 32 \<Longrightarrow> m' x = m x) \<Longrightarrow> phdr_at m' ph = phdr_at m ph"
  by (simp add: phdr_at_def load32_def)

lemma table_step:
  assumes "unat (x - (ph + sizeof_phdr)) < 32 * n" "32 * n + 32 < 2 ^ 32"
  shows "unat (x - ph) < 32 * n + 32"
  using assms unat_sub_step[of 32 x ph] by (simp add: sizeof_phdr_def split: if_splits)

lemma phdrs_cong:
  "(\<And>x. unat (x - ph) < 32 * length ps \<Longrightarrow> m' x = m x) \<Longrightarrow> 32 * length ps < 2 ^ 32 \<Longrightarrow> phdrs m' ph ps = phdrs m ph ps"
proof (induction ps arbitrary: ph)
  case (Cons p ps)
  have "phdr_at m' ph = phdr_at m ph" using Cons.prems(1) by (intro phdr_at_cong) simp
  moreover have "phdrs m' (ph + sizeof_phdr) ps = phdrs m (ph + sizeof_phdr) ps"
    using Cons.prems table_step[of _ ph "length ps"] by (intro Cons.IH) (auto simp: algebra_simps)
  ultimately show ?case by simp
qed simp


lemma segment_loop_loads:
  assumes "is_ata disk (devices s)" "phdrs (mem s) ph ps" "unat ph + 32 * length ps < 2 ^ 32"
    and "eph = ph + of_nat (length ps) * sizeof_phdr" "\<forall>p\<in>set ps. seg_fits d p"
    and "\<forall>p\<in>set ps. seg_window d p \<inter> {x. unat (x - ph) < 32 * length ps} = {}"
    and "sorted_wrt (\<lambda>p q. seg_window d p \<inter> seg_window d q = {}) ps"
  shows "\<exists>t m. segment_loop d eph ph s = Some (s\<lparr>mem := m, trace := t\<rparr>) \<and>
     (\<forall>p\<in>set ps. seg_loaded disk d p m) \<and> (\<forall>x. x \<notin> (\<Union>p\<in>set ps. seg_window d p) \<longrightarrow> m x = mem s x)"
  using assms
proof (induction ps arbitrary: ph s)
  case Nil
  then have "segment_loop d eph ph s = Some (s\<lparr>mem := mem s, trace := trace s\<rparr>)" by (subst segment_loop.simps) simp
  then show ?case by (intro exI[of _ "trace s"] exI[of _ "mem s"]) simp
next
  case (Cons p ps)
  have ph: "unat (ph + sizeof_phdr) = unat ph + 32"
    using Cons.prems(3) by (subst unat_plus_small) (simp_all add: sizeof_phdr_def)
  have "unat eph = unat ph + 32 * length (p # ps)"
    unfolding Cons.prems(4) using Cons.prems(3)
    by (simp add: sizeof_phdr_def unat_word_ariths unat_word_of_nat_small)
  then have lt: "ph < eph" by (simp add: word_less_nat_alt)
  obtain t m where l: "load_segment p d s = Some (s\<lparr>mem := m, trace := t\<rparr>)" "seg_loaded disk d p m"
    "\<And>x. x \<notin> seg_window d p \<Longrightarrow> m x = mem s x"
    using load_segment_loads[OF Cons.prems(1), of d p] Cons.prems(5) by auto
  let ?s = "s\<lparr>mem := m, trace := t\<rparr>"
  have sub: "unat (x - ph) < 32 * length (p # ps)" if "unat (x - (ph + sizeof_phdr)) < 32 * length ps" for x
    using table_step[OF that] Cons.prems(3) by simp
  have "phdrs m (ph + sizeof_phdr) ps = phdrs (mem s) (ph + sizeof_phdr) ps"
    using Cons.prems(3,6) sub by (intro phdrs_cong l(3)) auto
  moreover have disj: "\<forall>q\<in>set ps. seg_window d q \<inter> {x. unat (x - (ph + sizeof_phdr)) < 32 * length ps} = {}"
    using Cons.prems(6) sub by fastforce
  ultimately have "\<exists>t' m'. segment_loop d eph (ph + sizeof_phdr) ?s = Some (?s\<lparr>mem := m', trace := t'\<rparr>) \<and>
     (\<forall>p\<in>set ps. seg_loaded disk d p m') \<and> (\<forall>x. x \<notin> (\<Union>p\<in>set ps. seg_window d p) \<longrightarrow> m' x = mem ?s x)"
    using Cons.prems(1-5,7) ph disj by (intro Cons.IH) (auto simp: algebra_simps)
  then obtain t' m' where r: "segment_loop d eph (ph + sizeof_phdr) ?s = Some (s\<lparr>mem := m', trace := t'\<rparr>)"
     "\<forall>p\<in>set ps. seg_loaded disk d p m'" "\<forall>x. x \<notin> (\<Union>p\<in>set ps. seg_window d p) \<longrightarrow> m' x = m x"
    by auto
  have "m' x = m x" if "x \<in> seg_window d p" for x using that r(3) Cons.prems(7) by auto
  then have "seg_loaded disk d p m'"
    using l(2) seg_loaded_window[of disk d p m m'] Cons.prems(5) by auto
  moreover have "segment_loop d eph ph s = Some (s\<lparr>mem := m', trace := t'\<rparr>)"
    using lt l(1) r(1) Cons.prems(2) by (subst segment_loop.simps) simp
  ultimately show ?case using r(2,3) l(3) by (intro exI[of _ t'] exI[of _ m']) auto
qed

section \<open>The whole loader\<close>

text \<open>The memory with the first 10240 bytes of the partition at the scratch address.\<close>

definition image :: "(nat \<Rightarrow> u8) \<Rightarrow> u32 \<Rightarrow> vmem \<Rightarrow> vmem" where
  "image disk d m = paste 0x10000 10240 (\<lambda>i. disk (unat d + i)) m"

lemma partition_aligned: "unat (x * SECTSIZE) mod 512 = 0"
proof -
  have "(512 :: nat) dvd 2 ^ 32" by simp
  then show ?thesis by (simp add: SECTSIZE_def unat_word_ariths mod_mod_cancel)
qed

lemma bootmain_loads:
  assumes "is_ata disk (devices s)"
    and d: "d = LBA_of_first_absolute_sector (mem s) 0x7dce * SECTSIZE" and m: "m = image disk d (mem s)"
    and ph: "ph = 0x10000 + e_phoff m 0x10000" and ps: "phdrs m ph ps" "length ps = unat (e_phnum m 0x10000)"
    and table: "unat ph + 32 * length ps < 2 ^ 32"
    and segs: "\<forall>p\<in>set ps. seg_fits d p \<and> seg_window d p \<inter> {x. unat (x - ph) < 32 * length ps} = {} \<and>
      seg_window d p \<inter> {0x10018, 0x10019, 0x1001a, 0x1001b} = {}"
    and disj: "sorted_wrt (\<lambda>p q. seg_window d p \<inter> seg_window d q = {}) ps"
  shows "\<exists>s'. bootmain s = Some (e_entry m 0x10000, s') \<and> (\<forall>p\<in>set ps. seg_loaded disk d p (mem s'))"
proof -
  have al: "unat d mod 512 = 0" unfolding d by (rule partition_aligned)
  then have dm: "d mod SECTSIZE = 0" "512 * (unat d div 512) = unat d"
    by (auto simp: SECTSIZE_def word_unat_eq_iff unat_mod)
  have "sectors d 10240 = 20" by (simp add: sectors_def al)
  then obtain t where r: "readseg 0x10000 10240 d s = Some (s\<lparr>mem := m, trace := t\<rparr>)"
    using readseg_reads[of disk s d "0x10000" 10240] assms(1) al unfolding m image_def by (auto simp: dm)
  define eph where "eph = ph + ucast (e_phnum m 0x10000) * sizeof_phdr"
  have eph: "eph = ph + of_nat (length ps) * sizeof_phdr" unfolding eph_def ps(2) by simp
  obtain t' m' where l: "segment_loop d eph ph (s\<lparr>mem := m, trace := t\<rparr>) = Some (s\<lparr>mem := m', trace := t'\<rparr>)"
    "\<forall>p\<in>set ps. seg_loaded disk d p m'" "\<forall>x. x \<notin> (\<Union>p\<in>set ps. seg_window d p) \<longrightarrow> m' x = m x"
    using segment_loop_loads[of disk "s\<lparr>mem := m, trace := t\<rparr>" ph ps eph d] assms(1) ps table eph segs disj by auto
  have "e_entry m' 0x10000 = e_entry m 0x10000" using l(3) segs by (simp add: e_entry_def load32_def)
  then show ?thesis using r l(1,2) by (simp add: bootmain_def d[symmetric] ph[symmetric] eph_def[symmetric])
qed

end
