(* ===== verification/Sync.thy ===== *)
theory Sync
  imports Cpu
begin

text \<open>
  Spinlocks, recursive locks and semaphores of \<^verbatim>\<open>include/arch/i386/arch-sync.h\<close> and
  \<^verbatim>\<open>include/aim/sync.h\<close>, with the interrupt flags of \<^verbatim>\<open>include/arch/i386/arch-irq.h\<close>. First each
  function as it runs on a CPU that is not disturbed, with \<open>None\<close> for a wait that does not end;
  then the accesses of \<^verbatim>\<open>spin_lock\<close> and \<^verbatim>\<open>spin_unlock\<close> to the lock as the steps of any
  number of CPUs. A CPU is known by its number.
\<close>

section \<open>Interrupt flags\<close>

definition local_irq_enable :: "mach \<Rightarrow> mach" where "local_irq_enable s = sti s"
definition local_irq_disable :: "mach \<Rightarrow> mach" where "local_irq_disable s = cli s"

text \<open>Saving the flags does not disable interrupts.\<close>

definition local_irq_save :: "mach \<Rightarrow> u32" where "local_irq_save s = readeflags s"
definition local_irq_restore :: "u32 \<Rightarrow> mach \<Rightarrow> mach" where "local_irq_restore flags s = seteflags flags s"

section \<open>Spinlocks\<close>

record lock =
  locked :: u32
  holder_cpu :: "nat option"
  pcs :: "u32 list"

definition EMPTY_LOCK :: u32 where "EMPTY_LOCK = 0"

definition spinlock_init :: "lock \<Rightarrow> lock" where
  "spinlock_init l = l\<lparr>locked := 0, holder_cpu := None\<rparr>"

definition spin_is_locked :: "lock \<Rightarrow> bool" where
  "spin_is_locked l \<longleftrightarrow> locked l \<noteq> 0"

definition xchg_locked :: "lock \<Rightarrow> u32 \<times> lock" where
  "xchg_locked l = (locked l, l\<lparr>locked := 1\<rparr>)"

partial_function (option) spin_wait :: "lock \<Rightarrow> lock option" where
  "spin_wait l = (let (old, l) = xchg_locked l in if old \<noteq> 0 then spin_wait l else Some l)"

definition spin_lock :: "nat \<Rightarrow> lock \<Rightarrow> lock run" where
  "spin_lock c l =
     (if spin_is_locked l \<and> holder_cpu l = Some c then Some Panic
      else case spin_wait l of None \<Rightarrow> None | Some l \<Rightarrow> rret (l\<lparr>holder_cpu := Some c\<rparr>))"

definition spin_unlock :: "lock \<Rightarrow> lock run" where
  "spin_unlock l =
     (if \<not> spin_is_locked l then Some Panic
      else let l = l\<lparr>pcs := (pcs l)[0 := 0]\<rparr>; l = l\<lparr>holder_cpu := None\<rparr> in rret (l\<lparr>locked := 0\<rparr>))"

definition spin_lock_irq_save :: "nat \<Rightarrow> mach \<Rightarrow> lock \<Rightarrow> (u32 \<times> lock) run" where
  "spin_lock_irq_save c s l = (let flags = local_irq_save s in rbind (spin_lock c l) (\<lambda>l. rret (flags, l)))"

definition spin_unlock_irq_restore :: "u32 \<Rightarrow> mach \<Rightarrow> lock \<Rightarrow> (mach \<times> lock) run" where
  "spin_unlock_irq_restore flags s l = rbind (spin_unlock l) (\<lambda>l. rret (local_irq_restore flags s, l))"

section \<open>Recursive locks\<close>

record rlock =
  rlock_lock :: lock
  holder :: int
  depth :: int

definition EMPTY_RLOCK :: "lock \<Rightarrow> rlock" where
  "EMPTY_RLOCK l = \<lparr>rlock_lock = l\<lparr>locked := EMPTY_LOCK\<rparr>, holder = -1, depth = 0\<rparr>"

definition recursive_lock :: "nat \<Rightarrow> rlock \<Rightarrow> rlock run" where
  "recursive_lock c r =
     rbind (if holder r \<noteq> int c
            then rbind (spin_lock c (rlock_lock r)) (\<lambda>l. rret (r\<lparr>rlock_lock := l, holder := int c\<rparr>))
            else rret r)
       (\<lambda>r. rret (r\<lparr>depth := depth r + 1\<rparr>))"

definition recursive_unlock :: "nat \<Rightarrow> rlock \<Rightarrow> rlock run" where
  "recursive_unlock c r =
     rbind (rassert (int c = holder r)) (\<lambda>_.
     rbind (rassert (depth r > 0)) (\<lambda>_.
     let r = r\<lparr>depth := depth r - 1\<rparr>
     in if depth r = 0
        then let r = r\<lparr>holder := -1\<rparr>
             in rbind (spin_unlock (rlock_lock r)) (\<lambda>l. rret (r\<lparr>rlock_lock := l\<rparr>))
        else rret r))"

section \<open>Semaphores\<close>

record semaphore =
  sem_val :: int
  sem_limit :: int
  sem_lock :: lock

definition semaphore_init :: "int \<Rightarrow> semaphore \<Rightarrow> semaphore" where
  "semaphore_init v sem = sem\<lparr>sem_lock := spinlock_init (sem_lock sem), sem_val := v, sem_limit := 20\<rparr>"

partial_function (option) semaphore_dec :: "nat \<Rightarrow> semaphore \<Rightarrow> semaphore run" where
  "semaphore_dec c sem =
     rbind (spin_lock c (sem_lock sem)) (\<lambda>l.
       let sem = sem\<lparr>sem_lock := l\<rparr>
       in if sem_val sem > 0
          then let sem = sem\<lparr>sem_val := sem_val sem - 1\<rparr>
               in rbind (spin_unlock (sem_lock sem)) (\<lambda>l. rret (sem\<lparr>sem_lock := l\<rparr>))
          else rbind (spin_unlock (sem_lock sem)) (\<lambda>l. semaphore_dec c (sem\<lparr>sem_lock := l\<rparr>)))"

definition semaphore_inc :: "nat \<Rightarrow> semaphore \<Rightarrow> semaphore run" where
  "semaphore_inc c sem =
     rbind (spin_lock c (sem_lock sem)) (\<lambda>l.
       let sem = sem\<lparr>sem_lock := l\<rparr>;
           sem = sem\<lparr>sem_val := sem_val sem + 1\<rparr>
       in rbind (spin_unlock (sem_lock sem)) (\<lambda>l. rret (sem\<lparr>sem_lock := l\<rparr>)))"

definition semaphore_pass :: "nat \<Rightarrow> semaphore \<Rightarrow> semaphore run" where
  "semaphore_pass c sem = rbind (semaphore_dec c sem) (semaphore_inc c)"

section \<open>Undisturbed use\<close>

definition lock_free :: "lock \<Rightarrow> bool" where
  "lock_free l \<longleftrightarrow> locked l = 0 \<and> holder_cpu l = None"

lemma spin_wait_free: "locked l = 0 \<Longrightarrow> spin_wait l = Some (l\<lparr>locked := 1\<rparr>)"
  by (simp add: spin_wait.simps[of l] xchg_locked_def)

lemma spin_lock_free: "locked l = 0 \<Longrightarrow> spin_lock c l = rret (l\<lparr>locked := 1, holder_cpu := Some c\<rparr>)"
  by (simp add: spin_lock_def spin_is_locked_def spin_wait_free)

lemma spin_lock_self: "locked l \<noteq> 0 \<Longrightarrow> holder_cpu l = Some c \<Longrightarrow> spin_lock c l = Some Panic"
  by (simp add: spin_lock_def spin_is_locked_def)

lemma spin_unlock_locked:
  "locked l \<noteq> 0 \<Longrightarrow> spin_unlock l = rret (l\<lparr>pcs := (pcs l)[0 := 0], holder_cpu := None, locked := 0\<rparr>)"
  by (simp add: spin_unlock_def spin_is_locked_def)

text \<open>Waiting alone for a held lock does not end.\<close>

lemma spin_wait_held:
  assumes "spin_wait l = Some l'"
  shows "locked l = 0"
proof (rule spin_wait.raw_induct[where P = "\<lambda>l l'. locked l = 0", OF _ assms])
  fix f :: "lock \<Rightarrow> lock option" and l l'
  assume IH: "\<And>l l'. f l = Some l' \<Longrightarrow> locked l = 0"
    and step: "(let (old, l) = xchg_locked l in if old \<noteq> 0 then f l else Some l) = Some l'"
  show "locked l = 0" using step IH[of "l\<lparr>locked := 1\<rparr>" l'] by (auto simp: xchg_locked_def split: if_splits)
qed

lemmas undisturbed = spin_lock_free spin_unlock_locked lock_free_def

lemma lock_unlock:
  assumes "lock_free l"
  shows "rbind (spin_lock c l) spin_unlock = rret (l\<lparr>pcs := (pcs l)[0 := 0]\<rparr>)"
  using assms by (cases l) (simp add: undisturbed)

lemma semaphore_inc_free:
  assumes "lock_free (sem_lock sem)"
  shows "semaphore_inc c sem = rret (sem\<lparr>sem_val := sem_val sem + 1, sem_lock := (sem_lock sem)\<lparr>pcs := (pcs (sem_lock sem))[0 := 0]\<rparr>\<rparr>)"
  using assms by (cases "sem_lock sem") (simp add: semaphore_inc_def undisturbed Let_def)

lemma semaphore_dec_free:
  assumes "lock_free (sem_lock sem)" "0 < sem_val sem"
  shows "semaphore_dec c sem = rret (sem\<lparr>sem_val := sem_val sem - 1, sem_lock := (sem_lock sem)\<lparr>pcs := (pcs (sem_lock sem))[0 := 0]\<rparr>\<rparr>)"
  using assms by (cases "sem_lock sem") (simp add: semaphore_dec.simps[of c sem] undisturbed Let_def)

lemma semaphore_dec_waits:
  assumes "semaphore_dec c sem = Some r" "lock_free (sem_lock sem)"
  shows "0 < sem_val sem"
proof -
  have "lock_free (sem_lock sem) \<longrightarrow> 0 < sem_val sem"
  proof (rule semaphore_dec.raw_induct[where P = "\<lambda>c sem r. lock_free (sem_lock sem) \<longrightarrow> 0 < sem_val sem", OF _ assms(1)])
    fix f :: "nat \<Rightarrow> semaphore \<Rightarrow> semaphore run" and c sem r
    assume IH: "\<And>c sem r. f c sem = Some r \<Longrightarrow> lock_free (sem_lock sem) \<longrightarrow> 0 < sem_val sem"
      and step: "rbind (spin_lock c (sem_lock sem)) (\<lambda>l.
       let sem = sem\<lparr>sem_lock := l\<rparr>
       in if sem_val sem > 0
          then let sem = sem\<lparr>sem_val := sem_val sem - 1\<rparr>
               in rbind (spin_unlock (sem_lock sem)) (\<lambda>l. rret (sem\<lparr>sem_lock := l\<rparr>))
          else rbind (spin_unlock (sem_lock sem)) (\<lambda>l. f c (sem\<lparr>sem_lock := l\<rparr>))) = Some r"
    show "lock_free (sem_lock sem) \<longrightarrow> 0 < sem_val sem"
    proof (intro impI, rule ccontr)
      assume free: "lock_free (sem_lock sem)" and neg: "\<not> 0 < sem_val sem"
      let ?l = "(sem_lock sem)\<lparr>pcs := (pcs (sem_lock sem))[0 := 0], holder_cpu := None, locked := 0\<rparr>"
      have "f c (sem\<lparr>sem_lock := ?l\<rparr>) = Some r" using step free neg by (simp add: undisturbed Let_def)
      from IH[OF this] neg show False by (simp add: lock_free_def)
    qed
  qed
  then show ?thesis using assms(2) by simp
qed

text \<open>A recursive lock that is free, or held by this CPU, is taken and given back.\<close>

definition rlock_ok :: "nat \<Rightarrow> rlock \<Rightarrow> bool" where
  "rlock_ok c r \<longleftrightarrow> (if holder r = int c then 0 < depth r \<and> locked (rlock_lock r) \<noteq> 0
                    else holder r = -1 \<and> depth r = 0 \<and> lock_free (rlock_lock r))"

lemma recursive_lock_ok:
  assumes "rlock_ok c r"
  shows "\<exists>r'. recursive_lock c r = rret r' \<and> rlock_ok c r' \<and> holder r' = int c \<and> depth r' = depth r + 1"
  using assms by (auto simp: recursive_lock_def rlock_ok_def undisturbed split: if_splits)

lemma recursive_unlock_ok:
  assumes "rlock_ok c r" "holder r = int c"
  shows "\<exists>r'. recursive_unlock c r = rret r' \<and> rlock_ok c r' \<and> depth r' = depth r - 1 \<and>
    (holder r' = int c \<longleftrightarrow> 1 < depth r)"
  using assms by (auto simp: recursive_unlock_def rlock_ok_def undisturbed Let_def split: if_splits)

section \<open>Concurrent use\<close>

text \<open>Where a CPU is in \<^verbatim>\<open>spin_lock\<close> and \<^verbatim>\<open>spin_unlock\<close>.\<close>

datatype pc = Outside
  | Test_Locked   \<comment> \<open>\<^verbatim>\<open>spin_is_locked(lock)\<close>\<close>
  | Test_Holder   \<comment> \<open>\<^verbatim>\<open>lock->percpu == get_gs_cpu()\<close>\<close>
  | Spin          \<comment> \<open>\<^verbatim>\<open>xchg(&lock->locked, 1)\<close>\<close>
  | Record        \<comment> \<open>\<^verbatim>\<open>lock->percpu = get_gs_cpu()\<close>\<close>
  | Critical
  | Test_Release  \<comment> \<open>\<^verbatim>\<open>!spin_is_locked(lock)\<close>\<close>
  | Clear_Pcs     \<comment> \<open>\<^verbatim>\<open>lock->pcs[0] = 0\<close>\<close>
  | Clear_Holder  \<comment> \<open>\<^verbatim>\<open>lock->percpu = NULL\<close>\<close>
  | Release       \<comment> \<open>\<^verbatim>\<open>movl $0, lock->locked\<close>\<close>
  | Panicked

type_synonym sync_state = "lock \<times> (nat \<Rightarrow> pc)"

inductive sync_step :: "sync_state \<Rightarrow> sync_state \<Rightarrow> bool" where
  enter: "P c = Outside \<Longrightarrow> sync_step (l, P) (l, P(c := Test_Locked))"
| test_free: "P c = Test_Locked \<Longrightarrow> locked l = 0 \<Longrightarrow> sync_step (l, P) (l, P(c := Spin))"
| test_locked: "P c = Test_Locked \<Longrightarrow> locked l \<noteq> 0 \<Longrightarrow> sync_step (l, P) (l, P(c := Test_Holder))"
| test_self: "P c = Test_Holder \<Longrightarrow> holder_cpu l = Some c \<Longrightarrow> sync_step (l, P) (l, P(c := Panicked))"
| test_other: "P c = Test_Holder \<Longrightarrow> holder_cpu l \<noteq> Some c \<Longrightarrow> sync_step (l, P) (l, P(c := Spin))"
| spin: "P c = Spin \<Longrightarrow> xchg_locked l = (old, l') \<Longrightarrow> old \<noteq> 0 \<Longrightarrow> sync_step (l, P) (l', P)"
| acquire: "P c = Spin \<Longrightarrow> xchg_locked l = (old, l') \<Longrightarrow> old = 0 \<Longrightarrow> sync_step (l, P) (l', P(c := Record))"
| holder: "P c = Record \<Longrightarrow> sync_step (l, P) (l\<lparr>holder_cpu := Some c\<rparr>, P(c := Critical))"
| leave: "P c = Critical \<Longrightarrow> sync_step (l, P) (l, P(c := Test_Release))"
| not_held: "P c = Test_Release \<Longrightarrow> locked l = 0 \<Longrightarrow> sync_step (l, P) (l, P(c := Panicked))"
| held: "P c = Test_Release \<Longrightarrow> locked l \<noteq> 0 \<Longrightarrow> sync_step (l, P) (l, P(c := Clear_Pcs))"
| clear_pcs: "P c = Clear_Pcs \<Longrightarrow> sync_step (l, P) (l\<lparr>pcs := (pcs l)[0 := 0]\<rparr>, P(c := Clear_Holder))"
| clear_holder: "P c = Clear_Holder \<Longrightarrow> sync_step (l, P) (l\<lparr>holder_cpu := None\<rparr>, P(c := Release))"
| release: "P c = Release \<Longrightarrow> sync_step (l, P) (l\<lparr>locked := 0\<rparr>, P(c := Outside))"

inductive_cases sync_stepE: "sync_step (l, P) s'"

text \<open>A CPU owns the lock from its successful exchange to the store that releases it.\<close>

definition owns :: "pc \<Rightarrow> bool" where
  "owns p \<longleftrightarrow> p \<in> {Record, Critical, Test_Release, Clear_Pcs, Clear_Holder, Release}"

definition named :: "pc \<Rightarrow> bool" where
  "named p \<longleftrightarrow> p \<in> {Critical, Test_Release, Clear_Pcs, Clear_Holder}"

fun sync_inv :: "sync_state \<Rightarrow> bool" where
  "sync_inv (l, P) \<longleftrightarrow>
     (\<forall>c. P c \<noteq> Panicked) \<and> (locked l \<noteq> 0 \<longleftrightarrow> (\<exists>c. owns (P c))) \<and>
     (\<forall>c d. owns (P c) \<longrightarrow> owns (P d) \<longrightarrow> c = d) \<and>
     (\<forall>c. holder_cpu l = Some c \<longleftrightarrow> named (P c))"

lemma owns_simps [simp]:
  "owns Record" "owns Critical" "owns Test_Release" "owns Clear_Pcs" "owns Clear_Holder" "owns Release"
  "\<not> owns Outside" "\<not> owns Test_Locked" "\<not> owns Test_Holder" "\<not> owns Spin" "\<not> owns Panicked"
  "named Critical" "named Test_Release" "named Clear_Pcs" "named Clear_Holder" "\<not> named Record" "\<not> named Release"
  "\<not> named Outside" "\<not> named Test_Locked" "\<not> named Test_Holder" "\<not> named Spin" "\<not> named Panicked"
  by (simp_all add: owns_def named_def)

lemma named_owns: "named p \<Longrightarrow> owns p"
  by (auto simp: owns_def named_def)

lemma sync_inv_move:
  assumes "sync_inv (l, P)" "owns p = owns (P c)" "named p = named (P c)" "p \<noteq> Panicked"
    and "locked l' = locked l" "holder_cpu l' = holder_cpu l"
  shows "sync_inv (l', P(c := p))"
proof -
  have "owns ((P(c := p)) d) = owns (P d)" "named ((P(c := p)) d) = named (P d)" for d using assms(2,3) by simp_all
  then show ?thesis using assms(1,4-6) unfolding sync_inv.simps by (simp only:) auto
qed

lemma sync_inv_step:
  assumes "sync_step s s'" "sync_inv s"
  shows "sync_inv s'"
  using assms
proof (induction rule: sync_step.induct)
  case (acquire P c l old l')
  then have l: "locked l = 0" "l' = l\<lparr>locked := 1\<rparr>" by (auto simp: xchg_locked_def)
  then have "\<And>d. \<not> owns (P d)" using acquire by auto
  then show ?case using acquire l named_owns by auto
next
  case (holder P c l)
  have own: "owns (P c)" using holder(1) by simp
  then have others: "\<not> owns (P d)" "\<not> named (P d)" if "d \<noteq> c" for d using holder(2) that named_owns by auto
  have "locked l \<noteq> 0" using holder(2) own by auto
  then show ?case using holder(2) others by auto
next
  case (release P c l)
  have own: "owns (P c)" using release(1) by simp
  then have others: "\<not> owns (P d)" "\<not> named (P d)" if "d \<noteq> c" for d using release(2) that named_owns by auto
  then show ?case using release by auto
next
  case (clear_holder P c l)
  have own: "owns (P c)" using clear_holder(1) by simp
  then have others: "\<not> owns (P d)" "\<not> named (P d)" if "d \<noteq> c" for d using clear_holder(2) that named_owns by auto
  have "locked l \<noteq> 0" using clear_holder(2) own by auto
  then show ?case using clear_holder(2) others by auto
next
  case (spin P c l old l')
  then show ?case by (auto simp: xchg_locked_def)
next
  case (test_self P c l)
  have "holder_cpu l = Some c \<longleftrightarrow> named (P c)" using test_self(3) by simp
  then show ?case using test_self(1,2) by simp
next
  case (not_held P c l)
  have "owns (P c)" using not_held(1) by simp
  then show ?case using not_held(2,3) by auto
qed (rule sync_inv_move, assumption, simp_all del: sync_inv.simps)+

lemma sync_inv_init: "lock_free l \<Longrightarrow> sync_inv (l, \<lambda>_. Outside)"
  by (simp add: lock_free_def)

lemma sync_inv_reachable: "sync_step\<^sup>*\<^sup>* s s' \<Longrightarrow> sync_inv s \<Longrightarrow> sync_inv s'"
  by (induction rule: rtranclp_induct) (auto intro: sync_inv_step)

text \<open>
  The lock is never stuck: the CPU that owns it can go on until it has released it, and then a CPU
  that spins can get it.
\<close>

definition releases :: "nat \<Rightarrow> sync_state \<Rightarrow> bool" where
  "releases c s = (\<exists>l'. sync_step\<^sup>*\<^sup>* s (l', (snd s)(c := Outside)) \<and> locked l' = 0)"

lemma releases_step: "sync_step (l, P) (l', P(c := p)) \<Longrightarrow> releases c (l', P(c := p)) \<Longrightarrow> releases c (l, P)"
  unfolding releases_def by (auto intro: converse_rtranclp_into_rtranclp)

lemma owner_releases:
  assumes "locked l \<noteq> 0" "owns (P c)"
  shows "releases c (l, P)"
proof -
  have rel: "releases c (l, P)" if "P c = Release" for l P
    using sync_step.release[of P c l] that unfolding releases_def by force
  have clr: "releases c (l, P)" if "P c = Clear_Holder" for l P
    using releases_step[OF sync_step.clear_holder[of P c l, OF that]] rel by simp
  have pcs: "releases c (l, P)" if "P c = Clear_Pcs" for l P
    using releases_step[OF sync_step.clear_pcs[of P c l, OF that]] clr by simp
  have tst: "releases c (l, P)" if "P c = Test_Release" "locked l \<noteq> 0" for l P
    using releases_step[OF sync_step.held[of P c l, OF that]] pcs by simp
  have crit: "releases c (l, P)" if "P c = Critical" "locked l \<noteq> 0" for l P
    using releases_step[OF sync_step.leave[of P c l, OF that(1)]] tst that(2) by simp
  have rec: "releases c (l, P)" if "P c = Record" "locked l \<noteq> 0" for l P
    using releases_step[OF sync_step.holder[of P c l, OF that(1)]] crit that(2) by simp
  show ?thesis using assms rel clr pcs tst crit rec by (auto simp: owns_def)
qed

lemma spinner_enters:
  assumes "sync_inv (l, P)" "P d = Spin"
  shows "\<exists>s'. sync_step\<^sup>*\<^sup>* (l, P) s' \<and> snd s' d = Critical"
proof -
  have enter: "\<exists>s'. sync_step\<^sup>*\<^sup>* (l, P) s' \<and> snd s' d = Critical" if "P d = Spin" "locked l = 0" for l P
  proof -
    have "sync_step (l, P) (l\<lparr>locked := 1\<rparr>, P(d := Record))"
      using that by (intro sync_step.acquire[of P d l 0]) (simp_all add: xchg_locked_def)
    moreover have "sync_step (l\<lparr>locked := 1\<rparr>, P(d := Record)) (l\<lparr>locked := 1, holder_cpu := Some d\<rparr>, P(d := Record, d := Critical))"
      using sync_step.holder[of "P(d := Record)" d "l\<lparr>locked := 1\<rparr>"] by simp
    ultimately have "sync_step\<^sup>*\<^sup>* (l, P) (l\<lparr>locked := 1, holder_cpu := Some d\<rparr>, P(d := Record, d := Critical))" by simp
    then show ?thesis by fastforce
  qed
  show ?thesis
  proof (cases "locked l = 0")
    case False
    then obtain c where c: "owns (P c)" using assms(1) by auto
    then obtain l' where l': "sync_step\<^sup>*\<^sup>* (l, P) (l', P(c := Outside))" "locked l' = 0"
      using owner_releases[of l P c] False by (auto simp: releases_def)
    have "c \<noteq> d" using c assms(2) by auto
    then show ?thesis using enter[of "P(c := Outside)" l'] l' assms(2) by (auto intro: rtranclp_trans)
  qed (use enter assms(2) in blast)
qed

end
