(* ===== verification/DeviceH.thy ===== *)
theory DeviceH
  imports Cpu MmuH Sync Handlers EarlyKmmap
begin

text \<open>
  The structures of \<^verbatim>\<open>include/aim/device.h\<close> and the state that the device and console code
  shares: the devices by their addresses, the registered output functions of the console and its
  lock. A function pointer is a value of a type that has one constructor for each function
  that is ever stored there; a null pointer is \<^term>\<open>None\<close>, or a constructor of its own.
\<close>

section \<open>Devices and drivers\<close>

definition DEVCLASS_NON :: int where "DEVCLASS_NON = 0"
definition DEVCLASS_CHR :: int where "DEVCLASS_CHR = 1"
definition DEVCLASS_BLK :: int where "DEVCLASS_BLK = 2"
definition DEVCLASS_NET :: int where "DEVCLASS_NET = 3"
definition DEVCLASS_BUS :: int where "DEVCLASS_BUS = 4"

definition DEV_NAME_MAX :: nat where "DEV_NAME_MAX = 64"
definition NODEV :: u32 where "NODEV = -1"
definition NOMAJOR :: u32 where "NOMAJOR = -1"
definition MAJOR_MAX :: nat where "MAJOR_MAX = 16"

datatype width = W8 | W16 | W32

fun width_of :: "int \<Rightarrow> width option" where
  "width_of w = (if w = 8 then Some W8 else if w = 16 then Some W16 else if w = 32 then Some W32 else None)"

text \<open>The access functions of the memory bus and of the port bus (\<^verbatim>\<open>bus_read_fp\<close>, \<^verbatim>\<open>bus_write_fp\<close>).\<close>

datatype access_fp = Mem_Fp width | Port_Fp width

text \<open>The values of \<^verbatim>\<open>get_read_fp\<close> and \<^verbatim>\<open>get_write_fp\<close> of a bus driver.\<close>

datatype get_fp = GET_NULL | MEM_GET | PORT_GET

record device =
  dev_name :: "char list"
  dev_class :: int
  devno :: u32
  dev_bus :: u32
  dev_base :: u64
  dev_nregs :: int
  get_read_fp :: get_fp
  get_write_fp :: get_fp
  addr_width :: int

section \<open>The shared state\<close>

datatype putchar_fp = Early_Console_Putchar | Console_Putchar
datatype puts_fp = Default_Kputs

record kern =
  km :: mach
  devs :: "u32 \<Rightarrow> device"
  emaps :: early_kmmap
  uu_putchar :: "putchar_fp option"
  uu_puts :: "puts_fp option"
  con_lock :: lock
  uu_mapped_bus :: u32
  uu_mapped_base :: u64
  my_device :: u32
  early_uart :: u32

definition set_dev :: "u32 \<Rightarrow> (device \<Rightarrow> device) \<Rightarrow> kern \<Rightarrow> kern" where
  "set_dev d f k = k\<lparr>devs := (devs k)(d := f (devs k d))\<rparr>"

lemma set_dev_simps [simp]:
  "devs (set_dev d f k) = (devs k)(d := f (devs k d))" "km (set_dev d f k) = km k"
  "emaps (set_dev d f k) = emaps k" "uu_putchar (set_dev d f k) = uu_putchar k"
  "uu_puts (set_dev d f k) = uu_puts k" "con_lock (set_dev d f k) = con_lock k"
  by (simp_all add: set_dev_def)

end
