(* ===== verification/Bus.thy ===== *)
theory Bus
  imports DeviceH
begin

text \<open>
  The memory bus (\<^verbatim>\<open>drivers/io/io-mem.c\<close>) and the port bus (\<^verbatim>\<open>drivers/io/io-port.c\<close>), with
  the accessors of \<^verbatim>\<open>include/aim/io.h\<close> and \<^verbatim>\<open>include/arch/i386/arch-io.h\<close>, for a kernel that is
  configured with both buses as roots. A port bus that is connected to another bus passes
  its accesses on to it; through a chain of buses that ends in no root an access does not
  return, and neither does the call of a null pointer.
\<close>

section \<open>Accesses to memory\<close>

definition read8 :: "u32 \<Rightarrow> mach \<Rightarrow> u8" where "read8 addr s = mem s addr"
definition read16 :: "u32 \<Rightarrow> mach \<Rightarrow> u16" where "read16 addr s = load16 (mem s) addr"
definition read32 :: "u32 \<Rightarrow> mach \<Rightarrow> u32" where "read32 addr s = load32 (mem s) addr"

definition write8 :: "u32 \<Rightarrow> u8 \<Rightarrow> mach \<Rightarrow> mach" where "write8 addr data s = s\<lparr>mem := (mem s)(addr := data)\<rparr>"
definition write16 :: "u32 \<Rightarrow> u16 \<Rightarrow> mach \<Rightarrow> mach" where "write16 addr data s = s\<lparr>mem := store16 (mem s) addr data\<rparr>"
definition write32 :: "u32 \<Rightarrow> u32 \<Rightarrow> mach \<Rightarrow> mach" where "write32 addr data s = s\<lparr>mem := store32 (mem s) addr data\<rparr>"

fun mem_read :: "width \<Rightarrow> u64 \<Rightarrow> u64 \<Rightarrow> mach \<Rightarrow> u64" where
  "mem_read W8 base offset s = ucast (read8 (ucast (base + offset)) s)"
| "mem_read W16 base offset s = ucast (read16 (ucast (base + offset)) s)"
| "mem_read W32 base offset s = ucast (read32 (ucast (base + offset)) s)"

fun mem_write :: "width \<Rightarrow> u64 \<Rightarrow> u64 \<Rightarrow> u64 \<Rightarrow> mach \<Rightarrow> mach" where
  "mem_write W8 base offset val s = write8 (ucast (base + offset)) (ucast val) s"
| "mem_write W16 base offset val s = write16 (ucast (base + offset)) (ucast val) s"
| "mem_write W32 base offset val s = write32 (ucast (base + offset)) (ucast val) s"

definition mem_get_read_fp :: "int \<Rightarrow> access_fp option" where
  "mem_get_read_fp data_width = map_option Mem_Fp (width_of data_width)"

definition mem_get_write_fp :: "int \<Rightarrow> access_fp option" where
  "mem_get_write_fp data_width = map_option Mem_Fp (width_of data_width)"

section \<open>Accesses to ports\<close>

fun port_in :: "width \<Rightarrow> u16 \<Rightarrow> mach \<Rightarrow> u64 \<times> mach" where
  "port_in W8 port s = (let (v, s) = inb port s in (ucast v, s))"
| "port_in W16 port s = (let (v, s) = inw port s in (ucast v, s))"
| "port_in W32 port s = (let (v, s) = inl port s in (ucast v, s))"

fun port_out :: "width \<Rightarrow> u16 \<Rightarrow> u64 \<Rightarrow> mach \<Rightarrow> mach" where
  "port_out W8 port val s = outb port (ucast val) s"
| "port_out W16 port val s = outw port (ucast val) s"
| "port_out W32 port val s = outl port (ucast val) s"

definition port_get_read_fp :: "int \<Rightarrow> access_fp option" where
  "port_get_read_fp data_width = map_option Port_Fp (width_of data_width)"

definition port_get_write_fp :: "int \<Rightarrow> access_fp option" where
  "port_get_write_fp data_width = map_option Port_Fp (width_of data_width)"

fun bits :: "width \<Rightarrow> int" where
  "bits W8 = 8" | "bits W16 = 16" | "bits W32 = 32"

text \<open>The call of \<^verbatim>\<open>get_read_fp\<close> or \<^verbatim>\<open>get_write_fp\<close>: the outer \<^term>\<open>None\<close> is the call of a null pointer.\<close>

fun call_get_read_fp :: "get_fp \<Rightarrow> int \<Rightarrow> access_fp option option" where
  "call_get_read_fp GET_NULL w = None"
| "call_get_read_fp MEM_GET w = Some (mem_get_read_fp w)"
| "call_get_read_fp PORT_GET w = Some (port_get_read_fp w)"

fun call_get_write_fp :: "get_fp \<Rightarrow> int \<Rightarrow> access_fp option option" where
  "call_get_write_fp GET_NULL w = None"
| "call_get_write_fp MEM_GET w = Some (mem_get_write_fp w)"
| "call_get_write_fp PORT_GET w = Some (port_get_write_fp w)"

partial_function (option) bus_read :: "(u32 \<Rightarrow> device) \<Rightarrow> access_fp \<Rightarrow> u32 \<Rightarrow> u64 \<Rightarrow> u64 \<Rightarrow> mach \<Rightarrow> (u64 \<times> mach) option" where
  "bus_read D fp inst base offset s = (case fp of
     Mem_Fp w \<Rightarrow> Some (mem_read w base offset s, s)
   | Port_Fp w \<Rightarrow>
       (let bus = dev_bus (D inst)
        in if bus \<noteq> 0
           then (case call_get_read_fp (get_read_fp (D bus)) (bits w) of
                   Some (Some bus_read_fp) \<Rightarrow> bus_read D bus_read_fp bus (dev_base (D inst)) (base + offset) s
                 | _ \<Rightarrow> None)
           else Some (port_in w (ucast (base + offset)) s)))"

partial_function (option) bus_write :: "(u32 \<Rightarrow> device) \<Rightarrow> access_fp \<Rightarrow> u32 \<Rightarrow> u64 \<Rightarrow> u64 \<Rightarrow> u64 \<Rightarrow> mach \<Rightarrow> mach option" where
  "bus_write D fp inst base offset val s = (case fp of
     Mem_Fp w \<Rightarrow> Some (mem_write w base offset val s)
   | Port_Fp w \<Rightarrow>
       (let bus = dev_bus (D inst)
        in if bus \<noteq> 0
           then (case call_get_write_fp (get_write_fp (D bus)) (bits w) of
                   Some (Some bus_write_fp) \<Rightarrow> bus_write D bus_write_fp bus (dev_base (D inst)) (base + offset) val s
                 | _ \<Rightarrow> None)
           else Some (port_out w (ucast (base + offset)) val s)))"

section \<open>Setting up the buses\<close>

definition portio_bus_connect :: "u32 \<Rightarrow> u32 \<Rightarrow> u64 \<Rightarrow> kern \<Rightarrow> kern" where
  "portio_bus_connect portio bus base = set_dev portio (\<lambda>d. d\<lparr>dev_base := base, dev_bus := bus\<rparr>)"

definition uu_portio_bus_init :: "u32 \<Rightarrow> kern \<Rightarrow> kern" where
  "uu_portio_bus_init portio = set_dev portio (\<lambda>d. d\<lparr>get_read_fp := PORT_GET, get_write_fp := PORT_GET\<rparr>)"

definition early_port_bus :: device where
  "early_port_bus = \<lparr>dev_name = [], dev_class = DEVCLASS_BUS, devno = 0, dev_bus = 0, dev_base = 0, dev_nregs = 0,
     get_read_fp = GET_NULL, get_write_fp = GET_NULL, addr_width = 32\<rparr>"

definition early_memory_bus :: device where
  "early_memory_bus = \<lparr>dev_name = ''memory'', dev_class = DEVCLASS_BUS, devno = 0, dev_bus = 0, dev_base = 0, dev_nregs = 0,
     get_read_fp = GET_NULL, get_write_fp = GET_NULL, addr_width = 32\<rparr>"

text \<open>
  The handlers for the jump to high addresses set the same pointers again, on the
  early buses at the addresses \<open>port\<close> and \<open>memory\<close>.
\<close>

definition port_jump_handler :: "u32 \<Rightarrow> kern \<Rightarrow> kern" where
  "port_jump_handler port = uu_portio_bus_init port"

definition mem_jump_handler :: "u32 \<Rightarrow> kern \<Rightarrow> kern" where
  "mem_jump_handler memory = set_dev memory (\<lambda>d. d\<lparr>get_read_fp := MEM_GET, get_write_fp := MEM_GET\<rparr>)"

definition io_port_init :: "u32 \<Rightarrow> u32 \<Rightarrow> kern \<times> kern jump_handlers \<Rightarrow> ((kern \<times> kern jump_handlers) \<times> int) outcome" where
  "io_port_init port port_bus = (\<lambda>(k, q).
     let k = uu_portio_bus_init port_bus k
     in bind_outcome (jump_handlers_add (port_jump_handler port) q) (\<lambda>(q, r).
          if r \<noteq> 0 then Done ((k, q), EOF) else Done ((k, q), 0)))"

definition io_mem_init :: "u32 \<Rightarrow> u32 \<Rightarrow> kern \<times> kern jump_handlers \<Rightarrow> ((kern \<times> kern jump_handlers) \<times> int) outcome" where
  "io_mem_init memory memory_bus = (\<lambda>(k, q).
     let k = set_dev memory_bus (\<lambda>d. d\<lparr>get_read_fp := MEM_GET, get_write_fp := MEM_GET\<rparr>) k
     in bind_outcome (jump_handlers_add (mem_jump_handler memory) q) (\<lambda>(q, r).
          if r \<noteq> 0 then Done ((k, q), EOF) else Done ((k, q), 0)))"

section \<open>What an access does\<close>

lemma width_of_bits [simp]: "width_of (bits w) = Some w"
  by (cases w) simp_all

declare width_of.simps [simp del]

lemma bus_read_mem: "bus_read D (Mem_Fp w) inst base offset s = Some (mem_read w base offset s, s)"
  by (simp add: bus_read.simps)

lemma bus_write_mem: "bus_write D (Mem_Fp w) inst base offset val s = Some (mem_write w base offset val s)"
  by (simp add: bus_write.simps)

lemma bus_read_root:
  "dev_bus (D inst) = 0 \<Longrightarrow> bus_read D (Port_Fp w) inst base offset s = Some (port_in w (ucast (base + offset)) s)"
  by (simp add: bus_read.simps)

lemma bus_write_root:
  "dev_bus (D inst) = 0 \<Longrightarrow> bus_write D (Port_Fp w) inst base offset val s = Some (port_out w (ucast (base + offset)) val s)"
  by (simp add: bus_write.simps)

text \<open>A port bus on the memory bus turns a port into a memory address.\<close>

lemma bus_read_memory_mapped:
  assumes "dev_bus (D inst) = bus" "bus \<noteq> 0" "get_read_fp (D bus) = MEM_GET"
  shows "bus_read D (Port_Fp w) inst base offset s = Some (mem_read w (dev_base (D inst)) (base + offset) s, s)"
  using assms by (subst bus_read.simps) (simp add: mem_get_read_fp_def bus_read_mem)

lemma bus_write_memory_mapped:
  assumes "dev_bus (D inst) = bus" "bus \<noteq> 0" "get_write_fp (D bus) = MEM_GET"
  shows "bus_write D (Port_Fp w) inst base offset val s = Some (mem_write w (dev_base (D inst)) (base + offset) val s)"
  using assms by (subst bus_write.simps) (simp add: mem_get_write_fp_def bus_write_mem)

text \<open>What is written to a memory bus is read back, at the width of the access.\<close>

lemma mem_read_write:
  "mem_read W8 base offset (mem_write W8 base offset val s) = val AND mask 8"
  "mem_read W16 base offset (mem_write W16 base offset val s) = val AND mask 16"
  "mem_read W32 base offset (mem_write W32 base offset val s) = val AND mask 32"
  by (auto simp: read8_def write8_def read16_def write16_def read32_def write32_def bit_simps intro!: bit_word_eqI)

text \<open>A 32-bit write to a port sends only the low byte.\<close>

lemma port_out32_byte: "trace (port_out W32 port val s) = trace s @ [Out32 port (ucast (val AND mask 8))]"
proof -
  have "(ucast (ucast val :: u8) :: u32) = ucast (val AND mask 8)" by (rule bit_word_eqI) (auto simp: bit_simps)
  then show ?thesis by (simp add: outl_def log_io_def)
qed

text \<open>The distance of a device from the root of its buses.\<close>

inductive rooted :: "(u32 \<Rightarrow> device) \<Rightarrow> access_fp \<Rightarrow> u32 \<Rightarrow> bool" for D where
  mem: "rooted D (Mem_Fp w) inst"
| root: "dev_bus (D inst) = 0 \<Longrightarrow> rooted D (Port_Fp w) inst"
| via: "dev_bus (D inst) = bus \<Longrightarrow> bus \<noteq> 0 \<Longrightarrow> call_get_read_fp (get_read_fp (D bus)) (bits w) = Some (Some fp) \<Longrightarrow>
    get_write_fp (D bus) = get_read_fp (D bus) \<Longrightarrow> rooted D fp bus \<Longrightarrow> rooted D (Port_Fp w) inst"

lemma get_read_write_fp: "call_get_write_fp g w = call_get_read_fp g w"
  by (cases g) (simp_all add: mem_get_read_fp_def mem_get_write_fp_def port_get_read_fp_def port_get_write_fp_def)

lemma rooted_returns:
  assumes "rooted D fp inst"
  shows "(\<exists>r. bus_read D fp inst base offset s = Some r) \<and> (\<exists>s'. bus_write D fp inst base offset val s = Some s')"
  using assms
proof (induction arbitrary: base offset)
  case (via inst bus w fp)
  then show ?case
    by (subst bus_read.simps, subst bus_write.simps) (auto simp: get_read_write_fp)
qed (auto simp: bus_read_mem bus_write_mem bus_read_root bus_write_root)

end
