(* ===== verification/Uart.thy ===== *)
theory Uart
  imports Bus "HOL-Library.Monad_Syntax"
begin

text \<open>
  The driver routines of the NS16550 serial port (\<^verbatim>\<open>drivers/serial/uart-ns16550.c\<close> with the
  registers of \<^verbatim>\<open>drivers/serial/uart-ns16550-hw.h\<close>). A device is the address of its
  \<^verbatim>\<open>struct chr_device\<close>; its accesses go through the bus it is attached to. Waiting for a
  device that never becomes ready does not return.
\<close>

section \<open>Registers\<close>

definition UART_BASE :: u64 where "UART_BASE = 0x3f8"
definition UART_FREQ :: u64 where "UART_FREQ = 1843200"
definition UART_BAUDRATE :: u64 where "UART_BAUDRATE = 115200"
definition UART_RCV_BUFFER :: u64 where "UART_RCV_BUFFER = 0"
definition UART_TRANS_HOLD :: u64 where "UART_TRANS_HOLD = 0"
definition UART_INTR_ENABLE :: u64 where "UART_INTR_ENABLE = 1"
definition UART_FIFO_CONTROL :: u64 where "UART_FIFO_CONTROL = 2"
definition UART_LINE_CONTROL :: u64 where "UART_LINE_CONTROL = 3"
definition UART_MODEM_CONTROL :: u64 where "UART_MODEM_CONTROL = 4"
definition UART_LINE_STATUS :: u64 where "UART_LINE_STATUS = 5"
definition UART_DIVISOR_LSB :: u64 where "UART_DIVISOR_LSB = 0"
definition UART_DIVISOR_MSB :: u64 where "UART_DIVISOR_MSB = 1"
definition UART_IER_RBFI :: u64 where "UART_IER_RBFI = 0x01"
definition UART_FCR_RTB_4 :: u64 where "UART_FCR_RTB_4 = 0x40"
definition UART_FCR_RST_TRANSMIT :: u64 where "UART_FCR_RST_TRANSMIT = 0x04"
definition UART_FCR_RST_RECEIVER :: u64 where "UART_FCR_RST_RECEIVER = 0x02"
definition UART_FCR_ENABLE :: u64 where "UART_FCR_ENABLE = 0x01"
definition UART_LCR_DLAB :: u64 where "UART_LCR_DLAB = 0x80"
definition UART_LCR_PARITY_NONE :: u64 where "UART_LCR_PARITY_NONE = 0x00"
definition UART_LCR_DATA_8BIT :: u64 where "UART_LCR_DATA_8BIT = 0x3"
definition UART_LCR_STOP_1BIT :: u64 where "UART_LCR_STOP_1BIT = 0x0"
definition UART_MCR_RTSC :: u64 where "UART_MCR_RTSC = 0x02"
definition UART_MCR_DTRC :: u64 where "UART_MCR_DTRC = 0x01"
definition UART_LSR_THRE :: u64 where "UART_LSR_THRE = 0x20"
definition UART_LSR_DATA_READY :: u64 where "UART_LSR_DATA_READY = 0x01"

lemmas uart_reg_defs = UART_RCV_BUFFER_def UART_TRANS_HOLD_def UART_INTR_ENABLE_def UART_FIFO_CONTROL_def
  UART_LINE_CONTROL_def UART_MODEM_CONTROL_def UART_LINE_STATUS_def UART_DIVISOR_LSB_def UART_DIVISOR_MSB_def
lemmas uart_bit_defs = UART_IER_RBFI_def UART_FCR_RTB_4_def UART_FCR_RST_TRANSMIT_def UART_FCR_RST_RECEIVER_def
  UART_FCR_ENABLE_def UART_LCR_DLAB_def UART_LCR_PARITY_NONE_def UART_LCR_DATA_8BIT_def UART_LCR_STOP_1BIT_def
  UART_MCR_RTSC_def UART_MCR_DTRC_def UART_LSR_THRE_def UART_LSR_DATA_READY_def UART_FREQ_def UART_BAUDRATE_def

section \<open>The routines\<close>

text \<open>
  All the routines that only write begin the same way: they ask the bus for its function for
  8-bit writes and do nothing when there is none.
\<close>

definition with_write8 :: "u32 \<Rightarrow> ((u64 \<Rightarrow> u64 \<Rightarrow> mach \<Rightarrow> mach option) \<Rightarrow> mach \<Rightarrow> mach option) \<Rightarrow> kern \<Rightarrow> kern option" where
  "with_write8 inst body k =
     (let bus = dev_bus (devs k inst)
      in case call_get_write_fp (get_write_fp (devs k bus)) 8 of
           None \<Rightarrow> None
         | Some None \<Rightarrow> Some k
         | Some (Some bus_write8) \<Rightarrow>
             map_option (\<lambda>s. k\<lparr>km := s\<rparr>) (body (bus_write (devs k) bus_write8 bus (dev_base (devs k inst))) (km k)))"

definition uu_uart_ns16550_init :: "u32 \<Rightarrow> kern \<Rightarrow> kern option" where
  "uu_uart_ns16550_init inst = with_write8 inst (\<lambda>bus_write8 s. do {
     s \<leftarrow> bus_write8 UART_FIFO_CONTROL
            (UART_FCR_RTB_4 OR UART_FCR_RST_TRANSMIT OR UART_FCR_RST_RECEIVER OR UART_FCR_ENABLE) s;
     s \<leftarrow> bus_write8 UART_LINE_CONTROL UART_LCR_DLAB s;
     s \<leftarrow> bus_write8 UART_DIVISOR_LSB ((UART_FREQ div UART_BAUDRATE) AND 0xff) s;
     s \<leftarrow> bus_write8 UART_DIVISOR_MSB (drop_bit 8 (UART_FREQ div UART_BAUDRATE) AND 0xff) s;
     bus_write8 UART_LINE_CONTROL (UART_LCR_DATA_8BIT OR UART_LCR_STOP_1BIT OR UART_LCR_PARITY_NONE) s
   })"

definition uu_uart_ns16550_enable :: "u32 \<Rightarrow> kern \<Rightarrow> kern option" where
  "uu_uart_ns16550_enable inst = with_write8 inst (\<lambda>bus_write8. bus_write8 UART_MODEM_CONTROL (UART_MCR_RTSC OR UART_MCR_DTRC))"

definition uu_uart_ns16550_disable :: "u32 \<Rightarrow> kern \<Rightarrow> kern option" where
  "uu_uart_ns16550_disable inst = with_write8 inst (\<lambda>bus_write8. bus_write8 UART_MODEM_CONTROL 0)"

definition uu_uart_ns16550_enable_interrupt :: "u32 \<Rightarrow> kern \<Rightarrow> kern option" where
  "uu_uart_ns16550_enable_interrupt inst = with_write8 inst (\<lambda>bus_write8. bus_write8 UART_INTR_ENABLE UART_IER_RBFI)"

definition uu_uart_ns16550_disable_interrupt :: "u32 \<Rightarrow> kern \<Rightarrow> kern option" where
  "uu_uart_ns16550_disable_interrupt inst = with_write8 inst (\<lambda>bus_write8. bus_write8 UART_INTR_ENABLE 0)"

text \<open>The loop that reads the line status until one of the bits \<open>msk\<close> is set.\<close>

partial_function (option) lsr_wait :: "(u32 \<Rightarrow> device) \<Rightarrow> access_fp \<Rightarrow> u32 \<Rightarrow> u64 \<Rightarrow> u64 \<Rightarrow> mach \<Rightarrow> mach option" where
  "lsr_wait D bus_read8 bus base msk s =
     Option.bind (bus_read D bus_read8 bus base UART_LINE_STATUS s)
       (\<lambda>(buf, s). if buf AND msk = 0 then lsr_wait D bus_read8 bus base msk s else Some s)"

definition uu_uart_ns16550_getchar :: "u32 \<Rightarrow> kern \<Rightarrow> (u8 \<times> kern) option" where
  "uu_uart_ns16550_getchar inst k =
     (let bus = dev_bus (devs k inst); base = dev_base (devs k inst)
      in case call_get_read_fp (get_read_fp (devs k bus)) 8 of
           None \<Rightarrow> None
         | Some None \<Rightarrow> Some (0, k)
         | Some (Some bus_read8) \<Rightarrow> do {
             s \<leftarrow> lsr_wait (devs k) bus_read8 bus base UART_LSR_DATA_READY (km k);
             (buf, s) \<leftarrow> bus_read (devs k) bus_read8 bus base UART_RCV_BUFFER s;
             Some (ucast buf, k\<lparr>km := s\<rparr>)
           })"

definition uu_uart_ns16550_putchar :: "u32 \<Rightarrow> u8 \<Rightarrow> kern \<Rightarrow> (int \<times> kern) option" where
  "uu_uart_ns16550_putchar inst c k =
     (let bus = dev_bus (devs k inst); base = dev_base (devs k inst)
      in case (call_get_read_fp (get_read_fp (devs k bus)) 8, call_get_write_fp (get_write_fp (devs k bus)) 8) of
           (Some (Some bus_read8), Some (Some bus_write8)) \<Rightarrow> do {
             s \<leftarrow> lsr_wait (devs k) bus_read8 bus base UART_LSR_THRE (km k);
             s \<leftarrow> bus_write (devs k) bus_write8 bus base UART_TRANS_HOLD (ucast c) s;
             Some (0, k\<lparr>km := s\<rparr>)
           }
         | (Some _, Some _) \<Rightarrow> Some (EOF, k)
         | _ \<Rightarrow> None)"

section \<open>A serial port on the port bus\<close>

text \<open>The device is attached to a root port bus that has its functions, with its registers at \<open>port\<close>.\<close>

definition on_port_bus :: "kern \<Rightarrow> u32 \<Rightarrow> u16 \<Rightarrow> bool" where
  "on_port_bus k inst port \<longleftrightarrow> dev_bus (devs k (dev_bus (devs k inst))) = 0 \<and>
     get_read_fp (devs k (dev_bus (devs k inst))) = PORT_GET \<and>
     get_write_fp (devs k (dev_bus (devs k inst))) = PORT_GET \<and> ucast (dev_base (devs k inst)) = port"

lemma on_port_bus_km [simp]: "on_port_bus (k\<lparr>km := s\<rparr>) inst port = on_port_bus k inst port"
  by (simp add: on_port_bus_def)

text \<open>The line status shows a bit of \<open>msk\<close> after finitely many reads.\<close>

definition becomes_ready :: "(io list \<Rightarrow> u16 \<Rightarrow> u32) \<Rightarrow> u16 \<Rightarrow> u8 \<Rightarrow> bool" where
  "becomes_ready dev port msk \<longleftrightarrow> (\<forall>t. \<exists>n. ucast (dev (polled dev (port + 5) n t) (port + 5)) AND msk \<noteq> (0 :: u8))"

fun outputs :: "u16 \<Rightarrow> io list \<Rightarrow> u8 list" where
  "outputs port (Out8 p v # t) = (if p = port then v # outputs port t else outputs port t)"
| "outputs port (_ # t) = outputs port t"
| "outputs port [] = []"

lemma outputs_append [simp]: "outputs port (t @ u) = outputs port t @ outputs port u"
proof (induction t)
  case (Cons e t)
  then show ?case by (cases e) auto
qed simp

lemma outputs_polled [simp]: "outputs port (polled dev p n t) = outputs port t"
  by (induction n arbitrary: t) auto

lemma width_8: "width_of 8 = Some W8"
  by (simp add: width_of.simps)

lemma ucast_plus: "(ucast (a + b :: u64) :: u16) = ucast a + ucast b"
proof -
  have "(65536 :: nat) dvd 18446744073709551616" by simp
  then show ?thesis
    by (simp add: word_unat_eq_iff unsigned_ucast_eq unat_word_ariths take_bit_eq_mod mod_mod_cancel mod_simps)
qed

lemma ucast_byte: "(ucast (ucast c :: u64) :: u8) = c" for c :: u8
  by (rule bit_word_eqI) (simp add: bit_simps)

lemma ucast_and_zero: "(ucast v AND ucast msk = (0 :: u64)) = (v AND msk = 0)" for v msk :: u8
proof -
  have "ucast v AND ucast msk = (ucast (v AND msk) :: u64)" by (rule bit_word_eqI) (auto simp: bit_simps)
  moreover have "(ucast w = (0 :: u64)) = (w = 0)" for w :: u8
    using ucast_byte[of w] by (metis ucast_0)
  ultimately show ?thesis by simp
qed

lemma with_write8_port:
  assumes "on_port_bus k inst port"
  shows "with_write8 inst body k =
    map_option (\<lambda>s. k\<lparr>km := s\<rparr>) (body (\<lambda>off v s. Some (outb (port + ucast off) (ucast v) s)) (km k))"
proof -
  define bus where "bus = dev_bus (devs k inst)"
  have "bus_write (devs k) (Port_Fp W8) bus (dev_base (devs k inst)) =
      (\<lambda>off v s. Some (outb (port + ucast off) (ucast v) s))"
    using assms by (intro ext) (simp add: bus_def on_port_bus_def bus_write_root ucast_plus)
  moreover have "call_get_write_fp (get_write_fp (devs k bus)) 8 = Some (Some (Port_Fp W8))"
    using assms by (simp add: bus_def on_port_bus_def port_get_write_fp_def width_8)
  ultimately show ?thesis by (simp add: with_write8_def bus_def)
qed

text \<open>The programming of the serial port: divisor 16, eight data bits, one stop bit, no parity.\<close>

lemma uart_init_programs:
  assumes "on_port_bus k inst port"
  shows "uu_uart_ns16550_init inst k = Some (k\<lparr>km := (km k)\<lparr>trace := trace (km k) @
    [Out8 (port + 2) 0x47, Out8 (port + 3) 0x80, Out8 port 16, Out8 (port + 1) 0, Out8 (port + 3) 3]\<rparr>\<rparr>)"
  by (simp add: uu_uart_ns16550_init_def with_write8_port[OF assms] uart_reg_defs uart_bit_defs outb_def log_io_def)

text \<open>Waiting for a device that becomes ready ends, and only reads the line status.\<close>

lemma lsr_wait_returns:
  assumes "dev_bus (D bus) = 0" "ucast (devices s (polled (devices s) (ucast base + 5) n (trace s)) (ucast base + 5)) AND msk \<noteq> (0 :: u8)"
  shows "\<exists>j. lsr_wait D (Port_Fp W8) bus base (ucast msk) s = Some (s\<lparr>trace := polled (devices s) (ucast base + 5) (Suc j) (trace s)\<rparr>) \<and>
    ucast (devices s (polled (devices s) (ucast base + 5) j (trace s)) (ucast base + 5)) AND msk \<noteq> (0 :: u8)"
  using assms(2)
proof (induction n arbitrary: s)
  case 0
  then show ?case using assms(1)
    by (intro exI[of _ 0], subst lsr_wait.simps)
       (simp add: bus_read_root ucast_plus inb_def log_io_def Let_def UART_LINE_STATUS_def ucast_and_zero)
next
  case (Suc n)
  define p where "p = (ucast base + 5 :: u16)"
  define v where "v = (ucast (devices s (trace s) p) :: u8)"
  define s1 where "s1 = s\<lparr>trace := trace s @ [In8 p v]\<rparr>"
  have rd: "bus_read D (Port_Fp W8) bus base UART_LINE_STATUS s = Some (ucast v, s1)"
    using assms(1) by (simp add: bus_read_root ucast_plus inb_def log_io_def Let_def UART_LINE_STATUS_def v_def p_def s1_def)
  show ?case
  proof (cases "v AND msk = 0")
    case False
    then show ?thesis unfolding p_def[symmetric]
      by (intro exI[of _ 0], subst lsr_wait.simps) (simp add: rd ucast_and_zero s1_def v_def)
  next
    case True
    have "\<exists>j. lsr_wait D (Port_Fp W8) bus base (ucast msk) s1 = Some (s1\<lparr>trace := polled (devices s1) p (Suc j) (trace s1)\<rparr>) \<and>
        ucast (devices s1 (polled (devices s1) p j (trace s1)) p) AND msk \<noteq> (0 :: u8)"
      using Suc.IH[of s1] Suc.prems unfolding p_def[symmetric] by (simp add: s1_def v_def)
    then obtain j where "lsr_wait D (Port_Fp W8) bus base (ucast msk) s1 = Some (s1\<lparr>trace := polled (devices s1) p (Suc j) (trace s1)\<rparr>)"
        "ucast (devices s1 (polled (devices s1) p j (trace s1)) p) AND msk \<noteq> (0 :: u8)" by blast
    then show ?thesis using True unfolding p_def[symmetric]
      by (intro exI[of _ "Suc j"], subst lsr_wait.simps) (simp add: rd ucast_and_zero s1_def v_def)
  qed
qed

text \<open>A character that is put reaches the transmitter, after the device was ready for it.\<close>

lemma uart_putchar_sends:
  assumes "on_port_bus k inst port" "becomes_ready (devices (km k)) port 0x20"
  obtains t where "uu_uart_ns16550_putchar inst c k = Some (0, k\<lparr>km := (km k)\<lparr>trace := t\<rparr>\<rparr>)"
    "outputs port t = outputs port (trace (km k)) @ [c]"
proof -
  define bus where "bus = dev_bus (devs k inst)"
  define base where "base = dev_base (devs k inst)"
  define p where "p = port + 5"
  have ok: "dev_bus (devs k bus) = 0" "get_read_fp (devs k bus) = PORT_GET" "get_write_fp (devs k bus) = PORT_GET" "ucast base = port"
    using assms(1) by (simp_all add: on_port_bus_def bus_def base_def)
  obtain n where "ucast (devices (km k) (polled (devices (km k)) p n (trace (km k))) p) AND 0x20 \<noteq> (0 :: u8)"
    using assms(2) unfolding becomes_ready_def p_def by blast
  then obtain j where "lsr_wait (devs k) (Port_Fp W8) bus base (ucast (0x20 :: u8)) (km k) =
      Some ((km k)\<lparr>trace := polled (devices (km k)) p (Suc j) (trace (km k))\<rparr>)"
    using lsr_wait_returns[of "devs k" bus "km k" base n "0x20", OF ok(1)] unfolding ok(4) p_def by blast
  then show thesis using that ok
    by (simp add: uu_uart_ns16550_putchar_def bus_def[symmetric] base_def[symmetric] port_get_read_fp_def
        port_get_write_fp_def width_8 UART_LSR_THRE_def UART_TRANS_HOLD_def bus_write_root outb_def log_io_def ucast_byte)
qed

text \<open>
  The character that is got is the value that the receive buffer shows when the data are ready.
\<close>

lemma uart_getchar_receives:
  assumes "on_port_bus k inst port" "becomes_ready (devices (km k)) port 1"
  obtains t where "uu_uart_ns16550_getchar inst k =
      Some (ucast (devices (km k) t port), k\<lparr>km := (km k)\<lparr>trace := t @ [In8 port (ucast (devices (km k) t port))]\<rparr>\<rparr>)"
    "outputs port t = outputs port (trace (km k))"
proof -
  define bus where "bus = dev_bus (devs k inst)"
  define base where "base = dev_base (devs k inst)"
  define p where "p = port + 5"
  have ok: "dev_bus (devs k bus) = 0" "get_read_fp (devs k bus) = PORT_GET" "ucast base = port"
    using assms(1) by (simp_all add: on_port_bus_def bus_def base_def)
  obtain n where "ucast (devices (km k) (polled (devices (km k)) p n (trace (km k))) p) AND 1 \<noteq> (0 :: u8)"
    using assms(2) unfolding becomes_ready_def p_def by blast
  then obtain j where "lsr_wait (devs k) (Port_Fp W8) bus base (ucast (1 :: u8)) (km k) =
      Some ((km k)\<lparr>trace := polled (devices (km k)) p (Suc j) (trace (km k))\<rparr>)"
    using lsr_wait_returns[of "devs k" bus "km k" base n 1, OF ok(1)] unfolding ok(3) p_def by blast
  then show thesis using that[of "polled (devices (km k)) p (Suc j) (trace (km k))"] ok
    by (simp add: uu_uart_ns16550_getchar_def bus_def[symmetric] base_def[symmetric] port_get_read_fp_def
        width_8 UART_LSR_DATA_READY_def UART_RCV_BUFFER_def bus_read_root inb_def log_io_def ucast_byte Let_def)
qed

end
