(* ===== verification/Console.thy ===== *)
theory Console
  imports Uart Snprintf
begin

text \<open>
  The kernel console (\<^verbatim>\<open>kern/dev/console.c\<close>) and the console functions of the serial driver
  (\<^verbatim>\<open>drivers/serial/uart-ns16550.c\<close>). A string argument is the memory from its first character on, so
  that it ends with its terminator; a walk past the end of it does not return. The CPU that
  prints is an argument, because the lock names its holder.
\<close>

section \<open>Registered output functions\<close>

definition set_console :: "putchar_fp option \<Rightarrow> puts_fp option \<Rightarrow> kern \<Rightarrow> kern" where
  "set_console putchar puts k = k\<lparr>uu_putchar := putchar, uu_puts := puts, con_lock := spinlock_init (con_lock k)\<rparr>"

definition early_console_putchar :: "u32 \<Rightarrow> kern \<Rightarrow> (int \<times> kern) run" where
  "early_console_putchar c k =
     map_option (\<lambda>(_, k). Done (0, k)) (uu_uart_ns16550_putchar (early_uart k) (ucast c) k)"

definition console_putchar :: "u32 \<Rightarrow> kern \<Rightarrow> (int \<times> kern) run" where
  "console_putchar c k =
     rbind (rassert (my_device k \<noteq> 0)) (\<lambda>_. map_option Done (uu_uart_ns16550_putchar (my_device k) (ucast c) k))"

text \<open>A call of the pointer \<^verbatim>\<open>__putchar\<close>.\<close>

definition call_putchar :: "u32 \<Rightarrow> kern \<Rightarrow> (int \<times> kern) run" where
  "call_putchar c k = (case uu_putchar k of
     None \<Rightarrow> None
   | Some Early_Console_Putchar \<Rightarrow> early_console_putchar c k
   | Some Console_Putchar \<Rightarrow> console_putchar c k)"

definition kputchar :: "u32 \<Rightarrow> kern \<Rightarrow> (int \<times> kern) run" where
  "kputchar c k = (if uu_putchar k = None then rret (EOF, k) else call_putchar c k)"

text \<open>A \<^verbatim>\<open>char\<close> is signed when it is passed as an \<^verbatim>\<open>int\<close>.\<close>

definition char_int :: "char \<Rightarrow> u32" where
  "char_int c = scast (of_char c :: u8)"

primrec kputs_loop :: "(u32 \<Rightarrow> 'k \<Rightarrow> (int \<times> 'k) run) \<Rightarrow> char list \<Rightarrow> 'k \<Rightarrow> 'k run" where
  "kputs_loop putchar [] k = None"
| "kputs_loop putchar (c # s) k =
     (if c = CHR 0x00 then rret k
      else rbind (if c = CHR 0x0A then rbind (putchar 13 k) (\<lambda>(_, k). rret k) else rret k) (\<lambda>k.
             rbind (putchar (char_int c) k) (\<lambda>(_, k). kputs_loop putchar s k)))"

definition uu_kputs :: "char list \<Rightarrow> kern \<Rightarrow> (int \<times> kern) run" where
  "uu_kputs s k =
     (if uu_putchar k = None then rret (EOF, k)
      else rbind (kputs_loop call_putchar s k) (\<lambda>k. rret (0, k)))"

definition get_default_kputs :: puts_fp where "get_default_kputs = Default_Kputs"

definition kputs :: "nat \<Rightarrow> char list \<Rightarrow> kern \<Rightarrow> (int \<times> kern) run" where
  "kputs c s k = (case uu_puts k of
     None \<Rightarrow> rret (EOF, k)
   | Some Default_Kputs \<Rightarrow>
       rbind (spin_lock_irq_save c (km k) (con_lock k)) (\<lambda>(flags, l).
       rbind (uu_kputs s (k\<lparr>con_lock := l\<rparr>)) (\<lambda>(result, k).
       rbind (spin_unlock_irq_restore flags (km k) (con_lock k)) (\<lambda>(m, l).
       rret (result, k\<lparr>km := m, con_lock := l\<rparr>)))))"

definition BUFSIZ :: nat where "BUFSIZ = 1024"

definition kprintf :: "nat \<Rightarrow> (nat \<Rightarrow> u32) \<Rightarrow> (u32 \<Rightarrow> char list) \<Rightarrow> char list \<Rightarrow> kern \<Rightarrow> (int \<times> kern) run" where
  "kprintf c ap strs fmt k = (case vsnprintf BUFSIZ ap strs fmt of
     None \<Rightarrow> None
   | Some (printf_buf, result) \<Rightarrow> rbind (kputs c printf_buf k) (\<lambda>(_, k). rret (int result, k)))"

section \<open>The early console\<close>

definition MAP_NONE :: int where "MAP_NONE = 0"
definition MAP_LINEAR :: int where "MAP_LINEAR = 1"
definition MAP_DYNAMIC :: int where "MAP_DYNAMIC = 2"

text \<open>The result carries what is stored at \<^verbatim>\<open>mapped_base\<close>, if anything is.\<close>

definition get_mapped_base :: "u64 \<Rightarrow> int \<Rightarrow> kern \<Rightarrow> (kern \<times> u64 option \<times> int) outcome" where
  "get_mapped_base base type k =
     (if type = MAP_NONE then Done (k, Some base, 0)
      else if type = MAP_LINEAR then Done (k, Some (ucast (postmap_addr (ucast base) :: u32)), 0)
      else if type = MAP_DYNAMIC
      then let entry = \<lparr>em_paddr = base, em_vaddr = 0, em_size = 4096, em_type = EARLY_MAPPING_KMMAP\<rparr>
           in bind_outcome (early_mapping_add entry (emaps k)) (\<lambda>(em, ret).
                if ret < 0 then Done (k\<lparr>emaps := em\<rparr>, None, ret)
                else Done (k\<lparr>emaps := em\<rparr>, Some (ucast (em_vaddr entry)), 0))
      else Done (k, None, - ENOTSUP))"

definition uu_early_console_set_bus :: "u32 \<Rightarrow> u64 \<Rightarrow> kern \<Rightarrow> kern" where
  "uu_early_console_set_bus bus base k = set_dev (early_uart k) (\<lambda>d. d\<lparr>dev_bus := bus, dev_base := base\<rparr>) k"

definition console_jump_handler :: "kern \<Rightarrow> kern" where
  "console_jump_handler k =
     (let k = uu_early_console_set_bus (uu_mapped_bus k) (uu_mapped_base k) k
      in set_console (Some Early_Console_Putchar) (Some get_default_kputs) k)"

definition uu_early_console_init :: "u32 \<Rightarrow> u64 \<Rightarrow> u64 \<Rightarrow> kern \<times> kern jump_handlers \<Rightarrow> ((kern \<times> kern jump_handlers) \<times> int) run" where
  "uu_early_console_init bus base mapped_base = (\<lambda>(k, q).
     let k = uu_early_console_set_bus bus base k;
         k = k\<lparr>uu_mapped_bus := postmap_addr bus, uu_mapped_base := mapped_base\<rparr>
     in Option.bind (uu_uart_ns16550_init (early_uart k) k) (\<lambda>k.
        Option.bind (uu_uart_ns16550_enable (early_uart k) k) (\<lambda>k.
        let k = set_console (Some Early_Console_Putchar) (Some get_default_kputs) k
        in rbind (Some (jump_handlers_add console_jump_handler q)) (\<lambda>(q, r).
             if r \<noteq> 0 then None else rret ((k, q), 0)))))"

definition early_console_init :: "u32 \<Rightarrow> u64 \<Rightarrow> int \<Rightarrow> kern \<times> kern jump_handlers \<Rightarrow> ((kern \<times> kern jump_handlers) \<times> int) run" where
  "early_console_init bus base type = (\<lambda>(k, q).
     rbind (Some (get_mapped_base base type k)) (\<lambda>(k, mapped_base, ret).
       if ret < 0 then rret ((k, q), ret)
       else uu_early_console_init bus base (the mapped_base) (k, q)))"

section \<open>The contract of a character sink\<close>

text \<open>
  What \<^verbatim>\<open>__kputs\<close> relies on: a function that puts a character returns, stays usable and
  sends the low byte of its argument.
\<close>

definition crlf :: "char list \<Rightarrow> u8 list" where
  "crlf s = concat (map (\<lambda>c. if c = CHR 0x0A then [13, 10] else [of_char c]) s)"

lemma crlf_simps [simp]:
  "crlf [] = []" "crlf (c # s) = (if c = CHR 0x0A then [13, 10] else [of_char c]) @ crlf s" "crlf (s @ t) = crlf s @ crlf t"
  by (simp_all add: crlf_def)

lemma char_int_byte [simp]: "ucast (char_int c) = (of_char c :: u8)"
  unfolding char_int_def by (rule bit_word_eqI) (simp add: bit_simps)

locale char_sink =
  fixes putc :: "u32 \<Rightarrow> 'k \<Rightarrow> (int \<times> 'k) run"
    and usable :: "'k \<Rightarrow> 'k \<Rightarrow> bool"
    and sent :: "'k \<Rightarrow> u8 list"
  assumes putc_sends: "usable k0 k \<Longrightarrow> \<exists>r k'. putc c k = rret (r, k') \<and> usable k0 k' \<and> sent k' = sent k @ [ucast c]"
begin

lemma puts_sends:
  "usable k0 k \<Longrightarrow> \<exists>k'. kputs_loop putc (s @ CHR 0x00 # rest) k = rret k' \<and> usable k0 k' \<and>
     sent k' = sent k @ crlf (takeWhile (\<lambda>c. c \<noteq> CHR 0x00) s)"
proof (induction s arbitrary: k)
  case Nil
  then show ?case by simp
next
  case (Cons c s)
  show ?case
  proof (cases "c = CHR 0x00")
    case True
    then show ?thesis using Cons.prems by simp
  next
    case False
    obtain k1 where k1: "(if c = CHR 0x0A then rbind (putc 13 k) (\<lambda>(_, k). rret k) else rret k) = rret k1" "usable k0 k1"
      "sent k1 = sent k @ (if c = CHR 0x0A then [13] else [])"
      using putc_sends[OF Cons.prems, of 13] Cons.prems by (cases "c = CHR 0x0A") auto
    obtain r k2 where k2: "putc (char_int c) k1 = rret (r, k2)" "usable k0 k2" "sent k2 = sent k1 @ [of_char c]"
      using putc_sends[OF k1(2), of "char_int c"] by auto
    show ?thesis using Cons.IH[OF k2(2)] k1 k2 False by (cases "c = CHR 0x0A") auto
  qed
qed

end

text \<open>
  The console prints on the serial port at \<open>port\<close>; besides the trace of the accesses it changes
  nothing of the state \<open>k0\<close> in which it started.
\<close>

definition prints_on :: "u16 \<Rightarrow> kern \<Rightarrow> bool" where
  "prints_on port k \<longleftrightarrow> becomes_ready (devices (km k)) port 0x20 \<and> (case uu_putchar k of
     None \<Rightarrow> False
   | Some Early_Console_Putchar \<Rightarrow> on_port_bus k (early_uart k) port
   | Some Console_Putchar \<Rightarrow> my_device k \<noteq> 0 \<and> on_port_bus k (my_device k) port)"

definition same_console :: "u16 \<Rightarrow> kern \<Rightarrow> kern \<Rightarrow> bool" where
  "same_console port k0 k \<longleftrightarrow> prints_on port k \<and> (\<exists>t. k = k0\<lparr>km := (km k0)\<lparr>trace := t\<rparr>\<rparr>)"

lemma prints_on_lock [simp]: "prints_on port (k\<lparr>con_lock := l\<rparr>) = prints_on port k"
  by (simp add: prints_on_def on_port_bus_def split: option.splits putchar_fp.splits)

interpretation con: char_sink call_putchar "same_console port" "\<lambda>k. outputs port (trace (km k))" for port
proof
  fix k0 k :: kern and c :: u32 assume same: "same_console port k0 k"
  then have p: "prints_on port k" by (simp add: same_console_def)
  then have ready: "becomes_ready (devices (km k)) port 0x20" by (simp add: prints_on_def)
  obtain fp where fp: "uu_putchar k = Some fp" using p by (auto simp: prints_on_def split: option.splits)
  define inst where "inst = (case fp of Early_Console_Putchar \<Rightarrow> early_uart k | Console_Putchar \<Rightarrow> my_device k)"
  have inst: "on_port_bus k inst port" "fp = Console_Putchar \<Longrightarrow> inst \<noteq> 0"
    using p fp by (auto simp: prints_on_def inst_def split: putchar_fp.splits)
  obtain t where t: "uu_uart_ns16550_putchar inst (ucast c) k = Some (0, k\<lparr>km := (km k)\<lparr>trace := t\<rparr>\<rparr>)"
    "outputs port t = outputs port (trace (km k)) @ [ucast c]"
    by (rule uart_putchar_sends[OF inst(1) ready])
  have "call_putchar c k = rret (0, k\<lparr>km := (km k)\<lparr>trace := t\<rparr>\<rparr>)"
    using t(1) fp inst by (cases fp) (auto simp: call_putchar_def early_console_putchar_def console_putchar_def inst_def)
  moreover have "same_console port k0 (k\<lparr>km := (km k)\<lparr>trace := t\<rparr>\<rparr>)"
    using same by (auto simp: same_console_def prints_on_def split: option.splits putchar_fp.splits)
  ultimately show "\<exists>r k'. call_putchar c k = rret (r, k') \<and> same_console port k0 k' \<and>
      outputs port (trace (km k')) = outputs port (trace (km k)) @ [ucast c]"
    using t(2) by auto
qed

section \<open>Printing\<close>

text \<open>
  With the lock free, \<^verbatim>\<open>kputs\<close> sends the string with a carriage return before each line
  feed, and leaves the lock free and the interrupt flag as it was.
\<close>

lemma kputs_sends:
  assumes "prints_on port k" "uu_puts k = Some Default_Kputs" "lock_free (con_lock k)" "CHR 0x00 \<in> set s"
  shows "\<exists>t. kputs c s k = rret (0, k\<lparr>km := (km k)\<lparr>trace := t\<rparr>, con_lock := (con_lock k)\<lparr>pcs := (pcs (con_lock k))[0 := 0]\<rparr>\<rparr>) \<and>
    outputs port t = outputs port (trace (km k)) @ crlf (takeWhile (\<lambda>c. c \<noteq> CHR 0x00) s)"
proof -
  define l where "l = (con_lock k)\<lparr>locked := 1, holder_cpu := Some c\<rparr>"
  define k1 where "k1 = k\<lparr>con_lock := l\<rparr>"
  have lock: "spin_lock_irq_save c (km k) (con_lock k) = rret (eflags (km k), l)"
    using assms(3) by (simp add: spin_lock_irq_save_def spin_lock_free lock_free_def l_def local_irq_save_def readeflags_def)
  have "same_console port k1 k1" using assms(1)
    by (auto simp: same_console_def k1_def intro: exI[of _ "trace (km k)"])
  moreover obtain s1 s2 where s: "s = s1 @ CHR 0x00 # s2" "CHR 0x00 \<notin> set s1" using split_list_first[OF assms(4)] by blast
  ultimately obtain k2 where k2: "kputs_loop call_putchar s k1 = rret k2" "same_console port k1 k2"
    "outputs port (trace (km k2)) = outputs port (trace (km k1)) @ crlf (takeWhile (\<lambda>c. c \<noteq> CHR 0x00) s1)"
    using con.puts_sends[of port k1 k1 s1 s2] by auto
  obtain t where t: "k2 = k1\<lparr>km := (km k1)\<lparr>trace := t\<rparr>\<rparr>" using k2(2) by (auto simp: same_console_def)
  have u: "uu_kputs s k1 = rret (0, k2)" using k2(1) assms(1) by (auto simp: uu_kputs_def k1_def prints_on_def split: option.splits)
  have un: "spin_unlock l = rret (l\<lparr>pcs := (pcs l)[0 := 0], holder_cpu := None, locked := 0\<rparr>)"
    by (rule spin_unlock_locked) (simp add: l_def)
  have k2l: "con_lock k2 = l" by (simp add: t k1_def)
  have r: "kputs c s k = rret (0, k2\<lparr>km := (km k2)\<lparr>eflags := eflags (km k)\<rparr>, con_lock := l\<lparr>pcs := (pcs l)[0 := 0], holder_cpu := None, locked := 0\<rparr>\<rparr>)"
    by (simp add: kputs_def assms(2) lock k1_def[symmetric] u k2l spin_unlock_irq_restore_def un local_irq_restore_def seteflags_def)
  have e: "(km k2)\<lparr>eflags := eflags (km k)\<rparr> = (km k)\<lparr>trace := t\<rparr>" by (simp add: t k1_def)
  have "takeWhile (\<lambda>c. c \<noteq> CHR 0x00) s = takeWhile (\<lambda>c. c \<noteq> CHR 0x00) s1" using s by (induction s1 arbitrary: s) auto
  moreover have "l\<lparr>pcs := (pcs l)[0 := 0], holder_cpu := None, locked := 0\<rparr> = (con_lock k)\<lparr>pcs := (pcs (con_lock k))[0 := 0]\<rparr>"
    using assms(3) by (simp add: l_def lock_free_def)
  moreover have "k2\<lparr>km := m, con_lock := l'\<rparr> = k\<lparr>km := m, con_lock := l'\<rparr>" for m l' by (simp add: t k1_def)
  ultimately show ?thesis using r k2(3) unfolding e by (intro exI[of _ t]) (simp add: t k1_def)
qed

lemma kprintf_sends:
  assumes "prints_on port k" "uu_puts k = Some Default_Kputs" "lock_free (con_lock k)" "vsnprintf BUFSIZ ap strs fmt = Some (buf, n)"
  shows "\<exists>t. kprintf c ap strs fmt k = rret (int n, k\<lparr>km := (km k)\<lparr>trace := t\<rparr>, con_lock := (con_lock k)\<lparr>pcs := (pcs (con_lock k))[0 := 0]\<rparr>\<rparr>) \<and>
    outputs port t = outputs port (trace (km k)) @ crlf (takeWhile (\<lambda>c. c \<noteq> CHR 0x00) buf)"
proof -
  have "buf \<noteq> []" "last buf = CHR 0x00"
    using fmt_run_bounded[OF assms(4)[unfolded vsnprintf_def]] by (simp_all add: BUFSIZ_def)
  then have "CHR 0x00 \<in> set buf" using last_in_set by metis
  then show ?thesis using kputs_sends[OF assms(1-3), of buf c] assms(4) by (auto simp: kprintf_def)
qed

text \<open>The same for a sequence of outputs: a console that is ready stays so.\<close>

definition console_ready :: "u16 \<Rightarrow> kern \<Rightarrow> bool" where
  "console_ready port k \<longleftrightarrow> prints_on port k \<and> uu_puts k = Some Default_Kputs \<and> lock_free (con_lock k)"

lemma console_ready_printed:
  assumes "console_ready port k"
  shows "console_ready port (k\<lparr>km := (km k)\<lparr>trace := t\<rparr>, con_lock := (con_lock k)\<lparr>pcs := p\<rparr>\<rparr>)"
  using assms by (auto simp: console_ready_def prints_on_def lock_free_def on_port_bus_def split: option.splits putchar_fp.splits)

abbreviation printed :: "u16 \<Rightarrow> kern \<Rightarrow> u8 list" where
  "printed port k \<equiv> outputs port (trace (km k))"

lemma kputs_ready:
  assumes "console_ready port k" "CHR 0x00 \<in> set s"
  shows "\<exists>k'. kputs c s k = rret (0, k') \<and> console_ready port k' \<and> printed port k' = printed port k @ crlf (takeWhile (\<lambda>c. c \<noteq> CHR 0x00) s) \<and>
    eflags (km k') = eflags (km k)"
proof -
  obtain t where t: "kputs c s k = rret (0, k\<lparr>km := (km k)\<lparr>trace := t\<rparr>, con_lock := (con_lock k)\<lparr>pcs := (pcs (con_lock k))[0 := 0]\<rparr>\<rparr>)"
    "outputs port t = printed port k @ crlf (takeWhile (\<lambda>c. c \<noteq> CHR 0x00) s)"
    using assms(1) kputs_sends[OF _ _ _ assms(2)] unfolding console_ready_def by blast
  then show ?thesis using console_ready_printed[OF assms(1)] by auto
qed

lemma kprintf_ready:
  assumes "console_ready port k" "fmt_closed False fmt"
  shows "\<exists>k' buf n. vsnprintf BUFSIZ ap strs fmt = Some (buf, n) \<and> kprintf c ap strs fmt k = rret (int n, k') \<and> console_ready port k' \<and>
    printed port k' = printed port k @ crlf (takeWhile (\<lambda>c. c \<noteq> CHR 0x00) buf) \<and> eflags (km k') = eflags (km k)"
proof -
  obtain buf n where v: "vsnprintf BUFSIZ ap strs fmt = Some (buf, n)"
    using fmt_run_returns[OF assms(2)] by (metis vsnprintf_def surj_pair)
  obtain t where t: "kprintf c ap strs fmt k = rret (int n, k\<lparr>km := (km k)\<lparr>trace := t\<rparr>, con_lock := (con_lock k)\<lparr>pcs := (pcs (con_lock k))[0 := 0]\<rparr>\<rparr>)"
    "outputs port t = printed port k @ crlf (takeWhile (\<lambda>c. c \<noteq> CHR 0x00) buf)"
    using assms(1) kprintf_sends[OF _ _ _ v] unfolding console_ready_def by blast
  then show ?thesis using console_ready_printed[OF assms(1)] v by auto
qed

text \<open>A CPU that prints while it holds the lock of the console panics.\<close>

lemma kputs_reentered: "uu_puts k = Some Default_Kputs \<Longrightarrow> locked (con_lock k) \<noteq> 0 \<Longrightarrow> holder_cpu (con_lock k) = Some c \<Longrightarrow>
    kputs c s k = Some Panic"
  by (simp add: kputs_def spin_lock_irq_save_def spin_lock_self Let_def)

text \<open>The mapped address of a console that is mapped dynamically is 0: the entry is given no address.\<close>

lemma get_mapped_base_dynamic:
  assumes "get_mapped_base base MAP_DYNAMIC k = Done (k', b, 0)"
  shows "b = Some 0"
  using assms by (auto simp: get_mapped_base_def MAP_NONE_def MAP_LINEAR_def MAP_DYNAMIC_def Let_def split: if_splits)

text \<open>The early console is ready to print after its initialization.\<close>

lemma early_console_ready:
  assumes "dev_bus (devs k bus) = 0" "get_read_fp (devs k bus) = PORT_GET" "get_write_fp (devs k bus) = PORT_GET"
    and "bus \<noteq> early_uart k" "becomes_ready (devices (km k)) (ucast base) 0x20" "jump_queue q = Some hs" "length hs < 10"
  shows "\<exists>k' q'. early_console_init bus base MAP_NONE (k, q) = rret ((k', q'), 0) \<and> prints_on (ucast base) k' \<and>
    uu_puts k' = Some Default_Kputs \<and> lock_free (con_lock k') \<and> jump_queue q' = Some (hs @ [console_jump_handler])"
proof -
  define k0 where "k0 = k\<lparr>devs := (devs k)(early_uart k := (devs k (early_uart k))\<lparr>dev_bus := bus, dev_base := base\<rparr>),
      uu_mapped_bus := postmap_addr bus, uu_mapped_base := base\<rparr>"
  have k0: "uu_early_console_set_bus bus base k\<lparr>uu_mapped_bus := postmap_addr bus, uu_mapped_base := base\<rparr> = k0"
    by (simp add: k0_def uu_early_console_set_bus_def set_dev_def)
  have u: "early_uart k0 = early_uart k" "early_uart (uu_early_console_set_bus bus base k) = early_uart k"
    by (simp_all add: k0_def uu_early_console_set_bus_def set_dev_def)
  have p: "on_port_bus k0 (early_uart k) (ucast base)" using assms(1-4) by (simp add: on_port_bus_def k0_def)
  obtain t where t: "uu_uart_ns16550_init (early_uart k) k0 = Some (k0\<lparr>km := (km k0)\<lparr>trace := t\<rparr>\<rparr>)"
    using uart_init_programs[OF p] by blast
  define k1 where "k1 = k0\<lparr>km := (km k0)\<lparr>trace := t\<rparr>\<rparr>"
  have u1: "early_uart k1 = early_uart k" by (simp add: k1_def u)
  have p1: "on_port_bus k1 (early_uart k) (ucast base)" using p by (simp add: k1_def)
  obtain t' where t': "uu_uart_ns16550_enable (early_uart k) k1 = Some (k1\<lparr>km := (km k1)\<lparr>trace := t'\<rparr>\<rparr>)"
    by (auto simp: uu_uart_ns16550_enable_def with_write8_port[OF p1] outb_def log_io_def)
  obtain q' where q': "jump_handlers_add console_jump_handler q = Done (q', 0)" "jump_queue q' = Some (hs @ [console_jump_handler])"
    using jq.add_room[OF assms(6,7)] by blast
  define k2 where "k2 = set_console (Some Early_Console_Putchar) (Some get_default_kputs) (k1\<lparr>km := (km k1)\<lparr>trace := t'\<rparr>\<rparr>)"
  have "early_console_init bus base MAP_NONE (k, q) = rret ((k2, q'), 0)"
    using t t' q'(1) u u1 by (simp add: early_console_init_def get_mapped_base_def uu_early_console_init_def k0 k1_def[symmetric]
        k2_def[symmetric] Let_def)
  moreover have "prints_on (ucast base) k2"
    using p1 assms(5) by (simp add: prints_on_def k2_def set_console_def k1_def k0_def on_port_bus_def)
  ultimately show ?thesis using q'(2)
    by (auto simp: k2_def set_console_def get_default_kputs_def spinlock_init_def lock_free_def)
qed

end
