(* ===== verification/Irqchip.thy ===== *)
theory Irqchip
  imports Console
begin

text \<open>
  The interrupt controllers of the i386 port: the local APIC (\<^verbatim>\<open>kern/arch/i386/lapic.c\<close>), the
  I/O APIC (\<^verbatim>\<open>ioapic.c\<close>), the two 8259A (\<^verbatim>\<open>picirq.c\<close>) and the interval timer
  (\<^verbatim>\<open>arch_timer.c\<close>). What the code does is the sequence of accesses in the trace; two small
  models of the chips read this sequence back as the state of their registers.
\<close>

section \<open>Vectors\<close>

definition T_DIVIDE :: u32 where "T_DIVIDE = 0"
definition T_PGFLT :: u32 where "T_PGFLT = 14"
definition T_SYSCALL :: u32 where "T_SYSCALL = 64"
definition T_IRQ0 :: u32 where "T_IRQ0 = 32"
definition IRQ_TIMER :: u32 where "IRQ_TIMER = 0"
definition IRQ_KBD :: u32 where "IRQ_KBD = 1"
definition IRQ_COM1 :: u32 where "IRQ_COM1 = 4"
definition IRQ_IDE :: u32 where "IRQ_IDE = 14"
definition IRQ_ERROR :: u32 where "IRQ_ERROR = 19"
definition IRQ_SPURIOUS :: u32 where "IRQ_SPURIOUS = 31"
definition PANIC_INTERRUPT_NUM :: u32 where "PANIC_INTERRUPT_NUM = 38"

lemmas vector_defs = T_IRQ0_def IRQ_TIMER_def IRQ_KBD_def IRQ_COM1_def IRQ_IDE_def IRQ_ERROR_def IRQ_SPURIOUS_def
  PANIC_INTERRUPT_NUM_def T_SYSCALL_def

section \<open>The local APIC\<close>

definition ID :: u32 where "ID = 0x0020 div 4"
definition VER :: u32 where "VER = 0x0030 div 4"
definition TPR :: u32 where "TPR = 0x0080 div 4"
definition EOI :: u32 where "EOI = 0x00B0 div 4"
definition SVR :: u32 where "SVR = 0x00F0 div 4"
definition ENABLE :: u32 where "ENABLE = 0x00000100"
definition ESR :: u32 where "ESR = 0x0280 div 4"
definition ICRLO :: u32 where "ICRLO = 0x0300 div 4"
definition INIT :: u32 where "INIT = 0x00000500"
definition STARTUP :: u32 where "STARTUP = 0x00000600"
definition DELIVS :: u32 where "DELIVS = 0x00001000"
definition ASSERT :: u32 where "ASSERT = 0x00004000"
definition LEVEL :: u32 where "LEVEL = 0x00008000"
definition BCAST :: u32 where "BCAST = 0x00080000"
definition BCAST_EX :: u32 where "BCAST_EX = 0x000C0000"
definition FIXED :: u32 where "FIXED = 0x00000000"
definition ICRHI :: u32 where "ICRHI = 0x0310 div 4"
definition TIMER :: u32 where "TIMER = 0x0320 div 4"
definition X1 :: u32 where "X1 = 0x0000000B"
definition PERIODIC :: u32 where "PERIODIC = 0x00020000"
definition PCINT :: u32 where "PCINT = 0x0340 div 4"
definition LINT0 :: u32 where "LINT0 = 0x0350 div 4"
definition LINT1 :: u32 where "LINT1 = 0x0360 div 4"
definition ERROR :: u32 where "ERROR = 0x0370 div 4"
definition MASKED :: u32 where "MASKED = 0x00010000"
definition TICR :: u32 where "TICR = 0x0380 div 4"
definition TDCR :: u32 where "TDCR = 0x03E0 div 4"

lemmas lapic_defs = ID_def VER_def TPR_def EOI_def SVR_def ENABLE_def ESR_def ICRLO_def INIT_def STARTUP_def DELIVS_def
  ASSERT_def LEVEL_def BCAST_def BCAST_EX_def FIXED_def ICRHI_def TIMER_def X1_def PERIODIC_def PCINT_def LINT0_def
  LINT1_def ERROR_def MASKED_def TICR_def TDCR_def

text \<open>The first argument is the variable \<^verbatim>\<open>lapic\<close>, an array of words.\<close>

definition lapic_read :: "u32 \<Rightarrow> u32 \<Rightarrow> mach \<Rightarrow> u32 \<times> mach" where
  "lapic_read lapic index = mmio_read (lapic + 4 * index)"

definition lapicw :: "u32 \<Rightarrow> u32 \<Rightarrow> u32 \<Rightarrow> mach \<Rightarrow> mach" where
  "lapicw lapic index value s =
     (let s = mmio_write (lapic + 4 * index) value s in snd (lapic_read lapic ID s))"

partial_function (option) delivs_wait :: "u32 \<Rightarrow> mach \<Rightarrow> mach option" where
  "delivs_wait lapic s =
     (let (v, s) = lapic_read lapic ICRLO s in if v AND DELIVS \<noteq> 0 then delivs_wait lapic s else Some s)"

definition lapicinit :: "u32 \<Rightarrow> mach \<Rightarrow> mach option" where
  "lapicinit lapic s =
     (if lapic = 0 then Some s
      else let s = lapicw lapic SVR (ENABLE OR (T_IRQ0 + IRQ_SPURIOUS)) s;
               s = lapicw lapic TDCR X1 s;
               s = lapicw lapic TIMER (PERIODIC OR (T_IRQ0 + IRQ_TIMER)) s;
               s = lapicw lapic TICR 10000000 s;
               s = lapicw lapic LINT0 MASKED s;
               s = lapicw lapic LINT1 MASKED s;
               (v, s) = lapic_read lapic VER s;
               s = (if drop_bit 16 v AND 0xFF \<ge> 4 then lapicw lapic PCINT MASKED s else s);
               s = lapicw lapic ERROR (T_IRQ0 + IRQ_ERROR) s;
               s = lapicw lapic ESR 0 s;
               s = lapicw lapic ESR 0 s;
               s = lapicw lapic EOI 0 s;
               s = lapicw lapic ICRHI 0 s;
               s = lapicw lapic ICRLO (BCAST OR INIT OR LEVEL) s
           in map_option (lapicw lapic TPR 0) (delivs_wait lapic s))"

definition lapiceoi :: "u32 \<Rightarrow> mach \<Rightarrow> mach" where
  "lapiceoi lapic s = (if lapic \<noteq> 0 then lapicw lapic EOI 0 s else s)"

definition microdelay :: "int \<Rightarrow> mach \<Rightarrow> mach" where
  "microdelay us s = s"

definition CMOS_PORT :: u16 where "CMOS_PORT = 0x70"

definition lapicstartap :: "u32 \<Rightarrow> u8 \<Rightarrow> u32 \<Rightarrow> mach \<Rightarrow> mach" where
  "lapicstartap lapic apicid addr s =
     (let s = outb CMOS_PORT 0xF s;
          s = outb (CMOS_PORT + 1) 0x0A s;
          wrv = P2V (push_bit 4 0x40 OR 0x67);
          s = s\<lparr>mem := store16 (mem s) wrv 0\<rparr>;
          s = s\<lparr>mem := store16 (mem s) (wrv + 2) (ucast (drop_bit 4 addr))\<rparr>;
          s = lapicw lapic ICRHI (push_bit 24 (ucast apicid)) s;
          s = lapicw lapic ICRLO (INIT OR LEVEL OR ASSERT) s;
          s = microdelay 200 s;
          s = lapicw lapic ICRLO (INIT OR LEVEL) s;
          s = microdelay 100 s
      in for_loop 0 2 (\<lambda>i s.
           let s = lapicw lapic ICRHI (push_bit 24 (ucast apicid)) s;
               s = lapicw lapic ICRLO (STARTUP OR drop_bit 12 addr) s
           in microdelay 200 s) s)"

definition broadcast_ipi_ex :: "u32 \<Rightarrow> u32 \<Rightarrow> mach \<Rightarrow> mach" where
  "broadcast_ipi_ex lapic vector s =
     (let s = lapicw lapic ICRHI 0 s in lapicw lapic ICRLO (BCAST_EX OR FIXED OR vector) s)"

section \<open>The I/O APIC\<close>

definition IOAPIC :: u32 where "IOAPIC = 0xFEC00000"
definition REG_ID :: u32 where "REG_ID = 0x00"
definition REG_VER :: u32 where "REG_VER = 0x01"
definition REG_TABLE :: u32 where "REG_TABLE = 0x10"
definition INT_DISABLED :: u32 where "INT_DISABLED = 0x00010000"
definition INT_LEVEL :: u32 where "INT_LEVEL = 0x00008000"
definition INT_ACTIVELOW :: u32 where "INT_ACTIVELOW = 0x00002000"
definition INT_LOGICAL :: u32 where "INT_LOGICAL = 0x00000800"

text \<open>The members \<^verbatim>\<open>reg\<close> and \<^verbatim>\<open>data\<close> of \<^verbatim>\<open>struct ioapic\<close>; the first argument of the operations is the variable \<^verbatim>\<open>ioapic\<close>.\<close>

definition ioapic_reg :: "u32 \<Rightarrow> u32" where "ioapic_reg p = p"
definition ioapic_data :: "u32 \<Rightarrow> u32" where "ioapic_data p = p + 16"

definition ioapicread :: "u32 \<Rightarrow> u32 \<Rightarrow> mach \<Rightarrow> u32 \<times> mach" where
  "ioapicread ioapic reg s = mmio_read (ioapic_data ioapic) (mmio_write (ioapic_reg ioapic) reg s)"

definition ioapicwrite :: "u32 \<Rightarrow> u32 \<Rightarrow> u32 \<Rightarrow> mach \<Rightarrow> mach" where
  "ioapicwrite ioapic reg data s = mmio_write (ioapic_data ioapic) data (mmio_write (ioapic_reg ioapic) reg s)"

definition ioapic_table :: "u32 \<Rightarrow> nat \<Rightarrow> mach \<Rightarrow> mach" where
  "ioapic_table ioapic maxintr =
     for_loop 0 (Suc maxintr) (\<lambda>i s.
       let s = ioapicwrite ioapic (REG_TABLE + 2 * of_nat i) (INT_DISABLED OR (T_IRQ0 + of_nat i)) s
       in ioapicwrite ioapic (REG_TABLE + 2 * of_nat i + 1) 0 s)"

text \<open>\<open>cstr s\<close> is a string literal.\<close>

definition cstr :: "string \<Rightarrow> char list" where "cstr s = s @ [CHR 0x00]"

text \<open>The format of a call of \<^verbatim>\<open>kprintf\<close> is the text before the terminator. The result is the new value of \<^verbatim>\<open>ioapic\<close> with the state.\<close>

definition ioapicinit :: "nat \<Rightarrow> bool \<Rightarrow> u8 \<Rightarrow> u32 \<Rightarrow> kern \<Rightarrow> (u32 \<times> kern) run" where
  "ioapicinit c ismp ioapicid ioapic k =
     (if \<not> ismp then rret (ioapic, k)
      else let ioapic = IOAPIC;
               (v, s) = ioapicread ioapic REG_VER (km k);
               maxintr = unat (drop_bit 16 v AND 0xFF);
               (v, s) = ioapicread ioapic REG_ID s;
               id = drop_bit 24 v;
               k = k\<lparr>km := s\<rparr>
           in rbind (if id \<noteq> ucast ioapicid
                     then kprintf c (\<lambda>_. 0) (\<lambda>_. []) (''ioapicinit: id isn'' @ [CHR 0x27] @ ''t equal to ioapicid; not a MP'' @ [CHR 0x0A]) k
                     else rret (0, k)) (\<lambda>(_, k).
              rret (ioapic, k\<lparr>km := ioapic_table ioapic maxintr (km k)\<rparr>)))"

definition ioapicenable :: "bool \<Rightarrow> u32 \<Rightarrow> u32 \<Rightarrow> u32 \<Rightarrow> mach \<Rightarrow> mach" where
  "ioapicenable ismp ioapic irq cpunum s =
     (if \<not> ismp then s
      else let s = ioapicwrite ioapic (REG_TABLE + 2 * irq) (T_IRQ0 + irq) s
           in ioapicwrite ioapic (REG_TABLE + 2 * irq + 1) (push_bit 24 cpunum) s)"

section \<open>The 8259A\<close>

definition IO_PIC1 :: u16 where "IO_PIC1 = 0x20"
definition IO_PIC2 :: u16 where "IO_PIC2 = 0xA0"
definition IRQ_SLAVE :: nat where "IRQ_SLAVE = 2"

definition initial_irqmask :: u16 where "initial_irqmask = 0xFFFF AND NOT (push_bit IRQ_SLAVE 1)"

text \<open>The state is the variable \<^verbatim>\<open>irqmask\<close> with the machine.\<close>

definition picsetmask :: "u16 \<Rightarrow> u16 \<times> mach \<Rightarrow> u16 \<times> mach" where
  "picsetmask msk = (\<lambda>(_, s).
     let s = outb (IO_PIC1 + 1) (ucast msk) s;
         s = outb (IO_PIC2 + 1) (ucast (drop_bit 8 msk)) s
     in (msk, s))"

definition picenable :: "nat \<Rightarrow> u16 \<times> mach \<Rightarrow> u16 \<times> mach" where
  "picenable irq = (\<lambda>(irqmask, s). picsetmask (irqmask AND NOT (push_bit irq 1)) (irqmask, s))"

definition picinit :: "u16 \<times> mach \<Rightarrow> u16 \<times> mach" where
  "picinit = (\<lambda>(irqmask, s).
     let s = outb (IO_PIC1 + 1) 0xFF s;
         s = outb (IO_PIC2 + 1) 0xFF s;
         s = outb IO_PIC1 0x11 s;
         s = outb (IO_PIC1 + 1) (ucast T_IRQ0) s;
         s = outb (IO_PIC1 + 1) (push_bit IRQ_SLAVE 1) s;
         s = outb (IO_PIC1 + 1) 0x3 s;
         s = outb IO_PIC2 0x11 s;
         s = outb (IO_PIC2 + 1) (ucast (T_IRQ0 + 8)) s;
         s = outb (IO_PIC2 + 1) (of_nat IRQ_SLAVE) s;
         s = outb (IO_PIC2 + 1) 0x3 s;
         s = outb IO_PIC1 0x68 s;
         s = outb IO_PIC1 0x0a s;
         s = outb IO_PIC2 0x68 s;
         s = outb IO_PIC2 0x0a s
     in if irqmask \<noteq> 0xFFFF then picsetmask irqmask (irqmask, s) else (irqmask, s))"

section \<open>The interval timer\<close>

definition IO_TIMER1 :: u16 where "IO_TIMER1 = 0x040"
definition TIMER_MODE :: u16 where "TIMER_MODE = IO_TIMER1 + 3"
definition TIMER_SEL0 :: u8 where "TIMER_SEL0 = 0x00"
definition TIMER_RATEGEN :: u8 where "TIMER_RATEGEN = 0x04"
definition TIMER_16BIT :: u8 where "TIMER_16BIT = 0x30"

text \<open>\<^verbatim>\<open>TIMER_FREQ\<close> is a parameter of the configuration.\<close>

definition TIMER_DIV :: "nat \<Rightarrow> nat \<Rightarrow> nat" where
  "TIMER_DIV timer_freq x = (timer_freq + x div 2) div x"

definition timerinit :: "nat \<Rightarrow> u16 \<times> mach \<Rightarrow> u16 \<times> mach" where
  "timerinit timer_freq = (\<lambda>(irqmask, s).
     let s = outb TIMER_MODE (TIMER_SEL0 OR TIMER_RATEGEN OR TIMER_16BIT) s;
         s = outb IO_TIMER1 (of_nat (TIMER_DIV timer_freq 100 mod 256)) s;
         s = outb IO_TIMER1 (of_nat (TIMER_DIV timer_freq 100 div 256)) s
     in picenable (unat IRQ_TIMER) (irqmask, s))"

section \<open>What the local APIC is told\<close>

fun writes :: "io list \<Rightarrow> (u32 \<times> u32) list" where
  "writes (Mmio_Write a v # t) = (a, v) # writes t"
| "writes (_ # t) = writes t"
| "writes [] = []"

lemma writes_append [simp]: "writes (t @ u) = writes t @ writes u"
proof (induction t)
  case (Cons e t)
  then show ?case by (cases e) auto
qed simp

lemma writes_lapicw [simp]: "writes (trace (lapicw lapic i v s)) = writes (trace s) @ [(lapic + 4 * i, v)]"
  by (simp add: lapicw_def lapic_read_def mmio_read_def mmio_write_def log_io_def Let_def)

lemma lapicw_frame [simp]: "mmio (lapicw lapic i v s) = mmio s" "mem (lapicw lapic i v s) = mem s"
  by (simp_all add: lapicw_def lapic_read_def mmio_read_def mmio_write_def log_io_def Let_def)

lemma lapic_read_frame [simp]:
  "writes (trace (snd (lapic_read lapic i s))) = writes (trace s)" "mmio (snd (lapic_read lapic i s)) = mmio s"
  by (simp_all add: lapic_read_def mmio_read_def log_io_def Let_def)

primrec icr_polled :: "(io list \<Rightarrow> u32 \<Rightarrow> u32) \<Rightarrow> u32 \<Rightarrow> nat \<Rightarrow> io list \<Rightarrow> io list" where
  "icr_polled dev a 0 t = t"
| "icr_polled dev a (Suc n) t = icr_polled dev a n (t @ [Mmio_Read a (dev t a)])"

text \<open>The delivery of a command ends after finitely many reads of the command register.\<close>

definition delivers :: "(io list \<Rightarrow> u32 \<Rightarrow> u32) \<Rightarrow> u32 \<Rightarrow> bool" where
  "delivers dev lapic \<longleftrightarrow> (\<forall>t. \<exists>n. dev (icr_polled dev (lapic + 0x300) n t) (lapic + 0x300) AND DELIVS = 0)"

lemma delivs_wait_returns:
  assumes "mmio s (icr_polled (mmio s) (lapic + 0x300) n (trace s)) (lapic + 0x300) AND DELIVS = 0"
  shows "\<exists>s'. delivs_wait lapic s = Some s' \<and> writes (trace s') = writes (trace s)"
  using assms
proof (induction n arbitrary: s)
  case 0
  then show ?case
    by (subst delivs_wait.simps) (simp add: lapic_read_def mmio_read_def ICRLO_def log_io_def Let_def)
next
  case (Suc n)
  define s1 where "s1 = s\<lparr>trace := trace s @ [Mmio_Read (lapic + 0x300) (mmio s (trace s) (lapic + 0x300))]\<rparr>"
  have r: "lapic_read lapic ICRLO s = (mmio s (trace s) (lapic + 0x300), s1)"
    by (simp add: lapic_read_def mmio_read_def ICRLO_def log_io_def Let_def s1_def)
  have "\<exists>s'. delivs_wait lapic s1 = Some s' \<and> writes (trace s') = writes (trace s1)"
    using Suc.prems by (intro Suc.IH) (simp add: s1_def)
  moreover have "writes (trace s1) = writes (trace s)" by (simp add: s1_def)
  ultimately show ?case by (subst delivs_wait.simps) (simp add: r)
qed

text \<open>
  The initialization of a local APIC that delivers its commands returns: the spurious vector is 63, the timer
  interrupts periodically on vector 32, errors on vector 51, and the two local lines are masked.
\<close>

lemma lapicinit_programs:
  assumes "lapic \<noteq> 0" "delivers (mmio s) lapic"
  shows "\<exists>s' pc. lapicinit lapic s = Some s' \<and> pc \<in> {[], [(lapic + 0x340, 0x10000)]} \<and>
    writes (trace s') = writes (trace s) @
      [(lapic + 0xF0, 0x13F), (lapic + 0x3E0, 0xB), (lapic + 0x320, 0x20020), (lapic + 0x380, 10000000),
       (lapic + 0x350, 0x10000), (lapic + 0x360, 0x10000)] @ pc @
      [(lapic + 0x370, 51), (lapic + 0x280, 0), (lapic + 0x280, 0), (lapic + 0xB0, 0), (lapic + 0x310, 0),
       (lapic + 0x300, 0x88500), (lapic + 0x80, 0)]"
proof -
  have w: "\<exists>s'. delivs_wait lapic u = Some s' \<and> writes (trace s') = writes (trace u)" if "mmio u = mmio s" for u
    using assms(2) that delivs_wait_returns unfolding delivers_def by metis
  define a where "a = lapicw lapic LINT1 MASKED (lapicw lapic LINT0 MASKED (lapicw lapic TICR 10000000
    (lapicw lapic TIMER (PERIODIC OR (T_IRQ0 + IRQ_TIMER)) (lapicw lapic TDCR X1 (lapicw lapic SVR (ENABLE OR (T_IRQ0 + IRQ_SPURIOUS)) s)))))"
  obtain v b where b: "lapic_read lapic VER a = (v, b)" by (cases "lapic_read lapic VER a")
  have b': "writes (trace b) = writes (trace a)" "mmio b = mmio s"
    using lapic_read_frame[of lapic VER a] unfolding b by (simp_all add: a_def)
  define d where "d = (if drop_bit 16 v AND 0xFF \<ge> 4 then lapicw lapic PCINT MASKED b else b)"
  define e where "e = lapicw lapic ICRLO (BCAST OR INIT OR LEVEL) (lapicw lapic ICRHI 0 (lapicw lapic EOI 0
    (lapicw lapic ESR 0 (lapicw lapic ESR 0 (lapicw lapic ERROR (T_IRQ0 + IRQ_ERROR) d)))))"
  have "mmio e = mmio s" using b'(2) by (simp add: e_def d_def)
  then obtain f where f: "delivs_wait lapic e = Some f" "writes (trace f) = writes (trace e)" using w by blast
  have i: "lapicinit lapic s = Some (lapicw lapic TPR 0 f)"
    using assms(1) f(1) by (simp add: lapicinit_def a_def[symmetric] b d_def[symmetric] e_def[symmetric] Let_def)
  show ?thesis
    by (intro exI[of _ "lapicw lapic TPR 0 f"] exI[of _ "if drop_bit 16 v AND 0xFF \<ge> 4 then [(lapic + 0x340, 0x10000)] else []"])
       (simp add: i f(2) e_def d_def b'(1) a_def lapic_defs vector_defs)
qed

text \<open>Another CPU is sent one INIT, its end, and two STARTUP commands for the page of the entry code.\<close>

lemma for_loop_twice: "for_loop 0 2 f s = f 1 (f 0 s)"
  by (simp add: for_loop_def upt_rec)

lemma lapicstartap_commands:
  "writes (trace (lapicstartap lapic apicid addr s)) = writes (trace s) @
     [(lapic + 0x310, push_bit 24 (ucast apicid)), (lapic + 0x300, 0xC500), (lapic + 0x300, 0x8500)] @
     [(lapic + 0x310, push_bit 24 (ucast apicid)), (lapic + 0x300, 0x600 OR drop_bit 12 addr),
      (lapic + 0x310, push_bit 24 (ucast apicid)), (lapic + 0x300, 0x600 OR drop_bit 12 addr)]"
  by (simp add: lapicstartap_def Let_def microdelay_def lapic_defs for_loop_twice outb_def log_io_def)

lemma broadcast_commands:
  "writes (trace (broadcast_ipi_ex lapic vector s)) = writes (trace s) @ [(lapic + 0x310, 0), (lapic + 0x300, 0xC0000 OR vector)]"
  by (simp add: broadcast_ipi_ex_def Let_def lapic_defs)

section \<open>The registers of the I/O APIC\<close>

fun ioapic_out :: "u32 \<times> (u32 \<Rightarrow> u32) \<Rightarrow> io \<Rightarrow> u32 \<times> (u32 \<Rightarrow> u32)" where
  "ioapic_out (sel, regs) (Mmio_Write a v) =
     (if a = IOAPIC then (v, regs) else if a = IOAPIC + 16 then (sel, regs(sel := v)) else (sel, regs))"
| "ioapic_out st _ = st"

abbreviation ioapic_regs :: "u32 \<times> (u32 \<Rightarrow> u32) \<Rightarrow> io list \<Rightarrow> u32 \<Rightarrow> u32" where
  "ioapic_regs st t \<equiv> snd (foldl ioapic_out st t)"

lemma ioapicwrite_regs: "ioapic_regs st (trace (ioapicwrite IOAPIC reg data s)) = (ioapic_regs st (trace s))(reg := data)"
proof -
  obtain sel regs where "foldl ioapic_out st (trace s) = (sel, regs)" by (cases "foldl ioapic_out st (trace s)")
  then show ?thesis
    by (simp add: ioapicwrite_def mmio_write_def log_io_def ioapic_data_def ioapic_reg_def IOAPIC_def)
qed

text \<open>The entries of the interrupts up to \<open>n\<close> are disabled and have the vectors from 32 on.\<close>

lemma ioapic_table_regs:
  assumes "n < 256"
  shows "ioapic_regs st (trace (ioapic_table IOAPIC n s)) = (\<lambda>r.
    if 16 \<le> unat r \<and> unat r < 18 + 2 * n
    then if even (unat r) then INT_DISABLED OR (T_IRQ0 + of_nat ((unat r - 16) div 2)) else 0
    else ioapic_regs st (trace s) r)"
  using assms
proof (induction n)
  case 0
  have "r = 16 \<or> r = 17 \<longleftrightarrow> 16 \<le> unat r \<and> unat r < 18" for r :: u32 by (auto simp: word_unat_eq_iff)
  then show ?case
    by (auto simp: ioapic_table_def for_loop_Suc ioapicwrite_regs REG_TABLE_def fun_eq_iff Let_def word_unat_eq_iff)
next
  case (Suc n)
  have u: "unat (16 + 2 * of_nat (Suc n) :: u32) = 18 + 2 * n" "unat (17 + 2 * of_nat (Suc n) :: u32) = 19 + 2 * n"
    using Suc.prems by (simp_all add: unat_word_ariths unat_of_nat)
  have "ioapic_table IOAPIC (Suc n) s =
      ioapicwrite IOAPIC (17 + 2 * of_nat (Suc n)) 0 (ioapicwrite IOAPIC (16 + 2 * of_nat (Suc n)) (INT_DISABLED OR (T_IRQ0 + of_nat (Suc n))) (ioapic_table IOAPIC n s))"
    by (simp add: ioapic_table_def for_loop_Suc[of 0 "Suc n"] Let_def REG_TABLE_def add.commute add.left_commute)
  then show ?case using Suc u
    by (auto simp: ioapicwrite_regs fun_eq_iff word_unat_eq_iff simp del: of_nat_Suc)
qed

text \<open>Enabling an interrupt changes its entry only.\<close>

lemma ioapicenable_regs:
  "ioapic_regs st (trace (ioapicenable True IOAPIC irq c s)) =
     (ioapic_regs st (trace s))(REG_TABLE + 2 * irq := T_IRQ0 + irq, REG_TABLE + 2 * irq + 1 := push_bit 24 c)"
  by (simp add: ioapicenable_def ioapicwrite_regs Let_def)

section \<open>The masks of the 8259A\<close>

text \<open>
  A chip with its command port at \<open>p\<close>: a first command word starts the sequence of the
  initialization words and clears the mask; a data byte is the word that is expected next, or else the new mask.
\<close>

record pic =
  icw :: nat
  vbase :: u8
  cascade :: u8
  icw4 :: u8
  imr :: u8

fun pic_out :: "u16 \<Rightarrow> pic \<Rightarrow> io \<Rightarrow> pic" where
  "pic_out p c (Out8 port v) =
     (if port = p then if bit v 4 then c\<lparr>icw := 2, imr := 0\<rparr> else c
      else if port = p + 1
      then if icw c = 2 then c\<lparr>vbase := v AND 0xF8, icw := 3\<rparr>
           else if icw c = 3 then c\<lparr>cascade := v, icw := 4\<rparr>
           else if icw c = 4 then c\<lparr>icw4 := v, icw := 0\<rparr>
           else c\<lparr>imr := v\<rparr>
      else c)"
| "pic_out p c _ = c"

abbreviation pic_state :: "u16 \<Rightarrow> pic \<Rightarrow> io list \<Rightarrow> pic" where
  "pic_state p c t \<equiv> foldl (pic_out p) c t"

text \<open>Both chips are initialized, with the vectors from 32 on, and their masks are the two bytes of \<open>m\<close>.\<close>

definition pics_set :: "pic \<Rightarrow> pic \<Rightarrow> u16 \<times> mach \<Rightarrow> bool" where
  "pics_set c1 c2 = (\<lambda>(m, s).
     pic_state IO_PIC1 c1 (trace s) = \<lparr>icw = 0, vbase = 32, cascade = 4, icw4 = 3, imr = ucast m\<rparr> \<and>
     pic_state IO_PIC2 c2 (trace s) = \<lparr>icw = 0, vbase = 40, cascade = 2, icw4 = 3, imr = ucast (drop_bit 8 m)\<rparr>)"

lemma picinit_sets:
  assumes "m \<noteq> 0xFFFF"
  shows "pics_set c1 c2 (picinit (m, s)) \<and> fst (picinit (m, s)) = m"
proof -
  obtain i v c w r where 1: "pic_state IO_PIC1 c1 (trace s) = \<lparr>icw = i, vbase = v, cascade = c, icw4 = w, imr = r\<rparr>"
    by (cases "pic_state IO_PIC1 c1 (trace s)") auto
  obtain i' v' c' w' r' where 2: "pic_state IO_PIC2 c2 (trace s) = \<lparr>icw = i', vbase = v', cascade = c', icw4 = w', imr = r'\<rparr>"
    by (cases "pic_state IO_PIC2 c2 (trace s)") auto
  show ?thesis using assms 1 2
    by (simp add: pics_set_def picinit_def picsetmask_def outb_def log_io_def IO_PIC1_def IO_PIC2_def IRQ_SLAVE_def T_IRQ0_def bit_numeral_word_iff)
qed

lemma picenable_sets:
  assumes "pics_set c1 c2 st"
  shows "pics_set c1 c2 (picenable irq st) \<and> fst (picenable irq st) = fst st AND NOT (push_bit irq 1)"
  using assms
  by (cases st) (simp add: pics_set_def picenable_def picsetmask_def outb_def log_io_def IO_PIC1_def IO_PIC2_def)

lemma picenable_all_sets:
  assumes "pics_set c1 c2 st"
  shows "pics_set c1 c2 (fold picenable irqs st) \<and> (\<forall>i<16. bit (fst (fold picenable irqs st)) i \<longleftrightarrow> bit (fst st) i \<and> i \<notin> set irqs)"
  using assms
proof (induction irqs arbitrary: st)
  case (Cons irq irqs)
  have "pics_set c1 c2 (picenable irq st)" "fst (picenable irq st) = fst st AND NOT (push_bit irq 1)"
    using picenable_sets[OF Cons.prems] by auto
  then show ?case using Cons.IH[of "picenable irq st"] by (auto simp: bit_simps)
qed simp

text \<open>An interrupt line of the pair of chips that is not masked, and its vector.\<close>

definition unmasked :: "pic \<Rightarrow> pic \<Rightarrow> nat \<Rightarrow> bool" where
  "unmasked p1 p2 i \<longleftrightarrow> (if i < 8 then \<not> bit (imr p1) i else \<not> bit (imr p2) (i - 8))"

definition line_vector :: "pic \<Rightarrow> pic \<Rightarrow> nat \<Rightarrow> u8" where
  "line_vector p1 p2 i = (if i < 8 then vbase p1 + of_nat i else vbase p2 + of_nat (i - 8))"

lemma pics_unmasked:
  assumes "pics_set c1 c2 (m, s)" "i < 16"
  shows "unmasked (pic_state IO_PIC1 c1 (trace s)) (pic_state IO_PIC2 c2 (trace s)) i \<longleftrightarrow> \<not> bit m i"
    "line_vector (pic_state IO_PIC1 c1 (trace s)) (pic_state IO_PIC2 c2 (trace s)) i = 32 + of_nat i"
proof -
  have "(40 :: u8) + of_nat (i - 8) = 32 + of_nat i" if "\<not> i < 8"
  proof -
    have "of_nat i = (of_nat (i - 8) + 8 :: u8)" using that by (metis of_nat_add of_nat_numeral le_add_diff_inverse2 not_less)
    then show ?thesis by simp
  qed
  then show "unmasked (pic_state IO_PIC1 c1 (trace s)) (pic_state IO_PIC2 c2 (trace s)) i \<longleftrightarrow> \<not> bit m i"
    "line_vector (pic_state IO_PIC1 c1 (trace s)) (pic_state IO_PIC2 c2 (trace s)) i = 32 + of_nat i"
    using assms by (auto simp: pics_set_def unmasked_def line_vector_def bit_simps)
qed

text \<open>With the default frequency of the configuration the timer counts down from 1.\<close>

lemma timer_div_default: "TIMER_DIV 100 100 = 1"
  by (simp add: TIMER_DIV_def)

end
