(* ===== verification/Percpu.thy ===== *)
theory Percpu
  imports Irqchip
begin

text \<open>
  The CPUs: \<^verbatim>\<open>struct percpu\<close> of \<^verbatim>\<open>include/aim/percpu.h\<close>, the variables of
  \<^verbatim>\<open>kern/arch/i386/mp.c\<close> and \<^verbatim>\<open>lapic.c\<close> that describe them, the accesses through the segment register
  \<^verbatim>\<open>gs\<close>, and the set-up of the segments of a CPU. The code that runs is that of CPU \<open>c\<close>, the index of the
  element of \<^verbatim>\<open>cpus\<close> whose segment table it has loaded.
\<close>

section \<open>State\<close>

definition NCPU :: nat where "NCPU = 8"

definition SEG_KCODE :: nat where "SEG_KCODE = 1"
definition SEG_KDATA :: nat where "SEG_KDATA = 2"
definition SEG_KCPU :: nat where "SEG_KCPU = 3"
definition SEG_UCODE :: nat where "SEG_UCODE = 4"
definition SEG_UDATA :: nat where "SEG_UDATA = 5"
definition SEG_TSS :: nat where "SEG_TSS = 6"
definition NSEGS :: nat where "NSEGS = 7"

record percpu =
  cpu_proc :: u32
  apicid :: u8
  cpu_scheduler :: u32
  cpu_ts :: taskstate
  cpu_gdt :: "nat \<Rightarrow> segdesc"
  started :: u32
  ncli :: int
  intena :: int
  cpu_percpu :: u32

text \<open>The size of the structure, and the offsets of its members \<^verbatim>\<open>gdt\<close> and \<^verbatim>\<open>percpu\<close>, the last one.\<close>

definition sizeof_percpu :: u32 where "sizeof_percpu = 188"
definition off_gdt :: u32 where "off_gdt = 116"
definition off_percpu :: u32 where "off_percpu = 184"

text \<open>\<open>cpus_addr\<close> is the address of the array \<^verbatim>\<open>cpus\<close>; \<open>cpunum_n\<close> is the static variable of \<^verbatim>\<open>cpunum\<close>.\<close>

record smp =
  cpus :: "nat \<Rightarrow> percpu"
  cpus_addr :: u32
  ismp :: bool
  ncpu :: nat
  ioapicid :: u8
  lapic :: u32
  ioapic :: u32
  irqmask :: u16
  cpunum_n :: u32

definition set_cpu :: "nat \<Rightarrow> (percpu \<Rightarrow> percpu) \<Rightarrow> smp \<Rightarrow> smp" where
  "set_cpu i f x = x\<lparr>cpus := (cpus x)(i := f (cpus x i))\<rparr>"

definition cpu_ptr :: "smp \<Rightarrow> nat \<Rightarrow> u32" where
  "cpu_ptr x i = cpus_addr x + sizeof_percpu * of_nat i"

section \<open>Storage of the CPU\<close>

text \<open>
  A word store or load at a byte offset into \<^verbatim>\<open>cpus\<close>, for the members that are accessed
  through \<^verbatim>\<open>gs\<close>; elsewhere the model has no value.
\<close>

definition cpus_store :: "u32 \<Rightarrow> u32 \<Rightarrow> smp \<Rightarrow> smp option" where
  "cpus_store off v x =
     (let i = unat (off div sizeof_percpu); f = off mod sizeof_percpu
      in if f = 0 then Some (set_cpu i (\<lambda>c. c\<lparr>cpu_proc := v\<rparr>) x)
         else if f = off_percpu then Some (set_cpu i (\<lambda>c. c\<lparr>cpu_percpu := v\<rparr>) x)
         else None)"

definition cpus_load :: "u32 \<Rightarrow> smp \<Rightarrow> u32 option" where
  "cpus_load off x =
     (let i = unat (off div sizeof_percpu); f = off mod sizeof_percpu
      in if f = 0 then Some (cpu_proc (cpus x i))
         else if f = off_percpu then Some (cpu_percpu (cpus x i))
         else None)"

text \<open>The address \<^verbatim>\<open>%gs:off\<close> of CPU \<open>c\<close>, as an offset into \<^verbatim>\<open>cpus\<close>.\<close>

definition gs_off :: "nat \<Rightarrow> u32 \<Rightarrow> smp \<Rightarrow> u32" where
  "gs_off c off x = seg_base (cpu_gdt (cpus x c) SEG_KCPU) + off - cpus_addr x"

definition set_gs_cpu :: "nat \<Rightarrow> u32 \<Rightarrow> smp \<Rightarrow> smp option" where
  "set_gs_cpu c p x = cpus_store (gs_off c 0 x) p x"

definition get_gs_cpu :: "nat \<Rightarrow> smp \<Rightarrow> u32 option" where
  "get_gs_cpu c x = cpus_load (gs_off c 0 x) x"

definition set_gs_proc :: "nat \<Rightarrow> u32 \<Rightarrow> smp \<Rightarrow> smp option" where
  "set_gs_proc c p x = cpus_store (gs_off c 4 x) p x"

definition get_gs_proc :: "nat \<Rightarrow> smp \<Rightarrow> u32 option" where
  "get_gs_proc c x = cpus_load (gs_off c 4 x) x"

definition nr_cpus :: "smp \<Rightarrow> nat" where "nr_cpus x = ncpu x"

text \<open>A pointer to an element of \<^verbatim>\<open>cpus\<close>, back to its index.\<close>

definition cpu_index :: "smp \<Rightarrow> u32 \<Rightarrow> nat" where
  "cpu_index x p = unat ((p - cpus_addr x) div sizeof_percpu)"

definition cpuid :: "nat \<Rightarrow> smp \<Rightarrow> int option" where
  "cpuid c x = (case get_gs_cpu c x of
     None \<Rightarrow> None
   | Some p \<Rightarrow> Some (if p = 0 then 0 else uint (apicid (cpus x (cpu_index x p)))))"

section \<open>Which CPU this is\<close>

definition nl :: "char list" where "nl = [CHR 0x0A]"

text \<open>\<open>ra\<close> is the return address of the call, which is printed.\<close>

definition cpunum :: "nat \<Rightarrow> u32 \<Rightarrow> smp \<times> kern \<Rightarrow> (nat \<times> smp \<times> kern) run" where
  "cpunum c ra = (\<lambda>(x, k).
     rbind (if readeflags (km k) AND FL_IF \<noteq> 0
            then rbind (if cpunum_n x = 0
                        then kprintf c (\<lambda>_. ra) (\<lambda>_. []) (''cpu called from %x with interrupts enabled'' @ nl) k
                        else rret (0, k)) (\<lambda>(_, k). rret (x\<lparr>cpunum_n := cpunum_n x + 1\<rparr>, k))
            else rret (x, k)) (\<lambda>(x, k).
     if lapic x = 0 then rret (0, x, k)
     else let (v, s) = lapic_read (lapic x) ID (km k);
              i = List.find (\<lambda>i. uint (apicid (cpus x i)) = uint (drop_bit 24 v)) [0..<ncpu x]
          in rret (case i of None \<Rightarrow> 0 | Some i \<Rightarrow> i, x, k\<lparr>km := s\<rparr>)))"

definition seginit :: "nat \<Rightarrow> u32 \<Rightarrow> smp \<times> kern \<Rightarrow> (smp \<times> kern) run" where
  "seginit c ra st =
     rbind (cpunum c ra st) (\<lambda>(i, x, k).
     let gdt = (cpu_gdt (cpus x i))(
           SEG_KCODE := SEG (STA_X OR STA_R) 0 0xffffffff 0,
           SEG_KDATA := SEG STA_W 0 0xffffffff 0,
           SEG_UCODE := SEG (STA_X OR STA_R) 0 0xffffffff DPL_USER,
           SEG_UDATA := SEG STA_W 0 0xffffffff DPL_USER,
           SEG_KCPU := SEG STA_W (cpu_ptr x i + off_percpu) 8 0);
         x = set_cpu i (\<lambda>p. p\<lparr>cpu_gdt := gdt\<rparr>) x;
         s = lgdt (cpu_ptr x i + off_gdt) (of_nat NSEGS * 8) (km k);
         s = loadgs (of_nat SEG_KCPU * 8) s
     in case set_gs_cpu i (cpu_ptr x i) x of
          None \<Rightarrow> None
        | Some x \<Rightarrow> (case set_gs_proc i 0 x of None \<Rightarrow> None | Some x \<Rightarrow> rret (x, k\<lparr>km := s\<rparr>)))"

section \<open>Lemmas\<close>

lemma set_cpu_simps [simp]:
  "cpus (set_cpu i f x) = (cpus x)(i := f (cpus x i))" "cpus_addr (set_cpu i f x) = cpus_addr x"
  "ncpu (set_cpu i f x) = ncpu x" "lapic (set_cpu i f x) = lapic x" "ismp (set_cpu i f x) = ismp x"
  "cpu_ptr (set_cpu i f x) j = cpu_ptr x j"
  by (simp_all add: set_cpu_def cpu_ptr_def)

lemma percpu_offset:
  assumes "i < NCPU"
  shows "unat ((sizeof_percpu * of_nat i + off_percpu) div sizeof_percpu) = i" "(sizeof_percpu * of_nat i + off_percpu) mod sizeof_percpu = off_percpu"
    "unat ((sizeof_percpu * of_nat i + sizeof_percpu) div sizeof_percpu) = Suc i" "(sizeof_percpu * of_nat i + sizeof_percpu) mod sizeof_percpu = 0"
    "unat ((sizeof_percpu * of_nat i) div sizeof_percpu) = i"
proof -
  have "unat (of_nat i :: u32) = i" using assms by (simp add: NCPU_def unat_of_nat)
  then have u: "unat (188 * of_nat i + 184 :: u32) = 188 * i + 184" "unat (188 * of_nat i + 188 :: u32) = 188 * i + 188"
    "unat (188 * of_nat i :: u32) = 188 * i"
    using assms by (simp_all add: NCPU_def unat_word_ariths)
  show "unat ((sizeof_percpu * of_nat i + off_percpu) div sizeof_percpu) = i" "(sizeof_percpu * of_nat i + off_percpu) mod sizeof_percpu = off_percpu"
    "unat ((sizeof_percpu * of_nat i + sizeof_percpu) div sizeof_percpu) = Suc i" "(sizeof_percpu * of_nat i + sizeof_percpu) mod sizeof_percpu = 0"
    "unat ((sizeof_percpu * of_nat i) div sizeof_percpu) = i"
    unfolding sizeof_percpu_def off_percpu_def word_unat_eq_iff unat_div unat_mod u by simp_all
qed

text \<open>The segment of \<^verbatim>\<open>gs\<close> is at the member \<^verbatim>\<open>percpu\<close> of its CPU.\<close>

definition has_gs :: "nat \<Rightarrow> smp \<Rightarrow> bool" where
  "has_gs i x \<longleftrightarrow> i < NCPU \<and> seg_base (cpu_gdt (cpus x i) SEG_KCPU) = cpu_ptr x i + off_percpu"

lemma gs_off_has:
  assumes "has_gs i x"
  shows "gs_off i 0 x = sizeof_percpu * of_nat i + off_percpu" "gs_off i 4 x = sizeof_percpu * of_nat i + sizeof_percpu"
  using assms by (simp_all add: has_gs_def gs_off_def cpu_ptr_def off_percpu_def sizeof_percpu_def)

lemma gs_cpu_cell:
  assumes "has_gs i x"
  shows "set_gs_cpu i p x = Some (set_cpu i (\<lambda>c. c\<lparr>cpu_percpu := p\<rparr>) x)" "get_gs_cpu i x = Some (cpu_percpu (cpus x i))"
proof -
  have "i < NCPU" using assms by (simp add: has_gs_def)
  moreover have "off_percpu \<noteq> 0" by (simp add: off_percpu_def)
  ultimately show "set_gs_cpu i p x = Some (set_cpu i (\<lambda>c. c\<lparr>cpu_percpu := p\<rparr>) x)" "get_gs_cpu i x = Some (cpu_percpu (cpus x i))"
    by (simp_all add: set_gs_cpu_def get_gs_cpu_def cpus_store_def cpus_load_def gs_off_has[OF assms] percpu_offset)
qed

text \<open>
  \<^verbatim>\<open>%gs:4\<close> lies behind the structure: the process of the CPU is stored in the first member of
  the next CPU, whose \<^verbatim>\<open>proc\<close> it overwrites.
\<close>

lemma gs_proc_cell:
  assumes "has_gs i x"
  shows "set_gs_proc i p x = Some (set_cpu (Suc i) (\<lambda>c. c\<lparr>cpu_proc := p\<rparr>) x)" "get_gs_proc i x = Some (cpu_proc (cpus x (Suc i)))"
proof -
  have "i < NCPU" using assms by (simp add: has_gs_def)
  then show "set_gs_proc i p x = Some (set_cpu (Suc i) (\<lambda>c. c\<lparr>cpu_proc := p\<rparr>) x)" "get_gs_proc i x = Some (cpu_proc (cpus x (Suc i)))"
    by (simp_all add: set_gs_proc_def get_gs_proc_def cpus_store_def cpus_load_def gs_off_has[OF assms] percpu_offset)
qed

lemma cpu_index_ptr: "i < NCPU \<Longrightarrow> cpu_index x (cpu_ptr x i) = i"
  by (simp add: cpu_index_def cpu_ptr_def percpu_offset)

lemma cpuid_own:
  assumes "has_gs i x" "cpu_percpu (cpus x i) = cpu_ptr x i" "cpu_ptr x i \<noteq> 0"
  shows "cpuid i x = Some (uint (apicid (cpus x i)))"
proof -
  have "i < NCPU" using assms(1) by (simp add: has_gs_def)
  then show ?thesis using assms by (simp add: cpuid_def gs_cpu_cell(2) cpu_index_ptr)
qed

text \<open>With interrupts off, \<^verbatim>\<open>cpunum\<close> finds the CPU whose identifier the local APIC has.\<close>

lemma cpunum_finds:
  assumes "eflags (km k) AND FL_IF = 0" "lapic x \<noteq> 0" "i < ncpu x" "\<And>j. j < ncpu x \<Longrightarrow> apicid (cpus x j) = apicid (cpus x i) \<Longrightarrow> j = i"
    and "drop_bit 24 (mmio (km k) (trace (km k)) (lapic x + 0x20)) = ucast (apicid (cpus x i))"
  shows "\<exists>t. cpunum c ra (x, k) = rret (i, x, k\<lparr>km := (km k)\<lparr>trace := t\<rparr>\<rparr>)"
proof -
  have e: "uint (apicid (cpus x j)) = uint (drop_bit 24 (mmio (km k) (trace (km k)) (lapic x + 0x20))) \<longleftrightarrow> apicid (cpus x j) = apicid (cpus x i)" for j
    unfolding assms(5) by (simp add: uint_up_ucast is_up word_uint_eq_iff)
  have "List.find (\<lambda>j. apicid (cpus x j) = apicid (cpus x i)) [0..<ncpu x] = Some i"
    using assms(3,4) by (auto simp: find_Some_iff intro!: exI[of _ i]) (metis less_trans not_less_iff_gr_or_eq)
  then show ?thesis
    using assms(1,2) by (simp add: cpunum_def readeflags_def lapic_read_def mmio_read_def log_io_def ID_def Let_def e) blast
qed

text \<open>
  After the set-up of its segments a CPU is known by its \<^verbatim>\<open>gs\<close>; the next element of
  \<^verbatim>\<open>cpus\<close> has lost its process.
\<close>

lemma seginit_sets:
  assumes "cpunum c ra st = rret (i, x, k)" "i < NCPU" "cpu_ptr x i \<noteq> 0"
  shows "\<exists>x' s. seginit c ra st = rret (x', k\<lparr>km := s\<rparr>) \<and> has_gs i x' \<and> cpuid i x' = Some (uint (apicid (cpus x i))) \<and>
    cpu_proc (cpus x' (Suc i)) = 0"
proof -
  define gdt where "gdt = (cpu_gdt (cpus x i))(SEG_KCODE := SEG (STA_X OR STA_R) 0 0xffffffff 0, SEG_KDATA := SEG STA_W 0 0xffffffff 0,
     SEG_UCODE := SEG (STA_X OR STA_R) 0 0xffffffff DPL_USER, SEG_UDATA := SEG STA_W 0 0xffffffff DPL_USER,
     SEG_KCPU := SEG STA_W (cpu_ptr x i + off_percpu) 8 0)"
  define x1 where "x1 = set_cpu i (\<lambda>p. p\<lparr>cpu_gdt := gdt\<rparr>) x"
  define x2 where "x2 = set_cpu i (\<lambda>c. c\<lparr>cpu_percpu := cpu_ptr x i\<rparr>) x1"
  define x3 where "x3 = set_cpu (Suc i) (\<lambda>c. c\<lparr>cpu_proc := 0\<rparr>) x2"
  have g: "has_gs i x1" "has_gs i x2" "has_gs i x3" using assms(2)
    by (simp_all add: has_gs_def x1_def x2_def x3_def gdt_def)
  have "seginit c ra st = rret (x3, k\<lparr>km := loadgs (of_nat SEG_KCPU * 8) (lgdt (cpu_ptr x i + off_gdt) (of_nat NSEGS * 8) (km k))\<rparr>)"
    using gs_cpu_cell(1)[OF g(1)] gs_proc_cell(1)[OF g(2)]
    by (simp add: seginit_def assms(1) gdt_def[symmetric] x1_def[symmetric] x2_def[symmetric] x3_def[symmetric] Let_def) (simp add: x1_def x2_def[symmetric] x3_def)
  moreover have "cpuid i x3 = Some (uint (apicid (cpus x i)))"
    using cpuid_own[OF g(3)] assms(3) by (simp add: x3_def x2_def x1_def)
  moreover have "cpu_proc (cpus x3 (Suc i)) = 0" by (simp add: x3_def)
  ultimately show ?thesis using g(3) by blast
qed

end
