(* ===== verification/Buddy.thy ===== *)
theory Buddy
  imports AIM_Prelude
begin

text \<open>
  The binary buddies of \<^verbatim>\<open>kern/mm/pmm/page_alloc.c\<close>: \<^verbatim>\<open>buddy_init\<close>, \<^verbatim>\<open>buddy_alloc\<close>,
  \<^verbatim>\<open>buddy_free\<close>, \<^verbatim>\<open>buddy_size\<close> and their helpers. The array \<^verbatim>\<open>tree\<close> is a memory of bytes
  that starts at the field: \<^verbatim>\<open>uint8_t tree[1 << 10]\<close> has 1024 of them, while a buddy of
  level 10 uses 2047, so that the cells from 1024 on lie behind the structure. An index
  is an \<^verbatim>\<open>int\<close>, as in the C, because the walks to the root end at -1.
\<close>

section \<open>Nodes\<close>

abbreviation NODE_UNUSED :: u8 where "NODE_UNUSED \<equiv> 0"
abbreviation NODE_USED :: u8 where "NODE_USED \<equiv> 1"
abbreviation NODE_SPLIT :: u8 where "NODE_SPLIT \<equiv> 2"
abbreviation NODE_FULL :: u8 where "NODE_FULL \<equiv> 3"

record buddy =
  blevel :: nat
  baseAddr :: int
  tree :: "nat \<Rightarrow> u8"

definition BUDDY_TREE_CELLS :: nat where "BUDDY_TREE_CELLS = 1024"

section \<open>Powers of two\<close>

definition is_pow_of_2 :: "u32 \<Rightarrow> bool" where
  "is_pow_of_2 x \<longleftrightarrow> x AND (x - 1) = 0"

definition next_pow_of_2 :: "u32 \<Rightarrow> u32" where
  "next_pow_of_2 x =
     (if is_pow_of_2 x then x
      else let x = x OR drop_bit 1 x;
               x = x OR drop_bit 2 x;
               x = x OR drop_bit 4 x;
               x = x OR drop_bit 8 x;
               x = x OR drop_bit 16 x
           in x + 1)"

section \<open>Initialisation\<close>

text \<open>
  \<^verbatim>\<open>self->level = level\<close> is stored before the test for \<^verbatim>\<open>NULL\<close>, so that the function is
  only entered with a structure; \<^verbatim>\<open>memset\<close> clears \<^verbatim>\<open>size*2-1\<close> cells.
\<close>

definition buddy_init :: "buddy \<Rightarrow> nat \<Rightarrow> buddy" where
  "buddy_init self level =
     (let sz = 2 ^ level;
          self = self\<lparr>blevel := level\<rparr>
      in self\<lparr>tree := (\<lambda>i. if i < sz * 2 - 1 then NODE_UNUSED else tree self i)\<rparr>)"

section \<open>Indices\<close>

definition uu_index_offset :: "int \<Rightarrow> nat \<Rightarrow> nat \<Rightarrow> int" where
  "uu_index_offset index level max_level = ((index + 1) - 2 ^ level) * 2 ^ (max_level - level)"

definition get_buddy_index :: "int \<Rightarrow> int" where
  "get_buddy_index index = index - 1 + (index AND 1) * 2"

abbreviation node :: "(nat \<Rightarrow> u8) \<Rightarrow> int \<Rightarrow> u8" where
  "node t index \<equiv> t (nat index)"

abbreviation set_node :: "(nat \<Rightarrow> u8) \<Rightarrow> int \<Rightarrow> u8 \<Rightarrow> (nat \<Rightarrow> u8)" where
  "set_node t index v \<equiv> t(nat index := v)"

lemma get_buddy_index_pos: "0 < get_buddy_index index \<Longrightarrow> 0 < index"
  unfolding get_buddy_index_def and_one_eq by presburger

function uu_mark_parent :: "(nat \<Rightarrow> u8) \<Rightarrow> int \<Rightarrow> (nat \<Rightarrow> u8)" where
  "uu_mark_parent t index =
     (let buddy = get_buddy_index index
      in if 0 < buddy \<and> (node t buddy = NODE_USED \<or> node t buddy = NODE_FULL)
         then let index = (index + 1) div 2 - 1
              in uu_mark_parent (set_node t index NODE_FULL) index
         else t)"
  by pat_completeness auto

termination uu_mark_parent
  by (relation "measure (\<lambda>(t, index). nat index)") (auto dest!: get_buddy_index_pos)

declare uu_mark_parent.simps [simp del]

section \<open>Allocation\<close>

text \<open>
  The inner loop that goes back to a parent: the level, len and index of the node
  whose turn is next, or \<open>None\<close> for \<^verbatim>\<open>return -1\<close>.
\<close>

function alloc_up :: "int \<Rightarrow> int \<Rightarrow> int \<Rightarrow> (int \<times> int \<times> int) option" where
  "alloc_up index level len =
     (let level = level - 1;
          len = len * 2;
          index = (index + 1) div 2 - 1
      in if index < 0 then None
         else if index AND 1 \<noteq> 0 then Some (index + 1, level, len)
         else alloc_up index level len)"
  by pat_completeness auto

termination alloc_up
  by (relation "measure (\<lambda>(index, level, len). nat (index + 1))") auto

declare alloc_up.simps [simp del]

text \<open>
  One pass of the \<^verbatim>\<open>while (index >= 0)\<close> loop: either the final tree and return value, or
  the state of the next pass.
\<close>

type_synonym alloc_state = "(nat \<Rightarrow> u8) \<times> int \<times> int \<times> int"

definition alloc_next :: "(nat \<Rightarrow> u8) \<Rightarrow> int \<Rightarrow> int \<Rightarrow> int \<Rightarrow> ((nat \<Rightarrow> u8) \<times> int) + alloc_state" where
  "alloc_next t index level len =
     (if index AND 1 \<noteq> 0 then Inr (t, index + 1, level, len)
      else case alloc_up index level len of
             None \<Rightarrow> Inl (t, -1)
           | Some (index, level, len) \<Rightarrow> Inr (t, index, level, len))"

definition alloc_pass :: "nat \<Rightarrow> int \<Rightarrow> alloc_state \<Rightarrow> ((nat \<Rightarrow> u8) \<times> int) + alloc_state" where
  "alloc_pass max_level sz = (\<lambda>(t, index, level, len).
     if sz = len
     then if node t index = NODE_UNUSED
          then let t = set_node t index NODE_USED;
                   t = uu_mark_parent t index
               in Inl (t, uu_index_offset index (nat level) max_level)
          else alloc_next t index level len
     else if node t index = NODE_USED \<or> node t index = NODE_FULL
     then alloc_next t index level len
     else let t = (if node t index = NODE_UNUSED
                   then let t = set_node t index NODE_SPLIT;
                            t = set_node t (index * 2 + 1) NODE_UNUSED
                        in set_node t (index * 2 + 2) NODE_UNUSED
                   else t)
          in Inr (t, index * 2 + 1, level + 1, len div 2))"

text \<open>The loop takes fuel; \<open>None\<close> is a run that has not ended.\<close>

fun alloc_loop :: "nat \<Rightarrow> nat \<Rightarrow> int \<Rightarrow> alloc_state \<Rightarrow> ((nat \<Rightarrow> u8) \<times> int) option" where
  "alloc_loop 0 max_level sz st = None"
| "alloc_loop (Suc n) max_level sz st =
     (let (t, index, level, len) = st
      in if index < 0 then Some (t, -1)
         else case alloc_pass max_level sz st of
                Inl r \<Rightarrow> Some r
              | Inr st \<Rightarrow> alloc_loop n max_level sz st)"

definition alloc_size :: "int \<Rightarrow> int" where
  "alloc_size s = (if s = 0 then 1 else sint (next_pow_of_2 (of_int s)))"

definition buddy_alloc :: "nat \<Rightarrow> buddy \<Rightarrow> int \<Rightarrow> (buddy \<times> int) option" where
  "buddy_alloc fuel self s =
     (let sz = alloc_size s;
          len = 2 ^ blevel self
      in if len < sz then Some (self, -2)
         else map_option (\<lambda>(t, r). (self\<lparr>tree := t\<rparr>, r))
                (alloc_loop fuel (blevel self) sz (tree self, 0, 0, len)))"

section \<open>Release\<close>

text \<open>\<^verbatim>\<open>while (((index = (index + 1) / 2 - 1) >= 0) && tree[index] == NODE_FULL)\<close>\<close>

function combine_up :: "(nat \<Rightarrow> u8) \<Rightarrow> int \<Rightarrow> (nat \<Rightarrow> u8)" where
  "combine_up t index =
     (let index = (index + 1) div 2 - 1
      in if 0 \<le> index \<and> node t index = NODE_FULL
         then combine_up (set_node t index NODE_SPLIT) index
         else t)"
  by pat_completeness auto

termination combine_up
  by (relation "measure (\<lambda>(t, index). nat (index + 1))") auto

text \<open>
  The callers pass the index of a node, which is not negative; for other values, where the
  C loop would not end, nothing is done.
\<close>

function uu_combine :: "(nat \<Rightarrow> u8) \<Rightarrow> int \<Rightarrow> (nat \<Rightarrow> u8)" where
  "uu_combine t index =
     (if index < 0 then t
      else let buddy = index - 1 + (index AND 1) * 2
           in if buddy < 0 \<or> node t buddy \<noteq> NODE_UNUSED
              then let t = set_node t index NODE_UNUSED in combine_up t index
              else uu_combine t ((index + 1) div 2 - 1))"
  by pat_completeness auto

lemma combine_buddy: "0 \<le> (index :: int) \<Longrightarrow> \<not> index - 1 + (index AND 1) * 2 < 0 \<Longrightarrow> 0 < index"
  unfolding and_one_eq by presburger

termination uu_combine
  by (relation "measure (\<lambda>(t, index). nat index)") (auto simp: not_less intro!: combine_buddy)

declare combine_up.simps [simp del] uu_combine.simps [simp del]

text \<open>
  The descents of \<^verbatim>\<open>buddy_free\<close> and \<^verbatim>\<open>buddy_size\<close>; both loops end only at a used or an
  unused node.
\<close>

partial_function (option) free_loop :: "(nat \<Rightarrow> u8) \<Rightarrow> int \<Rightarrow> int \<Rightarrow> int \<Rightarrow> int \<Rightarrow> (nat \<Rightarrow> u8) outcome option" where
  "free_loop t offset left len index =
     (if node t index = NODE_USED
      then if offset \<noteq> left then Some Panic else Some (Done (uu_combine t index))
      else if node t index = NODE_UNUSED then Some Panic
      else let len = len div 2
           in if offset < left + len then free_loop t offset left len (index * 2 + 1)
              else free_loop t offset (left + len) len (index * 2 + 2))"

definition buddy_free :: "buddy \<Rightarrow> int \<Rightarrow> buddy outcome option" where
  "buddy_free self offset =
     (if 2 ^ blevel self \<le> offset then Some Panic
      else map_option (\<lambda>r. case r of Panic \<Rightarrow> Panic | Done t \<Rightarrow> Done (self\<lparr>tree := t\<rparr>))
             (free_loop (tree self) offset 0 (2 ^ blevel self) 0))"

partial_function (option) size_loop :: "(nat \<Rightarrow> u8) \<Rightarrow> int \<Rightarrow> int \<Rightarrow> int \<Rightarrow> int \<Rightarrow> int option" where
  "size_loop t offset left len index =
     (if node t index = NODE_USED then Some len
      else if node t index = NODE_UNUSED then Some EOF
      else let len = len div 2
           in if offset < left + len then size_loop t offset left len (index * 2 + 1)
              else size_loop t offset (left + len) len (index * 2 + 2))"

definition buddy_size :: "buddy \<Rightarrow> int \<Rightarrow> int option" where
  "buddy_size self offset =
     (if 2 ^ blevel self \<le> offset then Some EOF
      else size_loop (tree self) offset 0 (2 ^ blevel self) 0)"

end
