(* ===== verification/Buddy_Tree.thy ===== *)
theory Buddy_Tree
  imports Buddy
begin

text \<open>
  The heap-ordered tree of a buddy: nodes counted from 1 (node \<open>m\<close> is the array cell
  \<open>m - 1\<close>, its children are \<open>2 * m\<close> and \<open>2 * m + 1\<close>), the live nodes, the blocks of pages
  they stand for, and the well-formedness of a tree.
\<close>

section \<open>Nodes and depth\<close>

definition nd :: "(nat \<Rightarrow> u8) \<Rightarrow> nat \<Rightarrow> u8" where
  "nd t m = t (m - 1)"

definition upd :: "(nat \<Rightarrow> u8) \<Rightarrow> nat \<Rightarrow> u8 \<Rightarrow> (nat \<Rightarrow> u8)" where
  "upd t m v = t(m - 1 := v)"

lemma nd_upd [simp]: "0 < m \<Longrightarrow> 0 < x \<Longrightarrow> nd (upd t m v) x = (if x = m then v else nd t x)"
  by (auto simp: nd_def upd_def)

lemma nat_pred: "nat (int m - 1) = m - 1"
  by (cases m) auto

lemma node_nd: "node t (int m - 1) = nd t m"
  by (simp only: nd_def nat_pred)

lemma set_node_upd: "set_node t (int m - 1) v = upd t m v"
  by (simp only: upd_def nat_pred)

definition sib :: "nat \<Rightarrow> nat" where
  "sib m = (if even m then m + 1 else m - 1)"

lemma sib_div [simp]: "2 \<le> m \<Longrightarrow> sib m div 2 = m div 2"
  by (auto simp: sib_def elim!: oddE evenE)

lemma sib_pos [simp]: "2 \<le> m \<Longrightarrow> 0 < sib m" "2 \<le> m \<Longrightarrow> 2 \<le> sib m"
  by (auto simp: sib_def elim!: oddE)

lemma sib_neq [simp]: "0 < m \<Longrightarrow> sib m \<noteq> m" "0 < m \<Longrightarrow> m \<noteq> sib m"
  by (auto simp: sib_def)

lemma children_cases:
  assumes "2 \<le> m"
  obtains "m = 2 * (m div 2)" "sib m = 2 * (m div 2) + 1" | "m = 2 * (m div 2) + 1" "sib m = 2 * (m div 2)"
  using assms by (cases "even m") (auto simp: sib_def elim!: evenE oddE)

fun dep :: "nat \<Rightarrow> nat" where
  "dep m = (if m \<le> 1 then 0 else Suc (dep (m div 2)))"

declare dep.simps [simp del]

lemma dep_1 [simp]: "dep (Suc 0) = 0" "dep 1 = 0"
  by (simp_all add: dep.simps)

lemma dep_children [simp]:
  "0 < m \<Longrightarrow> dep (2 * m) = Suc (dep m)" "0 < m \<Longrightarrow> dep (Suc (2 * m)) = Suc (dep m)"
  by (simp_all add: dep.simps[of "2 * m"] dep.simps[of "Suc (2 * m)"])

lemma dep_parent: "2 \<le> m \<Longrightarrow> dep m = Suc (dep (m div 2))"
  by (subst dep.simps) simp

lemma dep_bounds: "0 < m \<Longrightarrow> 2 ^ dep m \<le> m \<and> m < 2 * 2 ^ dep m"
proof (induction m rule: dep.induct)
  case (1 m)
  show ?case
  proof (cases "m \<le> 1")
    case True
    then have "m = 1" using 1 by simp
    then show ?thesis by simp
  next
    case False
    then have "2 ^ dep (m div 2) \<le> m div 2 \<and> m div 2 < 2 * 2 ^ dep (m div 2)" using 1 by simp
    then show ?thesis using False by (simp add: dep_parent) linarith
  qed
qed

lemma dep_unique: "2 ^ d \<le> m \<Longrightarrow> m < 2 * 2 ^ d \<Longrightarrow> dep m = d"
proof (induction d arbitrary: m)
  case 0
  then have "m = 1" by simp
  then show ?case by simp
next
  case (Suc d)
  then have "2 \<le> m" by (metis one_le_power one_le_numeral power_Suc mult.right_neutral mult_le_mono2 order_trans)
  moreover have "2 ^ d \<le> m div 2" "m div 2 < 2 * 2 ^ d" using Suc.prems by auto
  ultimately show ?case using Suc.IH[of "m div 2"] by (simp add: dep_parent)
qed

lemma dep_div_pow: "j \<le> dep m \<Longrightarrow> 0 < m \<Longrightarrow> dep (m div 2 ^ j) = dep m - j \<and> 0 < m div 2 ^ j"
proof (induction j arbitrary: m)
  case (Suc j)
  then have m: "2 \<le> m" by (cases "m = 1") auto
  then have "j \<le> dep (m div 2)" "0 < m div 2" using Suc.prems dep_parent[of m] by auto
  then show ?case using Suc.IH[of "m div 2"] dep_parent[OF m] by (simp add: div_mult2_eq)
qed simp

section \<open>Blocks of pages\<close>

text \<open>Node \<open>m\<close> of a tree of level \<open>L\<close> stands for the pages \<open>lo L m ..< lo L m + 2 ^ (L - dep m)\<close>.\<close>

definition lo :: "nat \<Rightarrow> nat \<Rightarrow> nat" where
  "lo L m = (m - 2 ^ dep m) * 2 ^ (L - dep m)"

definition pages_of :: "nat \<Rightarrow> nat \<Rightarrow> nat set" where
  "pages_of L m = {lo L m ..< lo L m + 2 ^ (L - dep m)}"

lemma pages_of_leaf:
  assumes "0 < m" "dep m \<le> L"
  shows "x \<in> pages_of L m \<longleftrightarrow> x < 2 ^ L \<and> (2 ^ L + x) div 2 ^ (L - dep m) = m"
proof -
  let ?d = "dep m" and ?s = "(2::nat) ^ (L - dep m)"
  have L: "2 ^ L = 2 ^ ?d * ?s" using assms(2) by (simp flip: power_add)
  have b: "2 ^ ?d \<le> m" "m < 2 * 2 ^ ?d" using dep_bounds[OF assms(1)] by auto
  then obtain k where k: "m = 2 ^ ?d + k" using le_Suc_ex by blast
  then have lo: "lo L m = k * ?s" by (simp add: lo_def)
  have "(2 ^ L + x) div ?s = 2 ^ ?d + x div ?s" by (simp add: L)
  then have eq: "(2 ^ L + x) div ?s = m \<longleftrightarrow> x div ?s = k" using k by linarith
  have "x div ?s = k \<longleftrightarrow> k * ?s \<le> x \<and> x < k * ?s + ?s"
    by (metis add.commute div_nat_eqI dividend_less_div_times div_times_less_eq_dividend mult.commute mult_Suc less_eq_div_iff_mult_less_eq zero_less_numeral zero_less_power)
  moreover have "x < 2 ^ L" if "x < k * ?s + ?s"
  proof -
    have "Suc k \<le> 2 ^ ?d" using b k by simp
    then have "Suc k * ?s \<le> 2 ^ ?d * ?s" by (rule mult_le_mono1)
    then show ?thesis using that L by simp
  qed
  ultimately show ?thesis by (auto simp: pages_of_def lo eq)
qed

lemma pages_of_bound: "0 < m \<Longrightarrow> dep m \<le> L \<Longrightarrow> pages_of L m \<subseteq> {..<2 ^ L}"
  using pages_of_leaf by auto

lemma lo_in_pages: "lo L m \<in> pages_of L m"
  by (simp add: pages_of_def)

text \<open>Two nodes whose blocks meet lie on one path to the root.\<close>

lemma pages_meet_ancestor:
  assumes "0 < m" "0 < m'" "dep m \<le> dep m'" "dep m' \<le> L"
    and "x \<in> pages_of L m" "x \<in> pages_of L m'"
  shows "m = m' div 2 ^ (dep m' - dep m)"
proof -
  have e: "2 ^ (L - dep m) = 2 ^ (L - dep m') * (2::nat) ^ (dep m' - dep m)"
    using assms(3,4) by (simp flip: power_add)
  have "m = (2 ^ L + x) div 2 ^ (L - dep m)" "m' = (2 ^ L + x) div 2 ^ (L - dep m')"
    using assms pages_of_leaf[of m L x] pages_of_leaf[of m' L x] by auto
  then show ?thesis by (simp add: e div_mult2_eq)
qed

lemma pages_of_parent:
  assumes "2 \<le> m" "dep m \<le> L"
  shows "pages_of L m \<subseteq> pages_of L (m div 2)"
proof
  fix x assume x: "x \<in> pages_of L m"
  have d: "dep m = Suc (dep (m div 2))" using assms by (simp add: dep_parent)
  then obtain e where "L = dep m + e" using assms(2) le_Suc_ex by blast
  then have "2 ^ (L - dep (m div 2)) = 2 ^ (L - dep m) * (2::nat)" using d by simp
  then show "x \<in> pages_of L (m div 2)"
    using x assms d pages_of_leaf[of m L x] pages_of_leaf[of "m div 2" L x] by (simp add: div_mult2_eq)
qed

lemma pages_of_split:
  assumes "0 < m" "dep m < L"
  shows "pages_of L m = pages_of L (2 * m) \<union> pages_of L (2 * m + 1)"
proof -
  have "2 ^ (L - dep m) = 2 ^ (L - Suc (dep m)) * (2::nat)"
    using assms(2) by (simp add: Suc_diff_Suc flip: power_Suc2)
  moreover have "n div 2 = m \<longleftrightarrow> n = 2 * m \<or> n = Suc (2 * m)" for n by linarith
  ultimately have "x \<in> pages_of L m \<longleftrightarrow> x \<in> pages_of L (2 * m) \<or> x \<in> pages_of L (2 * m + 1)" for x
    using assms pages_of_leaf[of m L x] pages_of_leaf[of "2 * m" L x] pages_of_leaf[of "2 * m + 1" L x]
    by (auto simp: div_mult2_eq)
  then show ?thesis by blast
qed

end
