(* ===== verification/Buddy_Wf.thy ===== *)
theory Buddy_Wf
  imports Buddy_Tree
begin

text \<open>
  Live nodes, allocated nodes and well-formed trees, and what \<^verbatim>\<open>_mark_parent\<close> and
  \<^verbatim>\<open>_combine\<close> do to a tree that is well-formed except at one node.
\<close>

section \<open>Live and allocated nodes\<close>

definition full :: "u8 \<Rightarrow> bool" where
  "full v \<longleftrightarrow> v = NODE_USED \<or> v = NODE_FULL"

definition inner :: "u8 \<Rightarrow> bool" where
  "inner v \<longleftrightarrow> v = NODE_SPLIT \<or> v = NODE_FULL"

lemma node_kinds [simp]:
  "full NODE_USED" "full NODE_FULL" "\<not> full NODE_UNUSED" "\<not> full NODE_SPLIT"
  "inner NODE_SPLIT" "inner NODE_FULL" "\<not> inner NODE_UNUSED" "\<not> inner NODE_USED"
  by (simp_all add: full_def inner_def)

text \<open>A node is live if all the nodes above it are split or full.\<close>

fun live :: "(nat \<Rightarrow> u8) \<Rightarrow> nat \<Rightarrow> bool" where
  "live t m = (if m \<le> 1 then True else inner (nd t (m div 2)) \<and> live t (m div 2))"

declare live.simps [simp del]

lemma live_1 [simp]: "live t (Suc 0)" "live t 1"
  by (simp_all add: live.simps)

lemma live_parent: "2 \<le> m \<Longrightarrow> live t m \<longleftrightarrow> inner (nd t (m div 2)) \<and> live t (m div 2)"
  by (subst live.simps) simp

lemma live_children [simp]:
  "0 < m \<Longrightarrow> live t (2 * m) \<longleftrightarrow> inner (nd t m) \<and> live t m"
  "0 < m \<Longrightarrow> live t (Suc (2 * m)) \<longleftrightarrow> inner (nd t m) \<and> live t m"
  by (simp_all add: live_parent)

lemma live_sib: "2 \<le> m \<Longrightarrow> live t (sib m) \<longleftrightarrow> live t m"
  by (simp add: live_parent)

definition allocated :: "(nat \<Rightarrow> u8) \<Rightarrow> nat set" where
  "allocated t = {m. 0 < m \<and> live t m \<and> nd t m = NODE_USED}"

lemma live_above:
  "live t m \<Longrightarrow> 0 < j \<Longrightarrow> 0 < m div 2 ^ j \<Longrightarrow> inner (nd t (m div 2 ^ j)) \<and> live t (m div 2 ^ j)"
proof (induction j arbitrary: m)
  case (Suc j)
  have m: "2 \<le> m"
  proof (rule ccontr)
    assume "\<not> 2 \<le> m"
    then have "m < 2 * 1" by simp
    also have "\<dots> \<le> 2 ^ Suc j" unfolding power_Suc by (intro mult_le_mono2) simp
    finally have "m < 2 ^ Suc j" .
    then have "m div 2 ^ Suc j = 0" by (rule div_less)
    then show False using Suc.prems by simp
  qed
  then have p: "inner (nd t (m div 2))" "live t (m div 2)" using Suc.prems by (auto simp: live_parent)
  show ?case
  proof (cases "j = 0")
    case False
    then show ?thesis using Suc.IH[of "m div 2"] p Suc.prems by (simp add: div_mult2_eq)
  qed (use p in simp)
qed simp

lemma live_cong:
  "(\<And>x. 0 < x \<Longrightarrow> inner (nd t' x) \<longleftrightarrow> inner (nd t x)) \<Longrightarrow> live t' m \<longleftrightarrow> live t m"
proof (induction t' m rule: live.induct)
  case (1 t' m)
  then show ?case by (subst (1 2) live.simps) auto
qed

section \<open>Well-formed trees\<close>

definition node_ok :: "(nat \<Rightarrow> u8) \<Rightarrow> nat \<Rightarrow> nat \<Rightarrow> bool" where
  "node_ok t L m \<longleftrightarrow>
     nd t m \<in> {NODE_UNUSED, NODE_USED, NODE_SPLIT, NODE_FULL} \<and> (inner (nd t m) \<longrightarrow> dep m < L)"

definition full_ok :: "(nat \<Rightarrow> u8) \<Rightarrow> nat \<Rightarrow> bool" where
  "full_ok t m \<longleftrightarrow> (nd t m = NODE_FULL \<longrightarrow> full (nd t (2 * m)) \<and> full (nd t (Suc (2 * m))))"

definition split_ok :: "(nat \<Rightarrow> u8) \<Rightarrow> nat \<Rightarrow> bool" where
  "split_ok t m \<longleftrightarrow> (nd t m = NODE_SPLIT \<longrightarrow>
     \<not> (full (nd t (2 * m)) \<and> full (nd t (Suc (2 * m)))) \<and>
     \<not> (nd t (2 * m) = NODE_UNUSED \<and> nd t (Suc (2 * m)) = NODE_UNUSED))"

text \<open>Well-formed except that node \<open>f\<close> may break \<open>full_ok\<close> and node \<open>s\<close> may break \<open>split_ok\<close>.\<close>

definition wf_but :: "nat \<Rightarrow> nat \<Rightarrow> (nat \<Rightarrow> u8) \<Rightarrow> nat \<Rightarrow> bool" where
  "wf_but f s t L \<longleftrightarrow> (\<forall>m>0. live t m \<longrightarrow>
     node_ok t L m \<and> (m \<noteq> f \<longrightarrow> full_ok t m) \<and> (m \<noteq> s \<longrightarrow> split_ok t m))"

definition wf_tree :: "(nat \<Rightarrow> u8) \<Rightarrow> nat \<Rightarrow> bool" where
  "wf_tree t L \<longleftrightarrow> (\<forall>m>0. live t m \<longrightarrow> node_ok t L m \<and> full_ok t m \<and> split_ok t m)"

lemma wf_tree_but: "wf_tree t L \<Longrightarrow> wf_but f s t L"
  by (auto simp: wf_tree_def wf_but_def)

lemma wf_but_0: "wf_but 0 0 t L \<longleftrightarrow> wf_tree t L"
  by (auto simp: wf_tree_def wf_but_def)

lemma wf_but_fill:
  "wf_but 0 s t L \<Longrightarrow> (0 < s \<Longrightarrow> live t s \<Longrightarrow> split_ok t s) \<Longrightarrow> wf_tree t L"
  by (auto simp: wf_tree_def wf_but_def)

lemma live_depth: "wf_but f s t L \<Longrightarrow> live t m \<Longrightarrow> 0 < m \<Longrightarrow> dep m \<le> L"
  by (cases "2 \<le> m")
    (auto simp: wf_but_def node_ok_def live_parent dep_parent Suc_le_eq not_le less_2_cases_iff)

text \<open>Allocated nodes stand for disjoint blocks.\<close>

lemma allocated_disjoint:
  assumes wf: "wf_tree t L" and a: "a \<in> allocated t" "b \<in> allocated t" "a \<noteq> b"
  shows "pages_of L a \<inter> pages_of L b = {}"
proof -
  have *: False if "a \<in> allocated t" "b \<in> allocated t" "a \<noteq> b" "dep a \<le> dep b"
      "x \<in> pages_of L a" "x \<in> pages_of L b" for a b x
  proof -
    have pos: "0 < a" "0 < b" "live t b" and u: "nd t a = NODE_USED"
      using that by (auto simp: allocated_def)
    have "dep b \<le> L" using live_depth[OF wf_tree_but[OF wf]] pos by blast
    then have eq: "a = b div 2 ^ (dep b - dep a)" using pages_meet_ancestor pos that by blast
    then have "0 < dep b - dep a" using that(3) by (cases "dep b - dep a") auto
    then have "inner (nd t a)" using live_above[OF pos(3)] eq pos(1) by metis
    then show False using u by simp
  qed
  show ?thesis
  proof (rule ccontr)
    assume "pages_of L a \<inter> pages_of L b \<noteq> {}"
    then obtain x where x: "x \<in> pages_of L a" "x \<in> pages_of L b" by blast
    show False
      using *[of a b x] *[of b a x] a x linear[of "dep a" "dep b"] by metis
  qed
qed

section \<open>Marking parents\<close>

lemma get_buddy_index_sib: "2 \<le> m \<Longrightarrow> get_buddy_index (int m - 1) = int (sib m) - 1"
  by (cases "even m") (auto simp: get_buddy_index_def sib_def and_one_eq elim!: evenE oddE, presburger)

lemma half_index: "(int m - 1 + 1) div 2 - 1 = int (m div 2) - 1"
  by (simp add: zdiv_int)

lemma mark_parent_unfold:
  assumes "0 < m"
  shows "uu_mark_parent t (int m - 1) =
    (if 2 \<le> m \<and> full (nd t (sib m)) then uu_mark_parent (upd t (m div 2) NODE_FULL) (int (m div 2) - 1) else t)"
proof (cases "2 \<le> m")
  case True
  then have b: "get_buddy_index (int m - 1) = int (sib m) - 1" by (rule get_buddy_index_sib)
  have "0 < int (sib m) - 1" using sib_pos(2)[OF True] by linarith
  then show ?thesis
    using True by (subst uu_mark_parent.simps) (simp only: Let_def b node_nd half_index set_node_upd full_def simp_thms)
next
  case False
  then have "m = 1" using assms by simp
  then show ?thesis by (subst uu_mark_parent.simps) (simp add: get_buddy_index_def)
qed

text \<open>Split nodes may become full; nothing else changes.\<close>

definition promoted :: "(nat \<Rightarrow> u8) \<Rightarrow> (nat \<Rightarrow> u8) \<Rightarrow> bool" where
  "promoted t t' \<longleftrightarrow> (\<forall>x>0. nd t' x = nd t x \<or> nd t x = NODE_SPLIT \<and> nd t' x = NODE_FULL)"

lemma promoted_live: "promoted t t' \<Longrightarrow> live t' m \<longleftrightarrow> live t m"
  by (rule live_cong) (metis promoted_def node_kinds(5,6))

lemma promoted_allocated:
  assumes "promoted t t'"
  shows "allocated t' = allocated t"
proof -
  have "nd t' x = NODE_USED \<longleftrightarrow> nd t x = NODE_USED" if "0 < x" for x
  proof -
    have "nd t' x = nd t x \<or> nd t x = NODE_SPLIT \<and> nd t' x = NODE_FULL"
      using assms that by (simp add: promoted_def)
    then show ?thesis by auto
  qed
  then show ?thesis using promoted_live[OF assms] by (auto simp: allocated_def)
qed

lemma promoted_trans: "promoted t t' \<Longrightarrow> promoted t' t'' \<Longrightarrow> promoted t t''"
  unfolding promoted_def by metis

lemma children_of_half: "2 \<le> m \<Longrightarrow> {2 * (m div 2), Suc (2 * (m div 2))} = {m, sib m}"
  by (rule children_cases[of m]) auto

lemma sib_neq_half: "2 \<le> m \<Longrightarrow> sib m \<noteq> m div 2"
  by (auto simp: sib_def elim!: oddE evenE)

lemma split_ok_sib:
  assumes "2 \<le> m"
  shows "split_ok t (m div 2) \<longleftrightarrow> (nd t (m div 2) = NODE_SPLIT \<longrightarrow>
    \<not> (full (nd t m) \<and> full (nd t (sib m))) \<and>
    \<not> (nd t m = NODE_UNUSED \<and> nd t (sib m) = NODE_UNUSED))"
  unfolding split_ok_def using children_cases[OF assms] by (metis Suc_eq_plus1)

lemma split_ok_half:
  assumes "2 \<le> m" "full (nd t m)" "\<not> full (nd t (sib m))"
  shows "split_ok t (m div 2)"
  using assms by (auto simp: split_ok_sib)

lemma wf_but_promote:
  assumes wf: "wf_but 0 p t L" and p: "0 < p" "live t p" "nd t p = NODE_SPLIT"
    and ch: "full (nd t (2 * p))" "full (nd t (Suc (2 * p)))"
  shows "wf_but 0 (p div 2) (upd t p NODE_FULL) L" "promoted t (upd t p NODE_FULL)"
proof -
  let ?t = "upd t p NODE_FULL"
  show pr: "promoted t ?t" using p by (auto simp: promoted_def)
  show "wf_but 0 (p div 2) ?t L"
    unfolding wf_but_def
  proof (intro allI impI conjI)
    fix x assume x: "0 < x" "live ?t x"
    then have lv: "live t x" by (simp only: promoted_live[OF pr])
    show "node_ok ?t L x" using wf lv x p by (auto simp: wf_but_def node_ok_def)
    show "full_ok ?t x" if "x \<noteq> 0"
    proof (cases "x = p")
      case True
      then show ?thesis using ch p by (auto simp: full_ok_def)
    next
      case False
      then have "full_ok t x" using wf lv x by (auto simp: wf_but_def)
      then show ?thesis using False x p by (auto simp: full_ok_def)
    qed
    show "split_ok ?t x" if h: "x \<noteq> p div 2"
    proof (cases "x = p")
      case False
      then have "split_ok t x" using wf lv x by (auto simp: wf_but_def)
      moreover have "2 * x \<noteq> p" "Suc (2 * x) \<noteq> p" using h by auto
      ultimately show ?thesis using False x p by (auto simp: split_ok_def)
    qed (use p in \<open>simp add: split_ok_def\<close>)
  qed
qed

lemma split_above_split:
  assumes "wf_but 0 s t L" "live t m" "2 \<le> m" "\<not> full (nd t m)"
  shows "nd t (m div 2) = NODE_SPLIT"
proof -
  have lv: "inner (nd t (m div 2))" "live t (m div 2)" "0 < m div 2" using assms by (auto simp: live_parent)
  then have "full_ok t (m div 2)" using assms(1) by (auto simp: wf_but_def)
  then have "nd t (m div 2) \<noteq> NODE_FULL"
    using assms(3,4) children_cases[OF assms(3)] unfolding full_ok_def by (metis Suc_eq_plus1)
  then show ?thesis using lv(1) by (simp add: inner_def)
qed

lemma mark_parent_spec:
  assumes "wf_but 0 (m div 2) t L" "0 < m" "live t m" "full (nd t m)"
    and "2 \<le> m \<Longrightarrow> nd t (m div 2) = NODE_SPLIT"
  shows "wf_tree (uu_mark_parent t (int m - 1)) L \<and> promoted t (uu_mark_parent t (int m - 1))"
  using assms
proof (induction m arbitrary: t rule: less_induct)
  case (less m)
  note prems = less.prems
  show ?case
  proof (cases "2 \<le> m \<and> full (nd t (sib m))")
    case True
    let ?p = "m div 2"
    let ?t = "upd t ?p NODE_FULL"
    have p: "0 < ?p" "?p < m" "nd t ?p = NODE_SPLIT" "live t ?p" using True prems by (auto simp: live_parent)
    have ch: "full (nd t (2 * ?p))" "full (nd t (Suc (2 * ?p)))"
      using True prems(4) children_cases[of m] by (metis Suc_eq_plus1)+
    note step = wf_but_promote[OF prems(1) p(1,4,3) ch]
    have "nd ?t (?p div 2) = NODE_SPLIT" if "2 \<le> ?p"
      using split_above_split[OF prems(1) p(4) that] p that by simp
    then have "wf_tree (uu_mark_parent ?t (int ?p - 1)) L \<and> promoted ?t (uu_mark_parent ?t (int ?p - 1))"
      using step p promoted_live[OF step(2)] by (intro less.IH) auto
    then show ?thesis
      using True prems(2) promoted_trans[OF step(2)] by (simp add: mark_parent_unfold[of m])
  next
    case False
    have "wf_tree t L"
    proof (rule wf_but_fill[OF prems(1)])
      assume "0 < m div 2"
      then have "2 \<le> m" by simp
      then show "split_ok t (m div 2)" using False prems(4) split_ok_half by blast
    qed
    moreover have "uu_mark_parent t (int m - 1) = t"
      using False prems(2) by (simp only: mark_parent_unfold[of m] if_False)
    ultimately show ?thesis by (simp add: promoted_def)
  qed
qed

section \<open>Combining buddies\<close>

definition subnode :: "nat \<Rightarrow> nat \<Rightarrow> bool" where
  "subnode m x \<longleftrightarrow> (\<exists>j. x div 2 ^ j = m)"

lemma under_refl [simp]: "subnode m m"
  unfolding subnode_def by (rule exI[of _ 0]) simp

lemma under_half: "subnode m (x div 2) \<Longrightarrow> subnode m x"
  unfolding subnode_def by (metis div_mult2_eq power_Suc)

lemma under_cases: "subnode m x \<Longrightarrow> x = m \<or> subnode m (x div 2)"
  unfolding subnode_def by (metis div_mult2_eq power_Suc power_0 div_by_1 not0_implies_Suc)

lemma under_pos: "subnode m x \<Longrightarrow> 0 < m \<Longrightarrow> 0 < x"
  by (auto simp: subnode_def intro: gr0I)

lemma under_le: "subnode m x \<Longrightarrow> m \<le> x"
  by (auto simp: subnode_def)

lemma under_children: "0 < p \<Longrightarrow> subnode p x \<longleftrightarrow> x = p \<or> subnode (2 * p) x \<or> subnode (Suc (2 * p)) x"
proof
  assume "subnode p x"
  then obtain j where j: "x div 2 ^ j = p" by (auto simp: subnode_def)
  show "x = p \<or> subnode (2 * p) x \<or> subnode (Suc (2 * p)) x"
  proof (cases j)
    case (Suc i)
    then have "(x div 2 ^ i) div 2 = p" using j by (simp add: div_mult2_eq[symmetric] mult.commute)
    then have "x div 2 ^ i = 2 * p \<or> x div 2 ^ i = Suc (2 * p)" by linarith
    then show ?thesis by (auto simp: subnode_def)
  qed (use j in simp)
next
  assume "0 < p" "x = p \<or> subnode (2 * p) x \<or> subnode (Suc (2 * p)) x"
  moreover have "subnode p x" if "x div 2 ^ j = 2 * p \<or> x div 2 ^ j = Suc (2 * p)" for j
    unfolding subnode_def using that
    by (intro exI[of _ "Suc j"]) (auto simp: div_mult2_eq mult.commute[of 2])
  ultimately show "subnode p x" using under_refl[of p] unfolding subnode_def[of "2 * p"] subnode_def[of "Suc (2 * p)"] by blast
qed

lemma live_under: "live t x \<Longrightarrow> subnode m x \<Longrightarrow> x \<noteq> m \<Longrightarrow> 0 < m \<Longrightarrow> inner (nd t m)"
proof -
  assume a: "live t x" "subnode m x" "x \<noteq> m" "0 < m"
  then obtain j where j: "x div 2 ^ j = m" by (auto simp: subnode_def)
  then have "0 < j" using a(3) by (cases j) auto
  then show ?thesis using live_above[OF a(1)] j a(4) by blast
qed

definition demoted :: "(nat \<Rightarrow> u8) \<Rightarrow> (nat \<Rightarrow> u8) \<Rightarrow> bool" where
  "demoted t t' \<longleftrightarrow> promoted t' t"

lemma demoted_simps:
  assumes "demoted t t'"
  shows "live t' m \<longleftrightarrow> live t m" "allocated t' = allocated t"
  using assms promoted_live promoted_allocated unfolding demoted_def by blast+

lemma demoted_trans: "demoted t t' \<Longrightarrow> demoted t' t'' \<Longrightarrow> demoted t t''"
  unfolding demoted_def by (rule promoted_trans)

lemma combine_up_unfold:
  assumes "0 < m"
  shows "combine_up t (int m - 1) =
    (if 2 \<le> m \<and> nd t (m div 2) = NODE_FULL then combine_up (upd t (m div 2) NODE_SPLIT) (int (m div 2) - 1) else t)"
proof -
  have "0 \<le> int (m div 2) - 1 \<longleftrightarrow> 2 \<le> m" by linarith
  then show ?thesis
    by (subst combine_up.simps) (simp only: Let_def half_index node_nd set_node_upd)
qed

lemma combine_up_spec:
  assumes "wf_but (m div 2) 0 t L" "0 < m" "live t m" "\<not> full (nd t m)"
    and "2 \<le> m \<Longrightarrow> nd t m = NODE_UNUSED \<Longrightarrow> nd t (sib m) \<noteq> NODE_UNUSED"
  shows "wf_tree (combine_up t (int m - 1)) L \<and> demoted t (combine_up t (int m - 1))"
  using assms
proof (induction m arbitrary: t rule: less_induct)
  case (less m)
  note prems = less.prems
  let ?p = "m div 2"
  let ?t = "upd t ?p NODE_SPLIT"
  show ?case
  proof (cases "2 \<le> m \<and> nd t ?p = NODE_FULL")
    case True
    have p: "0 < ?p" "?p < m" "live t ?p" using True prems by (auto simp: live_parent)
    have dem: "demoted t ?t" using True p by (auto simp: demoted_def promoted_def)
    have "wf_but (?p div 2) 0 ?t L"
      unfolding wf_but_def
    proof (intro allI impI conjI)
      fix x assume x: "0 < x" "live ?t x"
      then have lv: "live t x" by (simp only: demoted_simps[OF dem])
      show "node_ok ?t L x" using prems(1) lv x p True by (auto simp: wf_but_def node_ok_def)
      show "full_ok ?t x" if h: "x \<noteq> ?p div 2"
      proof (cases "x = ?p")
        case False
        then have "full_ok t x" using prems(1) lv x by (auto simp: wf_but_def)
        moreover have "2 * x \<noteq> ?p" "Suc (2 * x) \<noteq> ?p" using h by auto
        ultimately show ?thesis using False x p by (auto simp: full_ok_def)
      qed (use p in \<open>simp add: full_ok_def\<close>)
      show "split_ok ?t x" if "x \<noteq> 0"
      proof (cases "x = ?p")
        case True
        have "2 \<le> m" using p by simp
        note sib_neq_half[OF this] this
        then show ?thesis using True prems(2,4,5) p by (auto simp: split_ok_sib)
      next
        case False
        then have "split_ok t x" using prems(1) lv x by (auto simp: wf_but_def)
        then show ?thesis using False x p True by (auto simp: split_ok_def)
      qed
    qed
    then have "wf_tree (combine_up ?t (int ?p - 1)) L \<and> demoted ?t (combine_up ?t (int ?p - 1))"
      using p demoted_simps[OF dem] by (intro less.IH) auto
    moreover have "combine_up t (int m - 1) = combine_up ?t (int ?p - 1)"
      using True combine_up_unfold[OF prems(2), of t] by simp
    ultimately show ?thesis using demoted_trans[OF dem] by simp
  next
    case False
    have "full_ok t ?p" if "0 < ?p" using that False by (auto simp: full_ok_def)
    then have "wf_tree t L"
      using prems(1) unfolding wf_tree_def wf_but_def by (metis less_not_refl)
    moreover have "combine_up t (int m - 1) = t"
      using False prems(2) by (simp only: combine_up_unfold[of m] if_False)
    ultimately show ?thesis by (simp add: demoted_def promoted_def)
  qed
qed

lemma uu_combine_unfold:
  assumes "0 < m"
  shows "uu_combine t (int m - 1) =
    (if m = 1 \<or> nd t (sib m) \<noteq> NODE_UNUSED then combine_up (upd t m NODE_UNUSED) (int m - 1)
     else uu_combine t (int (m div 2) - 1))"
proof (cases "2 \<le> m")
  case True
  have b: "int m - 1 - 1 + (int m - 1 AND 1) * 2 = int (sib m) - 1"
    using get_buddy_index_sib[OF True] by (simp only: get_buddy_index_def)
  have "\<not> int (sib m) - 1 < 0" "\<not> int m - 1 < 0" using sib_pos(2)[OF True] True by linarith+
  moreover have "m \<noteq> 1" using True by simp
  ultimately show ?thesis
    by (subst uu_combine.simps) (simp only: Let_def b node_nd half_index set_node_upd simp_thms if_False)
next
  case False
  then have "m = 1" using assms by simp
  then show ?thesis by (subst uu_combine.simps) (simp add: upd_def)
qed

lemma live_release:
  assumes "0 < m" "0 < x"
  shows "live (upd t m NODE_UNUSED) x \<longleftrightarrow> live t x \<and> (subnode m x \<longrightarrow> x = m)"
  using assms(2)
proof (induction x rule: less_induct)
  case (less x)
  show ?case
  proof (cases "2 \<le> x")
    case True
    let ?p = "x div 2"
    have p: "0 < ?p" "?p < x" using True by auto
    have u: "subnode m x \<longleftrightarrow> x = m \<or> subnode m ?p" using under_cases[of m x] under_half[of m x] under_refl[of m] by blast
    have mx: "x = m \<Longrightarrow> \<not> subnode m ?p" using under_le[of m ?p] p by auto
    have l: "live t x \<longleftrightarrow> inner (nd t ?p) \<and> live t ?p"
      "live (upd t m NODE_UNUSED) x \<longleftrightarrow> inner (nd (upd t m NODE_UNUSED) ?p) \<and> live (upd t m NODE_UNUSED) ?p"
      using True by (simp_all only: live_parent)
    show ?thesis
    proof (cases "?p = m")
      case True
      then have "x \<noteq> m" "subnode m ?p" using p by auto
      then show ?thesis using True p u l(2) by simp
    next
      case False
      then have "nd (upd t m NODE_UNUSED) ?p = nd t ?p" using p assms(1) by simp
      then show ?thesis unfolding l u less.IH[OF p(2,1)] using False mx by auto
    qed
  next
    case False
    then have "x = 1" using less.prems by simp
    then show ?thesis using under_le[of m 1] assms(1) by auto
  qed
qed

lemma wf_release:
  assumes wf: "wf_tree t L" and m: "0 < m" "live t m" and s: "m = 1 \<or> nd t (sib m) \<noteq> NODE_UNUSED"
  shows "wf_but (m div 2) 0 (upd t m NODE_UNUSED) L"
  unfolding wf_but_def
proof (intro allI impI conjI)
  let ?t = "upd t m NODE_UNUSED"
  fix x assume x: "0 < x" "live ?t x"
  then have lv: "live t x" using live_release[OF m(1) x(1)] by simp
  then have ok: "node_ok t L x" "full_ok t x" "split_ok t x" using wf x(1) by (auto simp: wf_tree_def)
  show "node_ok ?t L x" using ok m x by (auto simp: node_ok_def)
  show "full_ok ?t x" if h: "x \<noteq> m div 2"
  proof -
    have "2 * x \<noteq> m" "Suc (2 * x) \<noteq> m" using h by auto
    then show ?thesis using ok m x by (auto simp: full_ok_def)
  qed
  show "split_ok ?t x" if "x \<noteq> 0"
  proof (cases "x = m div 2")
    case True
    then have m2: "2 \<le> m" using x by simp
    then show ?thesis
      using True s m x sib_neq[of m] by (simp add: split_ok_sib)
  next
    case False
    then have "2 * x \<noteq> m" "Suc (2 * x) \<noteq> m" by auto
    then show ?thesis using ok m x by (auto simp: split_ok_def)
  qed
qed

lemma allocated_release:
  assumes "0 < m"
  shows "allocated (upd t m NODE_UNUSED) = allocated t - {x. subnode m x}"
  using assms live_release[OF assms] by (auto simp: allocated_def split: if_splits)

lemma combine_spec:
  assumes "wf_tree t L" "0 < m" "live t m" "nd t m \<noteq> NODE_UNUSED"
    and "{x \<in> allocated t. subnode m x} = {a}"
  shows "wf_tree (uu_combine t (int m - 1)) L \<and> allocated (uu_combine t (int m - 1)) = allocated t - {a}"
  using assms
proof (induction m rule: less_induct)
  case (less m)
  note prems = less.prems
  show ?case
  proof (cases "m = 1 \<or> nd t (sib m) \<noteq> NODE_UNUSED")
    case True
    let ?t = "upd t m NODE_UNUSED"
    have lv: "live ?t m" using live_release[OF prems(2,2), of t] prems(3) by simp
    have "wf_tree (combine_up ?t (int m - 1)) L \<and> demoted ?t (combine_up ?t (int m - 1))"
      using wf_release[OF prems(1,2,3) True] prems(2) lv True
      by (intro combine_up_spec) (auto simp: sib_neq)
    moreover have "allocated ?t = allocated t - {a}"
      using allocated_release[OF prems(2), of t] prems(5) by auto
    moreover have "uu_combine t (int m - 1) = combine_up ?t (int m - 1)"
      using True uu_combine_unfold[OF prems(2), of t] by simp
    ultimately show ?thesis using demoted_simps(2)[of ?t] by metis
  next
    case False
    let ?p = "m div 2"
    have m2: "2 \<le> m" and sib: "nd t (sib m) = NODE_UNUSED" using False prems(2) by auto
    have p: "0 < ?p" "?p < m" "live t ?p" "inner (nd t ?p)" using m2 prems(3) by (auto simp: live_parent)
    have "\<not> subnode (sib m) x" if "x \<in> allocated t" for x
      using that sib live_under[of t x "sib m"] sib_pos(1)[OF m2]
      by (cases "x = sib m") (auto simp: allocated_def)
    moreover have "?p \<notin> allocated t" using p(4) by (auto simp: allocated_def)
    moreover have "subnode ?p x \<longleftrightarrow> x = ?p \<or> subnode m x \<or> subnode (sib m) x" for x
      using under_children[OF p(1)] children_cases[OF m2] by (metis Suc_eq_plus1)
    ultimately have "{x \<in> allocated t. subnode ?p x} = {a}" using prems(5) by auto
    then have "wf_tree (uu_combine t (int ?p - 1)) L \<and> allocated (uu_combine t (int ?p - 1)) = allocated t - {a}"
      using prems(1) p by (intro less.IH) auto
    moreover have "uu_combine t (int m - 1) = uu_combine t (int ?p - 1)"
      using False uu_combine_unfold[OF prems(2), of t] by simp
    ultimately show ?thesis by simp
  qed
qed

end
