(* ===== verification/Buddy_Search.thy ===== *)
theory Buddy_Search
  imports Buddy_Wf
begin

text \<open>
  The search of \<^verbatim>\<open>buddy_alloc\<close>: the iterative walk over the array is the recursive
  depth-first search for the first unused node of the requested size, ends within
  \<open>2 ^ (level + 1)\<close> passes, and keeps the tree well-formed.
\<close>

section \<open>Depth-first search\<close>

definition split_node :: "(nat \<Rightarrow> u8) \<Rightarrow> nat \<Rightarrow> (nat \<Rightarrow> u8)" where
  "split_node t m = upd (upd (upd t m NODE_SPLIT) (2 * m) NODE_UNUSED) (Suc (2 * m)) NODE_UNUSED"

fun dfs :: "nat \<Rightarrow> nat \<Rightarrow> (nat \<Rightarrow> u8) \<Rightarrow> (nat \<times> (nat \<Rightarrow> u8)) option" where
  "dfs 0 m t = (if nd t m = NODE_UNUSED then Some (m, t) else None)"
| "dfs (Suc n) m t =
     (if full (nd t m) then None
      else let t = (if nd t m = NODE_UNUSED then split_node t m else t)
           in case dfs n (2 * m) t of Some r \<Rightarrow> Some r | None \<Rightarrow> dfs n (Suc (2 * m)) t)"

lemma nd_split_node:
  "0 < m \<Longrightarrow> 0 < x \<Longrightarrow> nd (split_node t m) x =
     (if x = m then NODE_SPLIT else if x = 2 * m \<or> x = Suc (2 * m) then NODE_UNUSED else nd t x)"
  by (auto simp: split_node_def)

lemma dfs_unused: "0 < m \<Longrightarrow> nd t m = NODE_UNUSED \<Longrightarrow> dfs n m t \<noteq> None"
proof (induction n arbitrary: m t)
  case (Suc n)
  have "dfs n (2 * m) (split_node t m) \<noteq> None"
    using Suc.prems by (intro Suc.IH) (auto simp: nd_split_node)
  then show ?case using Suc.prems by (auto simp: Let_def split: option.split)
qed simp

section \<open>The walk\<close>

fun nxt :: "nat \<Rightarrow> nat option" where
  "nxt m = (if m \<le> 1 then None else if even m then Some (m + 1) else nxt (m div 2))"

declare nxt.simps [simp del]

definition walk :: "nat \<Rightarrow> (nat \<Rightarrow> u8) \<Rightarrow> nat \<Rightarrow> alloc_state" where
  "walk L t m = (t, int m - 1, int (dep m), 2 ^ (L - dep m))"

lemma dep_Suc_even: "even m \<Longrightarrow> 0 < m \<Longrightarrow> dep (Suc m) = dep m"
  by (auto elim!: evenE)

lemma index_odd: "0 < m \<Longrightarrow> int m - 1 AND 1 \<noteq> 0 \<longleftrightarrow> even m"
  by (cases "even m") (auto simp: and_one_eq elim!: evenE oddE, presburger)

lemma alloc_up_nxt:
  assumes "0 < m" "dep m \<le> L"
  shows "alloc_up (int m - 1) (int (dep m)) (2 ^ (L - dep m)) =
    map_option (\<lambda>m. (int m - 1, int (dep m), 2 ^ (L - dep m))) (nxt (m div 2))"
  using assms
proof (induction m rule: less_induct)
  case (less m)
  let ?p = "m div 2"
  show ?case
  proof (cases "2 \<le> m")
    case True
    have d: "int (dep m) - 1 = int (dep ?p)" using True by (simp add: dep_parent)
    have l: "(2::int) ^ (L - dep m) * 2 = 2 ^ (L - dep ?p)"
    proof -
      obtain e where "L = dep m + e" using less.prems(2) le_Suc_ex by blast
      then show ?thesis using True by (simp add: dep_parent)
    qed
    have p: "0 < ?p" "?p < m" "dep ?p \<le> L" "\<not> int ?p - 1 < 0" using True less.prems by (auto simp: dep_parent)
    have "alloc_up (int m - 1) (int (dep m)) (2 ^ (L - dep m)) =
        (if even ?p then Some (int ?p, int (dep ?p), 2 ^ (L - dep ?p))
         else alloc_up (int ?p - 1) (int (dep ?p)) (2 ^ (L - dep ?p)))"
      by (subst alloc_up.simps)
        (simp only: Let_def d l half_index p if_False index_odd[OF p(1)], simp)
    also have "\<dots> = map_option (\<lambda>m. (int m - 1, int (dep m), 2 ^ (L - dep m))) (nxt ?p)"
    proof (cases "even ?p")
      case True
      then have "?p \<noteq> 1" by (metis odd_one)
      then have "2 \<le> ?p" using p(1) by linarith
      then show ?thesis using True by (simp add: nxt.simps[of ?p] dep_Suc_even)
    next
      case False
      then have "nxt ?p = nxt (?p div 2)" by (subst nxt.simps) (simp add: nxt.simps[of 0])
      then show ?thesis using False less.IH[OF p(2,1,3)] by simp
    qed
    finally show ?thesis .
  next
    case False
    then have "m = 1" using less.prems by simp
    then show ?thesis by (subst alloc_up.simps) (simp add: nxt.simps)
  qed
qed

lemma alloc_next_nxt:
  assumes "0 < m" "dep m \<le> L"
  shows "alloc_next t (int m - 1) (int (dep m)) (2 ^ (L - dep m)) =
    (case nxt m of None \<Rightarrow> Inl (t, -1) | Some m' \<Rightarrow> Inr (walk L t m'))"
proof (cases "even m")
  case True
  then have "2 \<le> m" using assms(1) by (auto elim!: evenE)
  then show ?thesis
    using True assms by (simp add: alloc_next_def index_odd nxt.simps[of m] walk_def dep_Suc_even)
next
  case False
  then have n: "nxt m = nxt (m div 2)" by (subst nxt.simps) (simp add: nxt.simps[of 0])
  have i: "\<not> int m - 1 AND 1 \<noteq> 0" using False index_odd[OF assms(1)] by simp
  show ?thesis
    unfolding alloc_next_def n alloc_up_nxt[OF assms] using i
    by (auto simp: walk_def split: option.split)
qed

text \<open>The rest of the loop after the subtree of \<open>m\<close> has been searched in vain.\<close>

definition after :: "nat \<Rightarrow> nat \<Rightarrow> int \<Rightarrow> (nat \<Rightarrow> u8) \<Rightarrow> nat \<Rightarrow> ((nat \<Rightarrow> u8) \<times> int) option" where
  "after f L sz t m = (case nxt m of None \<Rightarrow> Some (t, -1) | Some m' \<Rightarrow> alloc_loop f L sz (walk L t m'))"

definition found :: "nat \<Rightarrow> (nat \<Rightarrow> u8) \<Rightarrow> nat \<Rightarrow> (nat \<Rightarrow> u8) \<times> int" where
  "found L t m = (uu_mark_parent (upd t m NODE_USED) (int m - 1), int (lo L m))"

lemma index_offset_lo:
  assumes "0 < m"
  shows "uu_index_offset (int m - 1) (dep m) L = int (lo L m)"
proof -
  have "int m - 2 ^ dep m = int (m - 2 ^ dep m)" using dep_bounds[OF assms] by (simp add: of_nat_diff)
  then show ?thesis by (simp add: uu_index_offset_def lo_def)
qed

lemma alloc_loop_step:
  assumes "0 < m" "dep m \<le> L"
  shows "alloc_loop (Suc f) L sz (walk L t m) =
    (if sz = 2 ^ (L - dep m)
     then if nd t m = NODE_UNUSED then Some (found L t m) else after f L sz t m
     else if full (nd t m) then after f L sz t m
     else alloc_loop f L sz (if nd t m = NODE_UNUSED then split_node t m else t,
       int (2 * m) - 1, int (dep m) + 1, 2 ^ (L - dep m) div 2))"
proof -
  have i: "\<not> int m - 1 < 0" using assms by simp
  have c: "(int m - 1) * 2 + 1 = int (2 * m) - 1" "(int m - 1) * 2 + 2 = int (Suc (2 * m)) - 1" by simp_all
  have a: "(case alloc_next t (int m - 1) (int (dep m)) (2 ^ (L - dep m)) of
       Inl r \<Rightarrow> Some r | Inr st \<Rightarrow> alloc_loop f L s st) = after f L s t m" for s
    unfolding alloc_next_nxt[OF assms] after_def by (auto split: option.split)
  show ?thesis
    unfolding walk_def alloc_loop.simps alloc_pass_def Let_def prod.case
    by (simp only: i if_False node_nd set_node_upd c a index_offset_lo[OF assms(1)] nat_int
      split_node_def[symmetric] full_def[symmetric] found_def[symmetric] sum.case
      if_distrib[where f = "case_sum _ _"] cong: if_cong)
qed

declare alloc_loop.simps [simp del]

lemma nxt_children:
  assumes "0 < m"
  shows "nxt (2 * m) = Some (Suc (2 * m))" "nxt (Suc (2 * m)) = nxt m"
  using assms by (simp_all add: nxt.simps[of "2 * m"] nxt.simps[of "Suc (2 * m)"])

lemma walk_child:
  assumes "0 < m" "dep m < L"
  shows "(t, int (2 * m) - 1, int (dep m) + 1, 2 ^ (L - dep m) div 2) = walk L t (2 * m)"
proof -
  obtain e where "L = Suc (dep m) + e" using assms(2) less_imp_Suc_add by auto
  then show ?thesis using assms(1) by (simp add: walk_def)
qed

lemma alloc_loop_dfs:
  assumes "0 < m" "dep m + n \<le> L"
  shows "\<exists>c. c < 2 * 2 ^ n \<and> (\<forall>f. alloc_loop (c + f) L (2 ^ (L - (dep m + n))) (walk L t m) =
    (case dfs n m t of Some (m', t') \<Rightarrow> Some (found L t' m')
     | None \<Rightarrow> after f L (2 ^ (L - (dep m + n))) t m))"
  using assms
proof (induction n arbitrary: m t)
  case 0
  then show ?case by (intro exI[of _ 1]) (auto simp: alloc_loop_step)
next
  case (Suc n)
  let ?sz = "2 ^ (L - (dep m + Suc n)) :: int"
  have dm: "dep m \<le> L" and ne: "?sz \<noteq> 2 ^ (L - dep m)" using Suc.prems(2) by auto
  show ?case
  proof (cases "full (nd t m)")
    case True
    have "(1::nat) < 2 * 2 ^ Suc n"
      using one_le_power[of "2::nat" n] unfolding power_Suc by linarith
    then show ?thesis
      using True Suc.prems dm ne by (intro exI[of _ 1]) (auto simp: alloc_loop_step)
  next
    case False
    define t' where "t' = (if nd t m = NODE_UNUSED then split_node t m else t)"
    have step: "alloc_loop (Suc f) L ?sz (walk L t m) = alloc_loop f L ?sz (walk L t' (2 * m))" for f
      using Suc.prems False ne dm walk_child[of m L t'] by (simp add: alloc_loop_step t'_def)
    have ch: "dep (2 * m) + n = dep m + Suc n" "dep (Suc (2 * m)) + n = dep m + Suc n" "0 < 2 * m"
      using Suc.prems(1) by auto
    obtain c1 where c1: "c1 < 2 * 2 ^ n" "\<And>f. alloc_loop (c1 + f) L ?sz (walk L t' (2 * m)) =
        (case dfs n (2 * m) t' of Some (m', t'') \<Rightarrow> Some (found L t'' m') | None \<Rightarrow> after f L ?sz t' (2 * m))"
      using Suc.IH[of "2 * m" t'] Suc.prems(2) ch(3) unfolding ch(1) by blast
    obtain c2 where c2: "c2 < 2 * 2 ^ n" "\<And>f. alloc_loop (c2 + f) L ?sz (walk L t' (Suc (2 * m))) =
        (case dfs n (Suc (2 * m)) t' of Some (m', t'') \<Rightarrow> Some (found L t'' m')
         | None \<Rightarrow> after f L ?sz t' (Suc (2 * m)))"
      using Suc.IH[of "Suc (2 * m)" t'] Suc.prems(2) unfolding ch(2) by blast
    have dfs: "dfs (Suc n) m t = (case dfs n (2 * m) t' of Some r \<Rightarrow> Some r | None \<Rightarrow> dfs n (Suc (2 * m)) t')"
      using False by (simp only: dfs.simps Let_def t'_def if_False)
    have af1: "after f L ?sz t' (2 * m) = alloc_loop f L ?sz (walk L t' (Suc (2 * m)))" for f
      using Suc.prems(1) by (simp add: after_def nxt_children)
    have af2: "after f L ?sz t' (Suc (2 * m)) = after f L ?sz t' m" for f
      using Suc.prems(1) by (simp add: after_def nxt_children)
    have same: "t' = t" if "dfs (Suc n) m t = None"
      using that dfs_unused[OF Suc.prems(1), of t "Suc n"] by (auto simp: t'_def)
    have "alloc_loop (Suc (c1 + c2) + f) L ?sz (walk L t m) = (case dfs (Suc n) m t of
        Some (m', t') \<Rightarrow> Some (found L t' m') | None \<Rightarrow> after f L ?sz t m)" for f
    proof (cases "dfs n (2 * m) t'")
      case None
      then have "alloc_loop (Suc (c1 + c2) + f) L ?sz (walk L t m) = alloc_loop (c2 + f) L ?sz (walk L t' (Suc (2 * m)))"
        using step[of "c1 + (c2 + f)"] c1(2)[of "c2 + f"] af1[of "c2 + f"] by (simp add: add.assoc)
      then show ?thesis
        using None c2(2)[of f] af2[of f] dfs same by (auto split: option.split)
    next
      case (Some r)
      then show ?thesis
        using step[of "c1 + (c2 + f)"] c1(2)[of "c2 + f"] dfs by (simp add: add.assoc)
    qed
    moreover have "Suc (c1 + c2) < 2 * 2 ^ Suc n" using c1(1) c2(1) by simp
    ultimately show ?thesis by blast
  qed
qed

text \<open>
  From the root, with fuel for every node of the tree, the loop returns, and returns what
  the search finds.
\<close>

theorem alloc_loop_root:
  assumes "k \<le> L" "2 * 2 ^ L \<le> fuel"
  shows "alloc_loop fuel L (2 ^ k) (t, 0, 0, 2 ^ L) =
    (case dfs (L - k) 1 t of Some (m, t') \<Rightarrow> Some (found L t' m) | None \<Rightarrow> Some (t, -1))"
proof -
  obtain c where c: "c < 2 * 2 ^ (L - k)" "\<And>f. alloc_loop (c + f) L (2 ^ (L - (L - k))) (walk L t 1) =
    (case dfs (L - k) 1 t of Some (m', t') \<Rightarrow> Some (found L t' m') | None \<Rightarrow> after f L (2 ^ (L - (L - k))) t 1)"
    using alloc_loop_dfs[of 1 "L - k" L t] unfolding dep_1 add_0 by auto
  have "(2::nat) ^ (L - k) \<le> 2 ^ L" by (simp add: power_increasing)
  then have "c \<le> fuel" using c(1) assms(2) by linarith
  then obtain f where "fuel = c + f" using le_Suc_ex by blast
  then show ?thesis
    using c(2)[of f] assms(1) by (simp add: walk_def after_def nxt.simps[of "Suc 0"] cong: option.case_cong)
qed

section \<open>The search keeps the tree well-formed\<close>

lemma live_split:
  assumes "0 < m" "live t m" "nd t m = NODE_UNUSED" "0 < x"
  shows "live (split_node t m) x \<longleftrightarrow> live t x \<or> x div 2 = m"
  using assms(4)
proof (induction x rule: less_induct)
  case (less x)
  show ?case
  proof (cases "2 \<le> x")
    case True
    let ?p = "x div 2" and ?t = "split_node t m"
    have p: "0 < ?p" "?p < x" using True by auto
    note IH = less.IH[OF p(2,1)]
    have l: "live t x \<longleftrightarrow> inner (nd t ?p) \<and> live t ?p" "live ?t x \<longleftrightarrow> inner (nd ?t ?p) \<and> live ?t ?p"
      using True by (simp_all only: live_parent)
    consider "?p = m" | "?p \<noteq> m" "?p div 2 = m" | "?p \<noteq> m" "?p div 2 \<noteq> m" by blast
    then show ?thesis
    proof cases
      case 1
      then show ?thesis using IH l assms by (simp add: nd_split_node)
    next
      case 2
      then have c: "?p = 2 * m \<or> ?p = Suc (2 * m)" by linarith
      then have "\<not> live t ?p" using assms by (auto simp: live_parent)
      moreover have "nd ?t ?p = NODE_UNUSED" using c assms(1) p by (auto simp: nd_split_node)
      ultimately show ?thesis using 2 l by simp
    next
      case 3
      then have "?p \<noteq> 2 * m" "?p \<noteq> Suc (2 * m)" by auto
      then have "nd ?t ?p = nd t ?p" using 3 assms(1) p by (simp add: nd_split_node)
      then show ?thesis using 3 l IH by simp
    qed
  next
    case False
    then have "x = 1" using less.prems by simp
    then show ?thesis using assms(1) by simp
  qed
qed

lemma wf_split:
  assumes wf: "wf_but 0 (m div 2) t L" and m: "0 < m" "live t m" "nd t m = NODE_UNUSED" "dep m < L"
  shows "wf_but 0 m (split_node t m) L" "allocated (split_node t m) = allocated t"
proof -
  let ?t = "split_node t m"
  have kids: "x div 2 = m \<longleftrightarrow> x = 2 * m \<or> x = Suc (2 * m)" for x by linarith
  have dead: "\<not> live t x" if "x div 2 = m" for x
    using that m by (auto simp: kids)
  have nd: "nd ?t x = (if x = m then NODE_SPLIT else if x div 2 = m then NODE_UNUSED else nd t x)" if "0 < x" for x
    using that m by (simp add: nd_split_node kids)
  have "live ?t x \<and> nd ?t x = NODE_USED \<longleftrightarrow> live t x \<and> nd t x = NODE_USED" if "0 < x" for x
  proof (cases "x div 2 = m")
    case True
    then have "nd ?t x = NODE_UNUSED" using nd[OF that] m(1) by simp
    then show ?thesis using dead[OF True] by simp
  next
    case False
    then show ?thesis using nd[OF that] live_split[OF m(1-3) that] m(3) by (cases "x = m") simp_all
  qed
  then show "allocated ?t = allocated t" by (auto simp: allocated_def)
  show "wf_but 0 m ?t L"
    unfolding wf_but_def
  proof (intro allI impI conjI)
    fix x assume x: "0 < x" "live ?t x"
    then have cs: "live t x \<and> x div 2 \<noteq> m \<or> x div 2 = m" using live_split[OF m(1-3) x(1)] by blast
    then have ok: "x div 2 = m \<or> node_ok t L x \<and> full_ok t x \<and> (x \<noteq> m div 2 \<longrightarrow> split_ok t x)"
      using wf x(1) by (auto simp: wf_but_def)
    show "node_ok ?t L x"
      using ok m x by (auto simp: node_ok_def nd_split_node kids)
    show "full_ok ?t x"
    proof (cases "x = m \<or> x div 2 = m")
      case True
      then show ?thesis using m x by (auto simp: full_ok_def nd_split_node kids)
    next
      case False
      then show ?thesis using ok m x by (auto simp: full_ok_def nd_split_node kids)
    qed
    show "split_ok ?t x" if "x \<noteq> m"
    proof (cases "x div 2 = m")
      case True
      then show ?thesis using m x by (auto simp: split_ok_def nd_split_node kids)
    next
      case False
      show ?thesis
      proof (cases "x = m div 2")
        case True
        then have m2: "2 \<le> m" using x by simp
        have "sib m div 2 \<noteq> m" using m2 by simp
        then have "nd ?t m = NODE_SPLIT" "nd ?t x = nd t x" "nd ?t (sib m) = nd t (sib m)"
          using m m2 x False that sib_neq[of m] sib_pos[OF m2] by (simp_all add: nd)
        then show ?thesis using True m2 by (simp add: split_ok_sib)
      next
        case False
        then have "split_ok t x" using ok \<open>x div 2 \<noteq> m\<close> by blast
        moreover have "2 * x \<noteq> m" "Suc (2 * x) \<noteq> m" using False by auto
        moreover have "2 * x \<noteq> 2 * m" "Suc (2 * x) \<noteq> Suc (2 * m)" "2 * x \<noteq> Suc (2 * m)" "Suc (2 * x) \<noteq> 2 * m"
          using that by presburger+
        ultimately show ?thesis using m x that \<open>x div 2 \<noteq> m\<close> by (auto simp: split_ok_def nd_split_node kids)
      qed
    qed
  qed
qed

lemma wf_but_split_node:
  assumes "wf_but 0 (m div 2) t L" "0 < m" "live t m" "nd t m = NODE_SPLIT"
  shows "wf_but 0 m t L"
proof -
  have "wf_tree t L"
  proof (rule wf_but_fill[OF assms(1)])
    assume "0 < m div 2"
    then show "split_ok t (m div 2)" using assms(4) by (simp add: split_ok_sib)
  qed
  then show ?thesis by (rule wf_tree_but)
qed

lemma dfs_spec:
  assumes "wf_but 0 (m div 2) t L" "0 < m" "live t m" "dep m + n \<le> L" "dfs n m t = Some (m', t')"
  shows "dep m' = dep m + n \<and> 0 < m' \<and> live t' m' \<and> nd t' m' = NODE_UNUSED
    \<and> wf_but 0 (m' div 2) t' L \<and> allocated t' = allocated t"
  using assms
proof (induction n arbitrary: m t)
  case 0
  then show ?case by (auto split: if_splits)
next
  case (Suc n)
  note prems = Suc.prems
  have nf: "\<not> full (nd t m)" using prems(5) by (auto split: if_splits)
  define t1 where "t1 = (if nd t m = NODE_UNUSED then split_node t m else t)"
  have ok: "nd t m \<in> {NODE_UNUSED, NODE_USED, NODE_SPLIT, NODE_FULL}"
    using prems(1-3) by (auto simp: wf_but_def node_ok_def)
  have t1: "wf_but 0 m t1 L" "allocated t1 = allocated t" "live t1 (2 * m)" "live t1 (Suc (2 * m))"
  proof -
    have "nd t m = NODE_UNUSED \<or> nd t m = NODE_SPLIT" using ok nf by auto
    then have "wf_but 0 m t1 L \<and> allocated t1 = allocated t \<and> live t1 (2 * m) \<and> live t1 (Suc (2 * m))"
    proof
      assume u: "nd t m = NODE_UNUSED"
      then show ?thesis
        using wf_split[OF prems(1-3) u] prems live_split[OF prems(2,3) u] by (simp add: t1_def nd_split_node)
    next
      assume s: "nd t m = NODE_SPLIT"
      then show ?thesis using wf_but_split_node[OF prems(1-3) s] prems(2,3) by (simp add: t1_def)
    qed
    then show "wf_but 0 m t1 L" "allocated t1 = allocated t" "live t1 (2 * m)" "live t1 (Suc (2 * m))"
      by blast+
  qed
  have dfs: "dfs (Suc n) m t = (case dfs n (2 * m) t1 of Some r \<Rightarrow> Some r | None \<Rightarrow> dfs n (Suc (2 * m)) t1)"
    using nf by (simp only: dfs.simps Let_def t1_def if_False)
  show ?case
  proof (cases "dfs n (2 * m) t1")
    case None
    then have "dfs n (Suc (2 * m)) t1 = Some (m', t')" using dfs prems(5) by simp
    then show ?thesis using Suc.IH[of "Suc (2 * m)" t1] t1 prems(2,4) by simp
  next
    case (Some r)
    then have "dfs n (2 * m) t1 = Some (m', t')" using dfs prems(5) by simp
    then show ?thesis using Suc.IH[of "2 * m" t1] t1 prems(2,4) by simp
  qed
qed

text \<open>A search in vain: every unused block of the subtree is smaller than the request.\<close>

lemma full_subtree:
  assumes "wf_but 0 s t L" "0 < m" "full (nd t m)"
  shows "subnode m x \<Longrightarrow> live t x \<Longrightarrow> full (nd t x)"
proof (induction x rule: less_induct)
  case (less x)
  show ?case
  proof (cases "x = m")
    case False
    then have h: "subnode m (x div 2)" using under_cases less.prems(1) by blast
    then have p: "0 < x div 2" using under_pos assms(2) by blast
    then have x2: "2 \<le> x" by simp
    then have lv: "live t (x div 2)" "inner (nd t (x div 2))" using less.prems(2) by (auto simp: live_parent)
    then have "full (nd t (x div 2))" using less.IH[of "x div 2"] h x2 by simp
    then have "nd t (x div 2) = NODE_FULL" using lv(2) by (auto simp: full_def)
    moreover have "full_ok t (x div 2)" using assms(1) p lv(1) by (auto simp: wf_but_def)
    ultimately show ?thesis
      using children_cases[OF x2] unfolding full_ok_def by (metis Suc_eq_plus1)
  qed (use assms(3) in simp)
qed

lemma subnode_dep: "subnode m x \<Longrightarrow> 0 < m \<Longrightarrow> x = m \<or> dep m < dep x"
proof (induction x rule: less_induct)
  case (less x)
  show ?case
  proof (cases "x = m")
    case False
    then have h: "subnode m (x div 2)" using under_cases less.prems(1) by blast
    then have "0 < x div 2" using under_pos less.prems(2) by blast
    then show ?thesis using less.IH[of "x div 2"] h less.prems(2) dep_parent[of x] by auto
  qed simp
qed

lemma dfs_none:
  assumes "wf_but 0 s t L" "0 < m" "live t m" "dfs n m t = None"
    and x: "subnode m x" "live t x" "nd t x = NODE_UNUSED"
  shows "dep m + n < dep x"
  using assms
proof (induction n arbitrary: m)
  case 0
  then show ?case using subnode_dep[of m x] by (auto split: if_splits)
next
  case (Suc n)
  have nf: "\<not> full (nd t m)"
    using full_subtree[OF Suc.prems(1,2) _ Suc.prems(5,6)] Suc.prems(7) by auto
  have nu: "nd t m \<noteq> NODE_UNUSED" using dfs_unused[OF Suc.prems(2), of t "Suc n"] Suc.prems(4) by auto
  then have none: "dfs n (2 * m) t = None" "dfs n (Suc (2 * m)) t = None"
    using Suc.prems(4) nf by (auto simp: Let_def split: option.splits)
  have "nd t m \<in> {NODE_UNUSED, NODE_USED, NODE_SPLIT, NODE_FULL}"
    using Suc.prems(1-3) by (auto simp: wf_but_def node_ok_def)
  then have "inner (nd t m)" using nf nu by auto
  then have lv: "live t (2 * m)" "live t (Suc (2 * m))" using Suc.prems(2,3) by auto
  have "subnode (2 * m) x \<or> subnode (Suc (2 * m)) x"
    using under_children[OF Suc.prems(2)] Suc.prems(5,7) nu by auto
  then show ?case
  proof
    assume "subnode (2 * m) x"
    then show ?thesis using Suc.IH[of "2 * m"] none lv Suc.prems by simp
  next
    assume "subnode (Suc (2 * m)) x"
    then show ?thesis using Suc.IH[of "Suc (2 * m)"] none lv Suc.prems by simp
  qed
qed

end
