(* ===== verification/Buddy_Correct.thy ===== *)
theory Buddy_Correct
  imports Buddy_Search Popcount
begin

text \<open>
  The contract of a buddy: \<^verbatim>\<open>buddy_alloc\<close> hands out an unallocated, aligned block of the
  requested size rounded up to a power of two, or fails when there is none; \<^verbatim>\<open>buddy_free\<close>
  gives exactly one block back; \<^verbatim>\<open>buddy_size\<close> reports the size of the block of a page.
\<close>

section \<open>Rounding up to a power of two\<close>

lemma and_pred_pow2: "(2 ^ k * (2 * q + 1)) AND (2 ^ k * (2 * q + 1) - 1) = 2 ^ k * (2 * (q::nat))"
proof -
  have "2 ^ k * (2 * q + 1) - 1 = 2 ^ k * (2 * q) + (2 ^ k - 1)"
    by (simp add: algebra_simps)
  moreover have "(2 * q + 1) AND (2 * q) = 2 * q"
    using nat_and_concat[of 1 1 0 q q] by simp
  ultimately show ?thesis
    using nat_and_concat[of 0 k "2 ^ k - 1" "2 * q + 1" "2 * q"] by (simp del: One_nat_def)
qed

lemma odd_part: "0 < (n::nat) \<Longrightarrow> \<exists>k q. n = 2 ^ k * (2 * q + 1)"
proof (induction n rule: less_induct)
  case (less n)
  show ?case
  proof (cases "even n")
    case True
    then obtain n' where n: "n = 2 * n'" by (elim evenE)
    then have "n' < n" "0 < n'" using less.prems by auto
    then obtain k q where "n' = 2 ^ k * (2 * q + 1)" using less.IH by blast
    then show ?thesis using n by (intro exI[of _ "Suc k"] exI[of _ q]) simp
  next
    case False
    then obtain q where "n = 2 * q + 1" by (elim oddE)
    then show ?thesis by (intro exI[of _ 0] exI[of _ q]) simp
  qed
qed

lemma is_pow_of_2_iff:
  assumes "x \<noteq> 0"
  shows "is_pow_of_2 x \<longleftrightarrow> (\<exists>k. unat x = 2 ^ k)"
proof -
  have pos: "0 < unat x" using assms by (simp add: unat_gt_0)
  then obtain k q where kq: "unat x = 2 ^ k * (2 * q + 1)" using odd_part by blast
  have "unat (x AND (x - 1)) = unat x AND (unat x - 1)"
    using assms by (simp add: unsigned_and_eq unat_minus_one)
  also have "\<dots> = 2 ^ k * (2 * q)" unfolding kq by (rule and_pred_pow2)
  finally have "is_pow_of_2 x \<longleftrightarrow> q = 0"
    unfolding is_pow_of_2_def by (metis mult_eq_0_iff power_not_zero unsigned_eq_0_iff zero_neq_numeral)
  moreover have "q = 0" if "2 ^ k * (2 * q + 1) = (2::nat) ^ j" for j
  proof -
    have "2 * q + 1 dvd (2::nat) ^ j" using that by (metis dvd_triv_right)
    moreover have "coprime (2 * q + 1) ((2::nat) ^ j)" by simp
    ultimately have "is_unit (2 * q + 1)" using coprime_absorb_left by blast
    then show ?thesis by simp
  qed
  ultimately show ?thesis using kq by auto
qed

text \<open>The shifts and ors fill every position below the highest set bit.\<close>

definition smear :: "nat \<Rightarrow> u32 \<Rightarrow> u32" where
  "smear n x = x OR drop_bit n x"

lemma bit_smear_window:
  assumes "\<And>i. bit y i \<longleftrightarrow> (\<exists>j. i \<le> j \<and> j < i + n \<and> bit x j)"
  shows "bit (smear n y) i \<longleftrightarrow> (\<exists>j. i \<le> j \<and> j < i + 2 * n \<and> bit x j)"
proof -
  have "bit (smear n y) i \<longleftrightarrow> bit y i \<or> bit y (i + n)"
    by (simp add: smear_def bit_or_iff bit_drop_bit_eq add.commute)
  also have "\<dots> \<longleftrightarrow> (\<exists>j. (i \<le> j \<and> j < i + n \<or> i + n \<le> j \<and> j < i + n + n) \<and> bit x j)"
    using assms by blast
  finally have "bit (smear n y) i \<longleftrightarrow>
    (\<exists>j. (i \<le> j \<and> j < i + n \<or> i + n \<le> j \<and> j < i + n + n) \<and> bit x j)" .
  moreover have "(i \<le> j \<and> j < i + n \<or> i + n \<le> j \<and> j < i + n + n) \<longleftrightarrow> i \<le> j \<and> j < i + 2 * n" for j
    by linarith
  ultimately show ?thesis by (simp only: conj_assoc)
qed

lemma smear_mask:
  assumes "x \<noteq> 0"
  shows "smear 16 (smear 8 (smear 4 (smear 2 (smear 1 x)))) = mask (Suc (Max {i. bit x i}))"
proof (rule bit_word_eqI)
  fix i assume i: "i < LENGTH(32)"
  let ?h = "Max {i. bit x i}"
  have "{i. bit x i} \<noteq> {}" using assms by (auto simp: word_eq_0_iff_bits)
  then have h: "bit x ?h" using Max_in[of "{i. bit x i}"] by simp
  have w1: "bit x i \<longleftrightarrow> (\<exists>j. i \<le> j \<and> j < i + 1 \<and> bit x j)" for i
    by (metis add.commute less_Suc_eq_le plus_1_eq_Suc le_antisym order_refl)
  note w2 = bit_smear_window[OF w1, unfolded mult_1_right]
  have "bit (smear 16 (smear 8 (smear 4 (smear 2 (smear 1 x))))) i \<longleftrightarrow> (\<exists>j. i \<le> j \<and> j < i + 32 \<and> bit x j)"
    using bit_smear_window[OF bit_smear_window[OF bit_smear_window[OF bit_smear_window[OF w2]]]] by simp
  also have "\<dots> \<longleftrightarrow> i \<le> ?h"
  proof
    assume "\<exists>j. i \<le> j \<and> j < i + 32 \<and> bit x j"
    then show "i \<le> ?h" using Max_ge[of "{i. bit x i}"] by (metis finite_bits le_trans mem_Collect_eq)
  next
    assume "i \<le> ?h"
    moreover have "?h < 32" using h bit_imp_le_length by fastforce
    ultimately show "\<exists>j. i \<le> j \<and> j < i + 32 \<and> bit x j" using h by (intro exI[of _ ?h]) simp
  qed
  finally show "bit (smear 16 (smear 8 (smear 4 (smear 2 (smear 1 x))))) i = bit (mask (Suc ?h) :: u32) i"
    using i by (simp add: bit_mask_iff less_Suc_eq_le)
qed

lemma highest_bit_bounds:
  fixes x :: u32
  assumes "x \<noteq> 0"
  shows "2 ^ Max {i. bit x i} \<le> unat x" "unat x < 2 ^ Suc (Max {i. bit x i})"
proof -
  let ?h = "Max {i. bit x i}"
  have "{i. bit x i} \<noteq> {}" using assms by (auto simp: word_eq_0_iff_bits)
  then have "bit x ?h" using Max_in[of "{i. bit x i}"] by simp
  then have h: "bit (unat x) ?h" by (simp only: bit_word_iff_nat)
  show "2 ^ ?h \<le> unat x"
  proof (rule ccontr)
    assume "\<not> 2 ^ ?h \<le> unat x"
    then show False using bit_nat_less[of "unat x" ?h ?h] h by simp
  qed
  have "x AND mask (Suc ?h) = x"
    using Max_ge[of "{i. bit x i}"] by (intro bit_word_eqI) (auto simp: bit_simps less_Suc_eq_le)
  then have "unat x = unat x mod 2 ^ Suc ?h" using unat_and_mask[of x "Suc ?h"] by simp
  then show "unat x < 2 ^ Suc ?h" by (metis mod_less_divisor zero_less_numeral zero_less_power)
qed

lemma next_pow_of_2_correct:
  assumes "0 < unat x" "unat x \<le> 2 ^ 31"
  obtains k where "unat (next_pow_of_2 x) = 2 ^ k" "unat x \<le> 2 ^ k" "2 ^ k < 2 * unat x" "k \<le> 31"
proof (cases "is_pow_of_2 x")
  case True
  then obtain k where "unat x = 2 ^ k" using is_pow_of_2_iff[of x] assms(1) by force
  moreover have "k \<le> 31"
  proof (rule power_le_imp_le_exp)
    show "(2::nat) ^ k \<le> 2 ^ 31" using assms(2) calculation by simp
  qed simp
  ultimately show ?thesis using that[of k] True by (simp add: next_pow_of_2_def)
next
  case False
  let ?h = "Max {i. bit x i}"
  have nz: "x \<noteq> 0" using assms(1) by auto
  note b = highest_bit_bounds[OF nz]
  have ne: "unat x \<noteq> 2 ^ ?h" using False is_pow_of_2_iff[OF nz] by blast
  have "?h < 31"
  proof (rule ccontr)
    assume "\<not> ?h < 31"
    then have "(2::nat) ^ 31 \<le> 2 ^ ?h" by (intro power_increasing) auto
    then show False using b(1) ne assms(2) by linarith
  qed
  then have "unat (2 ^ Suc ?h :: u32) = 2 ^ Suc ?h" by (intro unat_two_power) simp
  moreover have "next_pow_of_2 x = 2 ^ Suc ?h"
    using False smear_mask[OF nz] unfolding smear_def
    by (simp only: next_pow_of_2_def Let_def if_False) (simp add: mask_eq_decr_exp)
  ultimately show ?thesis using that[of "Suc ?h"] b ne \<open>?h < 31\<close> by simp
qed

lemma sint_small:
  assumes "unat (w :: u32) < 2 ^ 31"
  shows "sint w = int (unat w)"
proof -
  have "int (unat w) < int (2 ^ 31)" using assms by (simp only: of_nat_less_iff)
  then have "uint w < 2 ^ 31" by simp
  moreover have "- (2 ^ 31) \<le> uint w" by (rule order_trans[OF _ uint_ge_0]) simp
  ultimately have "signed_take_bit 31 (uint w) = uint w" by (intro signed_take_bit_int_eq_self)
  then show ?thesis by (simp add: sint_uint)
qed

text \<open>The number of pages handed out for a request of \<open>s\<close> pages.\<close>

lemma alloc_size_pow:
  assumes "0 \<le> s" "s \<le> 2 ^ 30"
  obtains k where "alloc_size s = 2 ^ k" "s \<le> 2 ^ k" "s = 0 \<and> k = 0 \<or> 2 ^ k < 2 * s"
proof (cases "s = 0")
  case True
  then show ?thesis using that[of 0] by (simp add: alloc_size_def)
next
  case False
  define n where "n = nat s"
  have s: "s = int n" "0 < n" "n \<le> 2 ^ 30" using assms False by (auto simp: n_def)
  have "unat (of_int s :: u32) = n" using s by (simp add: unat_word_of_nat_small)
  then obtain k where k: "unat (next_pow_of_2 (of_int s)) = 2 ^ k" "n \<le> 2 ^ k" "2 ^ k < 2 * n"
    using next_pow_of_2_correct[of "of_int s"] s by auto
  moreover have "(2::nat) ^ k < 2 ^ 31" using k(3) s(3) by simp
  ultimately have "alloc_size s = 2 ^ k" using False by (simp add: alloc_size_def sint_small)
  moreover have "int n \<le> int (2 ^ k)" "int (2 ^ k) < int (2 * n)" using k(2,3) by linarith+
  then have "s \<le> 2 ^ k" "2 ^ k < 2 * s" using s(1) by simp_all
  ultimately show ?thesis using that by blast
qed

section \<open>Pages and nodes\<close>

text \<open>Every page lies in the block of one live node that is used or unused.\<close>

lemma live_leaf:
  assumes wf: "wf_tree t L" and x: "x < 2 ^ L"
  obtains m where "0 < m" "live t m" "\<not> inner (nd t m)" "x \<in> pages_of L m" "dep m \<le> L"
proof -
  have "\<exists>m. 0 < m \<and> live t m \<and> \<not> inner (nd t m) \<and> x \<in> pages_of L m \<and> dep m \<le> L"
    if "0 < m" "live t m" "x \<in> pages_of L m" "dep m \<le> L" for m
    using that
  proof (induction "L - dep m" arbitrary: m rule: less_induct)
    case less
    show ?case
    proof (cases "inner (nd t m)")
      case True
      then have d: "dep m < L" using wf less.prems by (auto simp: wf_tree_def node_ok_def)
      then consider "x \<in> pages_of L (2 * m)" | "x \<in> pages_of L (Suc (2 * m))"
        using pages_of_split[OF less.prems(1) d] less.prems(3) by auto
      then show ?thesis
      proof cases
        case 1
        then show ?thesis using less.hyps[of "2 * m"] less.prems True d by simp
      next
        case 2
        then show ?thesis using less.hyps[of "Suc (2 * m)"] less.prems True d by simp
      qed
    qed (use less.prems in blast)
  qed
  moreover have "x \<in> pages_of L 1" using x by (simp add: pages_of_def lo_def)
  ultimately show ?thesis using that by (metis dep_1(2) le0 live_1(2) zero_less_one)
qed

lemma inner_has_allocated:
  assumes wf: "wf_tree t L"
  shows "0 < m \<Longrightarrow> live t m \<Longrightarrow> inner (nd t m) \<Longrightarrow> \<exists>a\<in>allocated t. subnode m a"
proof (induction "L - dep m" arbitrary: m rule: less_induct)
  case less
  have ok: "node_ok t L m" "full_ok t m" "split_ok t m" using wf less.prems by (auto simp: wf_tree_def)
  have d: "dep m < L" using ok less.prems by (auto simp: node_ok_def)
  have "nd t (2 * m) \<noteq> NODE_UNUSED \<or> nd t (Suc (2 * m)) \<noteq> NODE_UNUSED"
    using ok(2,3) less.prems(3) by (auto simp: full_ok_def split_ok_def inner_def)
  then obtain c where c: "c = 2 * m \<or> c = Suc (2 * m)" "nd t c \<noteq> NODE_UNUSED" by blast
  then have cp: "0 < c" "live t c" "dep c = Suc (dep m)" using less.prems by auto
  have sub: "subnode m a" if "subnode c a" for a
    using under_children[OF less.prems(1)] c(1) that by auto
  have "nd t c \<in> {NODE_UNUSED, NODE_USED, NODE_SPLIT, NODE_FULL}"
    using wf cp by (auto simp: wf_tree_def node_ok_def)
  then have "nd t c = NODE_USED \<or> inner (nd t c)" using c(2) by auto
  then show ?case
  proof
    assume "nd t c = NODE_USED"
    then have "c \<in> allocated t" using cp by (simp add: allocated_def)
    then show ?thesis using sub under_refl by blast
  next
    assume "inner (nd t c)"
    then show ?thesis using less.hyps[of c] cp d sub by fastforce
  qed
qed

lemma subnode_pages: "subnode m x \<Longrightarrow> 0 < m \<Longrightarrow> dep x \<le> L \<Longrightarrow> pages_of L x \<subseteq> pages_of L m"
proof (induction x rule: less_induct)
  case (less x)
  show ?case
  proof (cases "x = m")
    case False
    then have h: "subnode m (x div 2)" using under_cases less.prems(1) by blast
    then have "0 < x div 2" using under_pos less.prems(2) by blast
    then have x: "2 \<le> x" "x div 2 < x" "dep (x div 2) \<le> L" using less.prems(3) dep_parent[of x] by auto
    show ?thesis
      using pages_of_parent[OF x(1) less.prems(3)] less.IH[OF x(2) h less.prems(2) x(3)] by blast
  qed simp
qed

section \<open>Allocation\<close>

lemma no_free_block:
  assumes wf: "wf_tree t L" and none: "dfs n 1 t = None" and y: "0 < y" "dep y = n" "n \<le> L"
  shows "\<exists>a\<in>allocated t. pages_of L a \<inter> pages_of L y \<noteq> {}"
proof -
  let ?x = "lo L y"
  have yp: "?x \<in> pages_of L y" by (rule lo_in_pages)
  then have "?x < 2 ^ L" using pages_of_bound[of y L] y by auto
  then obtain m where m: "0 < m" "live t m" "\<not> inner (nd t m)" "?x \<in> pages_of L m" "dep m \<le> L"
    using live_leaf[OF wf] by blast
  have "nd t m \<in> {NODE_UNUSED, NODE_USED, NODE_SPLIT, NODE_FULL}"
    using wf m by (auto simp: wf_tree_def node_ok_def)
  then have "nd t m = NODE_USED \<or> nd t m = NODE_UNUSED" using m(3) by auto
  then show ?thesis
  proof
    assume "nd t m = NODE_USED"
    then have "m \<in> allocated t" using m by (simp add: allocated_def)
    then show ?thesis using m(4) yp by blast
  next
    assume u: "nd t m = NODE_UNUSED"
    have "subnode 1 m"
      unfolding subnode_def using dep_div_pow[of "dep m" m] m(1) dep_bounds[OF m(1)]
      by (intro exI[of _ "dep m"]) (simp add: div_nat_eqI)
    then have lt: "n < dep m" using dfs_none[OF wf_tree_but[OF wf] _ _ none _ m(2) u] by simp
    then have eq: "y = m div 2 ^ (dep m - n)"
      using pages_meet_ancestor[of y m L ?x] y m yp by simp
    then have in_y: "inner (nd t y)" "live t y"
      using live_above[OF m(2), of "dep m - n"] lt y(1) by auto
    then obtain a where a: "a \<in> allocated t" "subnode y a" using inner_has_allocated[OF wf y(1)] by blast
    then have "dep a \<le> L" using live_depth[OF wf_tree_but[OF wf]] by (auto simp: allocated_def)
    then have "pages_of L a \<subseteq> pages_of L y" using subnode_pages a y(1) by blast
    then show ?thesis using a(1) lo_in_pages[of L a] by blast
  qed
qed

lemma dfs_alloc:
  assumes wf: "wf_tree t L" and n: "n \<le> L" and dfs: "dfs n 1 t = Some (m, t')"
  defines "t'' \<equiv> uu_mark_parent (upd t' m NODE_USED) (int m - 1)"
  shows "wf_tree t'' L" "allocated t'' = insert m (allocated t)" "m \<notin> allocated t" "dep m = n" "0 < m"
proof -
  have spec: "dep m = n" "0 < m" "live t' m" "nd t' m = NODE_UNUSED" "wf_but 0 (m div 2) t' L"
    "allocated t' = allocated t"
    using dfs_spec[OF wf_tree_but[OF wf], of 1 n m t'] dfs n by auto
  let ?t = "upd t' m NODE_USED"
  have lv: "live ?t x \<longleftrightarrow> live t' x" for x
    using spec by (intro live_cong) auto
  have wf': "wf_but 0 (m div 2) ?t L"
    unfolding wf_but_def
  proof (intro allI impI conjI)
    fix x assume x: "0 < x" "live ?t x"
    then have ok: "node_ok t' L x" "full_ok t' x" "x \<noteq> m div 2 \<Longrightarrow> split_ok t' x"
      using spec(5) lv by (auto simp: wf_but_def)
    show "node_ok ?t L x" using ok spec x by (auto simp: node_ok_def)
    show "full_ok ?t x" using ok(2) spec x by (auto simp: full_ok_def)
    show "split_ok ?t x" if h: "x \<noteq> m div 2"
    proof -
      have "2 * x \<noteq> m" "Suc (2 * x) \<noteq> m" using h by auto
      then show ?thesis using ok(3)[OF h] spec x by (auto simp: split_ok_def)
    qed
  qed
  have "nd ?t (m div 2) = NODE_SPLIT" if "2 \<le> m"
    using split_above_split[OF spec(5,3) that] spec that by simp
  then have mark: "wf_tree t'' L \<and> promoted ?t t''"
    unfolding t''_def using wf' spec lv by (intro mark_parent_spec) auto
  then show "wf_tree t'' L" by simp
  have "allocated ?t = insert m (allocated t')"
    using spec lv by (auto simp: allocated_def)
  then show "allocated t'' = insert m (allocated t)"
    using promoted_allocated[of ?t t''] mark spec(6) by simp
  have "m \<notin> allocated t'" using spec(4) by (simp add: allocated_def)
  then show "m \<notin> allocated t" by (simp only: spec(6) not_False_eq_True)
  show "dep m = n" "0 < m" using spec by auto
qed

text \<open>
  \<^verbatim>\<open>buddy_alloc\<close> returns, with fuel for every node of the tree, and its result is one of
  three: the request exceeds the buddy (-2), every block of the requested size meets an
  allocated one (-1), or the offset of a block that was free and is allocated now.
\<close>

lemma buddy_alloc_cases:
  assumes wf: "wf_tree (tree b) (blevel b)" and s: "0 \<le> s" "s \<le> 2 ^ 30"
    and fuel: "2 * 2 ^ blevel b \<le> fuel"
  obtains
    (Too_Large) "2 ^ blevel b < alloc_size s" "buddy_alloc fuel b s = Some (b, -2)"
  | (No_Block) k where "alloc_size s = 2 ^ k" "k \<le> blevel b" "buddy_alloc fuel b s = Some (b, -1)"
      "\<And>y. 0 < y \<Longrightarrow> dep y = blevel b - k \<Longrightarrow>
        \<exists>a\<in>allocated (tree b). pages_of (blevel b) a \<inter> pages_of (blevel b) y \<noteq> {}"
  | (Block) k m t where "alloc_size s = 2 ^ k" "k \<le> blevel b"
      "buddy_alloc fuel b s = Some (b\<lparr>tree := t\<rparr>, int (lo (blevel b) m))"
      "wf_tree t (blevel b)" "allocated t = insert m (allocated (tree b))" "m \<notin> allocated (tree b)"
      "dep m = blevel b - k" "0 < m"
proof -
  let ?L = "blevel b"
  obtain k where k: "alloc_size s = 2 ^ k" using alloc_size_pow[OF s] by blast
  show ?thesis
  proof (cases "k \<le> ?L")
    case False
    then show ?thesis using Too_Large k by (simp add: buddy_alloc_def)
  next
    case True
    note root = alloc_loop_root[OF True fuel, of "tree b"]
    have eq: "buddy_alloc fuel b s = map_option (\<lambda>(t, r). (b\<lparr>tree := t\<rparr>, r))
        (alloc_loop fuel ?L (2 ^ k) (tree b, 0, 0, 2 ^ ?L))"
      using True k by (simp add: buddy_alloc_def)
    show ?thesis
    proof (cases "dfs (?L - k) 1 (tree b)")
      case None
      then show ?thesis
        using No_Block[OF k True] eq root no_free_block[OF wf None] by simp
    next
      case (Some r)
      then obtain m t' where r: "dfs (?L - k) 1 (tree b) = Some (m, t')" by (cases r) auto
      show ?thesis
        using Block[OF k True, of "uu_mark_parent (upd t' m NODE_USED) (int m - 1)" m]
          dfs_alloc[OF wf _ r] eq root r by (simp add: found_def)
    qed
  qed
qed

section \<open>Release and size\<close>

text \<open>The descent to a page ends at the live node whose block contains it.\<close>

lemma lo_children:
  assumes "0 < m" "dep m < L"
  shows "lo L (2 * m) = lo L m" "lo L (Suc (2 * m)) = lo L m + 2 ^ (L - dep m) div 2"
proof -
  obtain e where e: "L = Suc (dep m) + e" using assms(2) less_imp_Suc_add by auto
  define D where "D = (2::nat) ^ dep m"
  obtain k where k: "m = D + k" using dep_bounds[OF assms(1)] le_Suc_ex unfolding D_def by blast
  have km: "m - D = k" "2 * m - 2 * D = 2 * k" "Suc (2 * m) - 2 * D = Suc (2 * k)"
    using k by linarith+
  have "lo L m = (m - D) * 2 ^ Suc e" by (simp add: lo_def e D_def)
  then have "lo L m = k * (2 * 2 ^ e)" unfolding km by simp
  moreover have "lo L (2 * m) = (2 * m - 2 * D) * 2 ^ e" "lo L (Suc (2 * m)) = (Suc (2 * m) - 2 * D) * 2 ^ e"
    using assms(1) by (simp_all add: lo_def e D_def)
  then have "lo L (2 * m) = (2 * k) * 2 ^ e" "lo L (Suc (2 * m)) = Suc (2 * k) * 2 ^ e"
    unfolding km by simp_all
  ultimately show "lo L (2 * m) = lo L m" "lo L (Suc (2 * m)) = lo L m + 2 ^ (L - dep m) div 2"
    by (simp_all add: e)
qed

lemma descent_step:
  assumes wf: "wf_tree t L" and m: "0 < m" "live t m" "inner (nd t m)" and x: "x \<in> pages_of L m"
  defines "c \<equiv> if int x < int (lo L m) + 2 ^ (L - dep m) div 2 then 2 * m else Suc (2 * m)"
  shows "x \<in> pages_of L c" "0 < c" "live t c" "dep c = Suc (dep m)" "dep m < L"
    "int (lo L c) = (if c = 2 * m then int (lo L m) else int (lo L m) + 2 ^ (L - dep m) div 2)"
    "(2::int) ^ (L - dep m) div 2 = 2 ^ (L - dep c)"
proof -
  show d: "dep m < L" using wf m by (auto simp: wf_tree_def node_ok_def)
  then obtain e where e: "L = Suc (dep m) + e" using less_imp_Suc_add by auto
  show "0 < c" "live t c" and dc: "dep c = Suc (dep m)" using m by (auto simp: c_def)
  show half: "(2::int) ^ (L - dep m) div 2 = 2 ^ (L - dep c)" using dc by (simp add: e)
  have h: "(2::int) ^ (L - dep m) div 2 = int (2 ^ (L - dep m) div 2)" by (simp add: e)
  have n: "(2::nat) ^ (L - dep m) div 2 = 2 ^ e" "L - dep c = e" "L - dep m = Suc e" using dc by (simp_all add: e)
  have "c = (if x < lo L m + 2 ^ e then 2 * m else Suc (2 * m))"
    unfolding c_def h n(1) by (simp only: of_nat_add[symmetric] of_nat_less_iff)
  then show "x \<in> pages_of L c"
    using x lo_children[OF m(1) d] unfolding pages_of_def n by (auto split: if_splits)
  show "int (lo L c) = (if c = 2 * m then int (lo L m) else int (lo L m) + 2 ^ (L - dep m) div 2)"
    using lo_children[OF m(1) d] h by (auto simp: c_def)
qed

lemma page_ends:
  assumes wf: "wf_tree t L" and m: "0 < m" "live t m" and x: "x \<in> pages_of L m"
  shows "\<exists>a. 0 < a \<and> live t a \<and> \<not> inner (nd t a) \<and> x \<in> pages_of L a
    \<and> size_loop t (int x) (int (lo L m)) (2 ^ (L - dep m)) (int m - 1)
      = Some (if nd t a = NODE_USED then 2 ^ (L - dep a) else EOF)
    \<and> free_loop t (int x) (int (lo L m)) (2 ^ (L - dep m)) (int m - 1)
      = Some (if nd t a = NODE_USED \<and> x = lo L a then Done (uu_combine t (int a - 1)) else Panic)"
  using m x
proof (induction "L - dep m" arbitrary: m rule: less_induct)
  case less
  note prems = less.prems
  have kind: "nd t m \<in> {NODE_UNUSED, NODE_USED, NODE_SPLIT, NODE_FULL}"
    using wf prems by (auto simp: wf_tree_def node_ok_def)
  show ?case
  proof (cases "inner (nd t m)")
    case False
    then have "nd t m = NODE_UNUSED \<or> nd t m = NODE_USED" using kind by auto
    then show ?thesis
      using prems False
      by (intro exI[of _ m]) (auto simp: size_loop.simps[of t] free_loop.simps[of t] node_nd)
  next
    case True
    define c where "c = (if int x < int (lo L m) + 2 ^ (L - dep m) div 2 then 2 * m else Suc (2 * m))"
    note step = descent_step[OF wf prems(1,2) True prems(3), folded c_def]
    have i: "(int m - 1) * 2 + 1 = int (2 * m) - 1" "(int m - 1) * 2 + 2 = int (Suc (2 * m)) - 1" by simp_all
    have nv: "nd t m \<noteq> NODE_USED" "nd t m \<noteq> NODE_UNUSED" using True by (auto simp: inner_def)
    let ?H = "(2::int) ^ (L - dep m) div 2"
    have down: "(if int x < int (lo L m) + ?H then f (int (lo L m)) ?H (int (2 * m) - 1)
          else f (int (lo L m) + ?H) ?H (int (Suc (2 * m)) - 1)) = f (int (lo L c)) (2 ^ (L - dep c)) (int c - 1)"
      for f :: "int \<Rightarrow> int \<Rightarrow> int \<Rightarrow> 'z"
    proof (cases "int x < int (lo L m) + ?H")
      case True
      then have "c = 2 * m" by (simp add: c_def)
      then show ?thesis using True step(6,7) by (simp only: if_True simp_thms)
    next
      case False
      then have "c = Suc (2 * m)" by (simp add: c_def)
      moreover from this have "c \<noteq> 2 * m" by simp
      ultimately show ?thesis using False step(6,7) by (simp only: if_False)
    qed
    have "size_loop t (int x) (int (lo L m)) (2 ^ (L - dep m)) (int m - 1) =
        size_loop t (int x) (int (lo L c)) (2 ^ (L - dep c)) (int c - 1)"
      by (subst size_loop.simps) (simp only: node_nd nv i Let_def if_False down)
    moreover have "free_loop t (int x) (int (lo L m)) (2 ^ (L - dep m)) (int m - 1) =
        free_loop t (int x) (int (lo L c)) (2 ^ (L - dep c)) (int c - 1)"
      by (subst free_loop.simps) (simp only: node_nd nv i Let_def if_False down)
    moreover have "L - dep c < L - dep m" using step(4,5) by simp
    ultimately show ?thesis using less.hyps[of c] step(1-3) by simp
  qed
qed

lemma allocated_below_self:
  assumes "a \<in> allocated t"
  shows "{x \<in> allocated t. subnode a x} = {a}"
proof -
  have "x = a" if "x \<in> allocated t" "subnode a x" for x
    using that assms live_under[of t x a] by (cases "x = a") (auto simp: allocated_def)
  then show ?thesis using assms by auto
qed

text \<open>A page of a buddy: the block it is in, if any, and what the two calls do with it.\<close>

lemma buddy_page_cases:
  assumes wf: "wf_tree (tree b) (blevel b)" and x: "x < 2 ^ blevel b"
  obtains
    (In_Block) a where "a \<in> allocated (tree b)" "x \<in> pages_of (blevel b) a"
      "buddy_size b (int x) = Some (2 ^ (blevel b - dep a))"
      "x \<noteq> lo (blevel b) a \<Longrightarrow> buddy_free b (int x) = Some Panic"
      "x = lo (blevel b) a \<Longrightarrow> \<exists>t. buddy_free b (int x) = Some (Done (b\<lparr>tree := t\<rparr>)) \<and>
         wf_tree t (blevel b) \<and> allocated t = allocated (tree b) - {a}"
  | (Free_Page) "\<And>a. a \<in> allocated (tree b) \<Longrightarrow> x \<notin> pages_of (blevel b) a"
      "buddy_size b (int x) = Some EOF" "buddy_free b (int x) = Some Panic"
proof -
  let ?L = "blevel b" and ?t = "tree b"
  have "x \<in> pages_of ?L 1" using x by (simp add: pages_of_def lo_def)
  from page_ends[OF wf _ _ this] obtain a where a: "0 < a" "live ?t a" "\<not> inner (nd ?t a)" "x \<in> pages_of ?L a"
    "size_loop ?t (int x) 0 (2 ^ ?L) 0 = Some (if nd ?t a = NODE_USED then 2 ^ (?L - dep a) else EOF)"
    "free_loop ?t (int x) 0 (2 ^ ?L) 0 =
       Some (if nd ?t a = NODE_USED \<and> x = lo ?L a then Done (uu_combine ?t (int a - 1)) else Panic)"
    by (auto simp: lo_def)
  have lt: "\<not> 2 ^ ?L \<le> int x" using x by (metis of_nat_less_iff of_nat_numeral of_nat_power not_le)
  have eqs: "buddy_size b (int x) = size_loop ?t (int x) 0 (2 ^ ?L) 0"
    "buddy_free b (int x) = map_option (\<lambda>r. case r of Panic \<Rightarrow> Panic | Done t \<Rightarrow> Done (b\<lparr>tree := t\<rparr>))
       (free_loop ?t (int x) 0 (2 ^ ?L) 0)"
    using lt by (simp_all add: buddy_size_def buddy_free_def)
  show ?thesis
  proof (cases "nd ?t a = NODE_USED")
    case True
    then have al: "a \<in> allocated ?t" using a by (simp add: allocated_def)
    have "wf_tree (uu_combine ?t (int a - 1)) ?L \<and> allocated (uu_combine ?t (int a - 1)) = allocated ?t - {a}"
      using combine_spec[OF wf a(1,2) _ allocated_below_self[OF al]] True by simp
    then have "x = lo ?L a \<Longrightarrow> \<exists>t. buddy_free b (int x) = Some (Done (b\<lparr>tree := t\<rparr>)) \<and>
         wf_tree t ?L \<and> allocated t = allocated ?t - {a}"
      using a(6) eqs(2) True by auto
    then show ?thesis using In_Block[OF al a(4)] a(5,6) eqs True by simp
  next
    case False
    have "x \<notin> pages_of ?L a'" if "a' \<in> allocated ?t" for a'
    proof
      assume x': "x \<in> pages_of ?L a'"
      have pos: "0 < a'" "live ?t a'" "nd ?t a' = NODE_USED" using that by (auto simp: allocated_def)
      have d: "dep a \<le> ?L" "dep a' \<le> ?L" using live_depth[OF wf_tree_but[OF wf]] a pos by blast+
      have "a = a'"
      proof (cases "dep a \<le> dep a'")
        case True
        then have eq: "a = a' div 2 ^ (dep a' - dep a)" using pages_meet_ancestor a(1,4) pos(1) x' d by blast
        show ?thesis
        proof (rule ccontr)
          assume "a \<noteq> a'"
          then have "0 < dep a' - dep a" using eq by (metis div_by_1 gr0I power_0)
          then show False using live_above[OF pos(2)] eq a(1,3) by metis
        qed
      next
        case F: False
        then have eq: "a' = a div 2 ^ (dep a - dep a')" using pages_meet_ancestor[of a' a] a(1,4) pos(1) x' d by simp
        then have "inner (nd ?t a')" using live_above[OF a(2), of "dep a - dep a'"] F pos(1) by simp
        then show ?thesis using pos(3) by simp
      qed
      then show False using pos(3) False by simp
    qed
    then show ?thesis using Free_Page a(5,6) eqs False by simp
  qed
qed

text \<open>A buddy of level \<open>L\<close> as \<^verbatim>\<open>buddy_init\<close> leaves it: well-formed and empty.\<close>

lemma buddy_init_empty:
  "wf_tree (tree (buddy_init b L)) L" "allocated (tree (buddy_init b L)) = {}"
  "blevel (buddy_init b L) = L"
proof -
  let ?t = "tree (buddy_init b L)"
  have "0 < 2 ^ L * 2 - (1::nat)" using one_le_power[of "2::nat" L] by linarith
  then have u: "nd ?t 1 = NODE_UNUSED" by (simp add: buddy_init_def nd_def Let_def)
  have only: "m = 1" if "0 < m" "live ?t m" for m
  proof (rule ccontr)
    assume "m \<noteq> 1"
    have "m div 2 ^ dep m = 1" "0 < dep m"
      using \<open>m \<noteq> 1\<close> that(1) dep_bounds[OF that(1)] dep_parent[of m] by (auto simp: div_nat_eqI)
    then show False using live_above[OF that(2), of "dep m"] u by simp
  qed
  have "node_ok ?t L 1" "full_ok ?t 1" "split_ok ?t 1"
    unfolding node_ok_def full_ok_def split_ok_def u by simp_all
  then show "wf_tree ?t L" unfolding wf_tree_def using only by blast
  have "1 \<notin> allocated ?t" unfolding allocated_def using u by simp
  moreover have "allocated ?t \<subseteq> {1}" unfolding allocated_def using only by blast
  ultimately show "allocated ?t = {}" by blast
  show "blevel (buddy_init b L) = L" by (simp add: buddy_init_def Let_def)
qed

section \<open>The contract of an allocator of blocks\<close>

text \<open>
  An allocator hands out blocks of at least the requested length that meet no block handed
  out before, and takes a block back by its start.
\<close>

abbreviation span :: "nat \<times> nat \<Rightarrow> nat set" where
  "span b \<equiv> {fst b ..< fst b + snd b}"

locale block_source =
  fixes inv :: "'s \<Rightarrow> bool"
    and blocks :: "'s \<Rightarrow> (nat \<times> nat) set"
    and alloc :: "'s \<Rightarrow> nat \<Rightarrow> ('s \<times> nat) option"
  assumes blocks_disjoint:
      "inv s \<Longrightarrow> b \<in> blocks s \<Longrightarrow> b' \<in> blocks s \<Longrightarrow> b \<noteq> b' \<Longrightarrow> span b \<inter> span b' = {}"
    and blocks_nonempty: "inv s \<Longrightarrow> b \<in> blocks s \<Longrightarrow> 0 < snd b"
    and alloc_block: "inv s \<Longrightarrow> alloc s n = Some (s', p) \<Longrightarrow>
      inv s' \<and> (\<exists>len\<ge>n. (p, len) \<notin> blocks s \<and> blocks s' = insert (p, len) (blocks s))"
begin

lemma starts_unique: "inv s \<Longrightarrow> (p, len) \<in> blocks s \<Longrightarrow> (p, len') \<in> blocks s \<Longrightarrow> len = len'"
proof (rule ccontr)
  assume a: "inv s" "(p, len) \<in> blocks s" "(p, len') \<in> blocks s" "len \<noteq> len'"
  then have "span (p, len) \<inter> span (p, len') = {}" by (intro blocks_disjoint) auto
  moreover have "p \<in> span (p, len)" "p \<in> span (p, len')" using blocks_nonempty[OF a(1)] a(2,3) by auto
  ultimately show False by blast
qed

text \<open>What is handed out meets nothing that was handed out before.\<close>

lemma alloc_fresh:
  assumes "inv s" "alloc s n = Some (s', p)" "b \<in> blocks s"
  shows "{p ..< p + n} \<inter> span b = {}"
proof -
  obtain len where len: "inv s'" "n \<le> len" "(p, len) \<notin> blocks s" "blocks s' = insert (p, len) (blocks s)"
    using alloc_block[OF assms(1,2)] by blast
  have "span (p, len) \<inter> span b = {}" using len assms(3) by (intro blocks_disjoint[OF len(1)]) auto
  then show ?thesis using len(2) by fastforce
qed

lemma alloc_twice_disjoint:
  assumes "inv s" "alloc s n = Some (s1, p)" "alloc s1 n' = Some (s2, q)" "0 < n" "0 < n'"
  shows "{p ..< p + n} \<inter> {q ..< q + n'} = {}"
proof -
  obtain l1 where l1: "inv s1" "n \<le> l1" "blocks s1 = insert (p, l1) (blocks s)"
    using alloc_block[OF assms(1,2)] by blast
  have "{q ..< q + n'} \<inter> span (p, l1) = {}" using l1 by (intro alloc_fresh[OF l1(1) assms(3)]) simp
  then show ?thesis using l1(2) by fastforce
qed

end

text \<open>An allocator that also takes blocks back, by their start.\<close>

locale block_allocator = block_source +
  fixes release :: "'a \<Rightarrow> nat \<Rightarrow> 'a option"
  assumes release_block: "inv s \<Longrightarrow> (p, len) \<in> blocks s \<Longrightarrow>
      \<exists>s'. release s p = Some s' \<and> inv s' \<and> blocks s' = blocks s - {(p, len)}"
begin

lemma alloc_release:
  assumes "inv s" "alloc s n = Some (s', p)"
  obtains s'' where "release s' p = Some s''" "inv s''" "blocks s'' = blocks s"
proof -
  obtain len where len: "inv s'" "(p, len) \<notin> blocks s" "blocks s' = insert (p, len) (blocks s)"
    using alloc_block[OF assms] by blast
  then obtain s'' where "release s' p = Some s''" "inv s''" "blocks s'' = blocks s' - {(p, len)}"
    using release_block[of s' p len] by auto
  then show ?thesis using that len by auto
qed

end

definition buddy_blocks :: "buddy \<Rightarrow> (nat \<times> nat) set" where
  "buddy_blocks b = (\<lambda>a. (lo (blevel b) a, 2 ^ (blevel b - dep a))) ` allocated (tree b)"

definition buddy_wf :: "buddy \<Rightarrow> bool" where
  "buddy_wf b \<longleftrightarrow> wf_tree (tree b) (blevel b) \<and> blevel b \<le> 30"

definition buddy_get :: "buddy \<Rightarrow> nat \<Rightarrow> (buddy \<times> nat) option" where
  "buddy_get b n =
     (if 2 ^ 30 < n then None
      else case buddy_alloc (2 * 2 ^ blevel b) b (int n) of
        Some (b', r) \<Rightarrow> if 0 \<le> r then Some (b', nat r) else None
      | None \<Rightarrow> None)"

definition buddy_put :: "buddy \<Rightarrow> nat \<Rightarrow> buddy option" where
  "buddy_put b x = (case buddy_free b (int x) of Some (Done b') \<Rightarrow> Some b' | _ \<Rightarrow> None)"

lemma buddy_get_block:
  assumes "buddy_wf b" "buddy_get b n = Some (b', p)"
  obtains m where "0 < m" "m \<notin> allocated (tree b)" "allocated (tree b') = insert m (allocated (tree b))"
    "p = lo (blevel b) m" "n \<le> 2 ^ (blevel b - dep m)" "buddy_wf b'" "blevel b' = blevel b"
proof -
  have n: "0 \<le> int n" "int n \<le> 2 ^ 30" using assms(2) by (auto simp: buddy_get_def split: if_splits)
  have wf: "wf_tree (tree b) (blevel b)" using assms(1) by (simp add: buddy_wf_def)
  have fuel: "2 * 2 ^ blevel b \<le> (2 * 2 ^ blevel b :: nat)" by simp
  from wf n fuel show ?thesis
  proof (cases rule: buddy_alloc_cases)
    case (Block k m t)
    have "int n \<le> 2 ^ k" using alloc_size_pow[OF n] Block(1) by (metis power_inject_exp one_less_numeral_iff semiring_norm(76))
    then have "n \<le> 2 ^ k" by (metis of_nat_le_iff of_nat_numeral of_nat_power)
    moreover have "blevel b - dep m = k" using Block(2,7) by simp
    moreover have "b' = b\<lparr>tree := t\<rparr>" "p = lo (blevel b) m"
      using assms(2) Block(3) by (auto simp: buddy_get_def split: if_splits)
    ultimately show ?thesis using that[of m] Block assms(1) by (simp add: buddy_wf_def)
  qed (use assms(2) in \<open>auto simp: buddy_get_def split: if_splits\<close>)
qed

interpretation bd: block_allocator buddy_wf buddy_blocks buddy_get buddy_put
proof
  have span: "span (lo L a, 2 ^ (L - dep a)) = pages_of L a" for L a by (simp add: pages_of_def)
  fix s :: buddy and b b' :: "nat \<times> nat" and n p len :: nat and s' :: buddy
  assume wf: "buddy_wf s"
  then have wt: "wf_tree (tree s) (blevel s)" by (simp add: buddy_wf_def)
  have inj: "a = a'" if "a \<in> allocated (tree s)" "a' \<in> allocated (tree s)" "lo (blevel s) a = lo (blevel s) a'" for a a'
    using allocated_disjoint[OF wt that(1,2)] lo_in_pages[of "blevel s"] that(3) by (metis disjoint_iff)
  show "span b \<inter> span b' = {}" if bs: "b \<in> buddy_blocks s" "b' \<in> buddy_blocks s" "b \<noteq> b'"
  proof -
    obtain a a' where "a \<in> allocated (tree s)" "b = (lo (blevel s) a, 2 ^ (blevel s - dep a))"
      "a' \<in> allocated (tree s)" "b' = (lo (blevel s) a', 2 ^ (blevel s - dep a'))"
      using bs(1,2) by (auto simp: buddy_blocks_def)
    moreover from this have "a \<noteq> a'" using bs(3) by auto
    ultimately show ?thesis using allocated_disjoint[OF wt, of a a'] by (simp only: span) simp
  qed
  show "0 < snd b" if "b \<in> buddy_blocks s" using that by (auto simp: buddy_blocks_def)
  show "buddy_wf s' \<and> (\<exists>len\<ge>n. (p, len) \<notin> buddy_blocks s \<and> buddy_blocks s' = insert (p, len) (buddy_blocks s))"
    if get: "buddy_get s n = Some (s', p)"
  proof -
    obtain m where m: "0 < m" "m \<notin> allocated (tree s)" "allocated (tree s') = insert m (allocated (tree s))"
      "p = lo (blevel s) m" "n \<le> 2 ^ (blevel s - dep m)" "buddy_wf s'" "blevel s' = blevel s"
      using buddy_get_block[OF wf get] by blast
    have wt': "wf_tree (tree s') (blevel s)" using m(6,7) by (simp add: buddy_wf_def)
    have "lo (blevel s) a \<noteq> p" if "a \<in> allocated (tree s)" for a
      using allocated_disjoint[OF wt', of a m] that m lo_in_pages[of "blevel s"] by (metis disjoint_iff insertCI)
    then have "(p, len) \<notin> buddy_blocks s" for len by (auto simp: buddy_blocks_def)
    then show ?thesis using m by (intro conjI exI[of _ "2 ^ (blevel s - dep m)"]) (simp_all add: buddy_blocks_def)
  qed
  show "\<exists>s'. buddy_put s p = Some s' \<and> buddy_wf s' \<and> buddy_blocks s' = buddy_blocks s - {(p, len)}"
    if mem: "(p, len) \<in> buddy_blocks s"
  proof -
    obtain a where a: "a \<in> allocated (tree s)" "p = lo (blevel s) a" "len = 2 ^ (blevel s - dep a)"
      using mem by (auto simp: buddy_blocks_def)
    have ad: "0 < a" "dep a \<le> blevel s" using a(1) live_depth[OF wf_tree_but[OF wt]] by (auto simp: allocated_def)
    have "p < 2 ^ blevel s" using pages_of_bound[OF ad] lo_in_pages[of "blevel s" a] a(2) by auto
    from wt this show ?thesis
    proof (cases rule: buddy_page_cases)
      case (In_Block a')
      have "a' = a" using allocated_disjoint[OF wt In_Block(1) a(1)] In_Block(2) lo_in_pages[of "blevel s" a] a(2) by auto
      then obtain t where t: "buddy_free s (int p) = Some (Done (s\<lparr>tree := t\<rparr>))" "wf_tree t (blevel s)"
        "allocated t = allocated (tree s) - {a}" using In_Block(5) a(2) by auto
      have "buddy_blocks (s\<lparr>tree := t\<rparr>) = buddy_blocks s - {(p, len)}"
        using t(3) a inj by (auto simp: buddy_blocks_def)
      then show ?thesis using t wf by (auto simp: buddy_put_def buddy_wf_def)
    next
      case Free_Page
      then show ?thesis using a lo_in_pages[of "blevel s" a] by auto
    qed
  qed
qed

lemma buddy_block_bound:
  assumes "buddy_wf b" "(p, len) \<in> buddy_blocks b"
  shows "p + len \<le> 2 ^ blevel b" "0 < len"
proof -
  obtain a where a: "a \<in> allocated (tree b)" "p = lo (blevel b) a" "len = 2 ^ (blevel b - dep a)"
    using assms(2) by (auto simp: buddy_blocks_def)
  then have "0 < a" "dep a \<le> blevel b"
    using assms(1) live_depth[OF wf_tree_but] by (auto simp: allocated_def buddy_wf_def)
  then have "pages_of (blevel b) a \<subseteq> {..<2 ^ blevel b}" by (rule pages_of_bound)
  then have sub: "{p ..< p + len} \<subseteq> {..<2 ^ blevel b}" using a(2,3) by (simp add: pages_of_def)
  show "0 < len" using a(3) by simp
  then have "p + len - 1 \<in> {..<2 ^ blevel b}" by (intro subsetD[OF sub]) auto
  then show "p + len \<le> 2 ^ blevel b" using \<open>0 < len\<close> by auto
qed

text \<open>Together the blocks have at most the pages of the buddy.\<close>

lemma buddy_used_le:
  assumes "buddy_wf b"
  shows "(\<Sum>x\<in>buddy_blocks b. snd x) \<le> 2 ^ blevel b" "finite (buddy_blocks b)"
proof -
  have sub: "buddy_blocks b \<subseteq> {..2 ^ blevel b} \<times> {..2 ^ blevel b}"
    using buddy_block_bound(1)[OF assms] by force
  then show fin: "finite (buddy_blocks b)" by (rule finite_subset) simp
  have "(\<Sum>x\<in>buddy_blocks b. snd x) = (\<Sum>x\<in>buddy_blocks b. card (span x))" by simp
  also have "\<dots> = card (\<Union>x\<in>buddy_blocks b. span x)"
    using fin bd.blocks_disjoint[OF assms] by (intro card_UN_disjoint[symmetric]) auto
  also have "\<dots> \<le> card {..<(2::nat) ^ blevel b}"
    using buddy_block_bound(1)[OF assms] by (intro card_mono) force+
  finally show "(\<Sum>x\<in>buddy_blocks b. snd x) \<le> 2 ^ blevel b" by simp
qed

text \<open>A run with the fuel that is always enough.\<close>

definition buddy_run :: "buddy \<Rightarrow> int \<Rightarrow> (buddy \<times> int) option" where
  "buddy_run b s = buddy_alloc (2 * 2 ^ blevel b) b s"

lemma buddy_run_cases:
  assumes "buddy_wf b" "n \<le> 2 ^ 30"
  obtains (Fail) r where "buddy_run b (int n) = Some (b, r)" "r = -1 \<or> r = -2"
  | (Block) b' p where "buddy_run b (int n) = Some (b', int p)" "buddy_get b n = Some (b', p)" "blevel b' = blevel b"
proof -
  have pre: "wf_tree (tree b) (blevel b)" "0 \<le> int n" "int n \<le> 2 ^ 30" "2 * 2 ^ blevel b \<le> (2 * 2 ^ blevel b :: nat)"
    using assms by (simp_all add: buddy_wf_def)
  then show ?thesis
  proof (cases rule: buddy_alloc_cases)
    case (Block k m t)
    then have "buddy_get b n = Some (b\<lparr>tree := t\<rparr>, lo (blevel b) m)" using assms(2) by (simp add: buddy_get_def)
    then show ?thesis using that(2)[of "b\<lparr>tree := t\<rparr>" "lo (blevel b) m"] Block by (simp add: buddy_run_def)
  qed (use that(1) in \<open>auto simp: buddy_run_def\<close>)
qed

end
