(* ===== verification/PageAlloc.thy ===== *)
theory PageAlloc
  imports Buddy_Correct MmuH
begin

text \<open>
  The page allocator of \<^verbatim>\<open>kern/mm/pmm/page_alloc.c\<close> over the buddies: the choice of the
  memory area, \<^verbatim>\<open>page_alloc\<close>, \<^verbatim>\<open>page_free\<close>, \<^verbatim>\<open>page_get_free\<close> and the initialisation. The array
  \<^verbatim>\<open>buddylist\<close> holds pointers, so the buddies live in a store: two entries may be the same
  structure.
\<close>

section \<open>Data\<close>

record PMB =
  BaseAddrLow :: u32
  BaseAddrHigh :: u32
  LengthLow :: u32
  LengthHigh :: u32
  PMBType :: u32

record pages =
  paddr :: u64
  psize :: u64
  pflags :: u32

record area =
  base_addr :: u32
  page_num :: u32
  buddy_num :: u32
  buddylist :: "nat \<Rightarrow> u32"
  buddies :: "u32 \<Rightarrow> buddy"
  mem_phybase :: u64
  mem_size :: u64

section \<open>The memory area\<close>

text \<open>
  The boot loader leaves the number of entries at \<^verbatim>\<open>0x9000\<close> and the entries behind it; \<^verbatim>\<open>tmp\<close>
  is compared as an unsigned number.
\<close>

definition largest_area :: "int \<Rightarrow> (nat \<Rightarrow> PMB) \<Rightarrow> nat \<times> u32" where
  "largest_area num pmb = for_loop 0 (nat num) (\<lambda>i (largest, tmp).
     if PMBType (pmb i) = 1 \<and> tmp < LengthLow (pmb i) then (i, LengthLow (pmb i)) else (largest, tmp)) (0, 0)"

definition get_mem_init :: "int \<Rightarrow> (nat \<Rightarrow> PMB) \<Rightarrow> area \<Rightarrow> area" where
  "get_mem_init num pmb st =
     (let largest = fst (largest_area num pmb)
      in st\<lparr>mem_phybase := ucast (BaseAddrLow (pmb largest)), mem_size := ucast (LengthLow (pmb largest))\<rparr>)"

definition get_mem_physbase :: "int \<Rightarrow> (nat \<Rightarrow> PMB) \<Rightarrow> area \<Rightarrow> u64 \<times> area" where
  "get_mem_physbase num pmb st =
     (let st = (if mem_phybase st = 0 then get_mem_init num pmb st else st) in (mem_phybase st, st))"

definition get_mem_size :: "int \<Rightarrow> (nat \<Rightarrow> PMB) \<Rightarrow> area \<Rightarrow> u64 \<times> area" where
  "get_mem_size num pmb st =
     (let st = (if mem_size st = 0 then get_mem_init num pmb st else st) in (mem_size st, st))"

text \<open>
  \<open>fresh\<close> stands for the contents of the array that \<^verbatim>\<open>kmalloc\<close> returns: no store to the
  entries follows. \<open>kend\<close> is the address of the symbol \<^verbatim>\<open>_end\<close>.
\<close>

definition page_allocator_init :: "int \<Rightarrow> (nat \<Rightarrow> PMB) \<Rightarrow> u32 \<Rightarrow> (nat \<Rightarrow> u32) \<Rightarrow> area \<Rightarrow> area" where
  "page_allocator_init num pmb kend fresh st =
     (let st = get_mem_init num pmb st;
          (physbase, st) = get_mem_physbase num pmb st;
          st = st\<lparr>base_addr := ucast physbase\<rparr>;
          (msize, st) = get_mem_size num pmb st;
          st = st\<lparr>page_num := ucast (msize div 4096)\<rparr>;
          end = premap_addr kend;
          st = (if base_addr st < end
                then let st = st\<lparr>base_addr := PGROUNDUP end\<rparr>
                     in st\<lparr>page_num := page_num st - (base_addr st - end) div 4096\<rparr>
                else st)
      in st\<lparr>buddylist := fresh, buddy_num := 0\<rparr>)"

section \<open>Allocation\<close>

text \<open>
  \<^verbatim>\<open>buddy_init\<close> on a pointer: the level is stored through it before the test for
  \<^verbatim>\<open>NULL\<close>, after which the rest is done on a new structure that nothing refers to.
\<close>

definition buddy_init_ptr :: "u32 \<Rightarrow> (u32 \<Rightarrow> buddy) \<Rightarrow> u32 \<Rightarrow> nat \<Rightarrow> (u32 \<Rightarrow> buddy)" where
  "buddy_init_ptr kmalloc h self level =
     (let sz = 2 ^ level;
          h = h(self := (h self)\<lparr>blevel := level\<rparr>);
          self = (if self = 0 then kmalloc else self)
      in h(self := (h self)\<lparr>tree := (\<lambda>i. if i < sz * 2 - 1 then NODE_UNUSED else tree (h self) i)\<rparr>))"

definition pages_needed :: "u64 \<Rightarrow> int" where
  "pages_needed sz = sint (ucast (drop_bit 12 (sz + ucast PGSIZE - 1)) :: u32)"

text \<open>The loop over the buddies in use, from \<open>i\<close> on; \<open>offset\<close> is the last answer.\<close>

primrec try_buddies :: "nat \<Rightarrow> nat \<Rightarrow> int \<Rightarrow> int \<Rightarrow> area \<Rightarrow> (area \<times> nat \<times> int) option" where
  "try_buddies 0 i s offset st = Some (st, i, offset)"
| "try_buddies (Suc n) i s offset st =
     (let p = buddylist st i
      in case buddy_run (buddies st p) s of
           None \<Rightarrow> None
         | Some (b, offset) \<Rightarrow>
             let st = st\<lparr>buddies := (buddies st)(p := b)\<rparr>
             in if 0 \<le> offset then Some (st, i, offset) else try_buddies n (Suc i) s offset st)"

definition page_alloc_end :: "area \<Rightarrow> pages \<Rightarrow> nat \<Rightarrow> int \<Rightarrow> int \<Rightarrow> area \<times> pages \<times> int" where
  "page_alloc_end st pgs i offset s =
     (if offset = -2 \<or> offset = -1 then (st, pgs, EOF)
      else (st\<lparr>page_num := page_num st - of_int s\<rparr>,
            pgs\<lparr>paddr := ucast (base_addr st + push_bit 22 (of_nat i) + push_bit 12 (of_int offset))\<rparr>, 0))"

text \<open>\<^verbatim>\<open>buddy_init(area.buddylist[area.buddy_num++], 10)\<close>\<close>

definition area_grow :: "u32 \<Rightarrow> area \<Rightarrow> area" where
  "area_grow k st = st\<lparr>buddy_num := buddy_num st + 1,
     buddies := buddy_init_ptr k (buddies st) (buddylist st (unat (buddy_num st))) 10\<rparr>"

definition page_alloc :: "u32 \<Rightarrow> area \<Rightarrow> pages \<Rightarrow> (area \<times> pages \<times> int) option" where
  "page_alloc kmalloc st pgs =
     (let s = pages_needed (psize pgs)
      in case try_buddies (unat (buddy_num st)) 0 s (-1) st of
           None \<Rightarrow> None
         | Some (st, i, offset) \<Rightarrow>
             if offset = -1
             then if buddy_num st \<ge> page_num st div 1024 then Some (st, pgs, EOF)
                  else let st = area_grow kmalloc st;
                           q = buddylist st i
                       in case buddy_run (buddies st q) s of
                            None \<Rightarrow> None
                          | Some (b, offset) \<Rightarrow>
                              Some (page_alloc_end (st\<lparr>buddies := (buddies st)(q := b)\<rparr>) pgs i offset s)
             else Some (page_alloc_end st pgs i offset s))"

section \<open>Release\<close>

text \<open>
  The buddy is asked for the size of the block and not changed; the number of free
  pages grows by the bytes of the block.
\<close>

definition page_free :: "area \<Rightarrow> pages \<Rightarrow> (area \<times> pages) option" where
  "page_free st pgs =
     (let d = paddr pgs - ucast (base_addr st);
          buddyN = unat (ucast (drop_bit 22 d) :: u32);
          offset = int (unat (drop_bit 12 d) mod 1024)
      in case buddy_size (buddies st (buddylist st buddyN)) offset of
           None \<Rightarrow> None
         | Some n \<Rightarrow>
             let pgs = pgs\<lparr>psize := of_int (n * 2 ^ 12)\<rparr>
             in Some (if 0 < psize pgs then st\<lparr>page_num := page_num st + ucast (psize pgs)\<rparr> else st, pgs))"

definition page_get_free :: "area \<Rightarrow> u64" where
  "page_get_free st = ucast (push_bit 12 (page_num st))"

definition page_allocator_move :: "area \<Rightarrow> int \<times> area" where
  "page_allocator_move st = (0, st)"

function get_level_loop :: "u32 \<Rightarrow> nat \<Rightarrow> nat" where
  "get_level_loop pgnum i = (if drop_bit i pgnum \<noteq> 0 then get_level_loop pgnum (Suc i) else i)"
  by pat_completeness auto

termination get_level_loop
  by (relation "measure (\<lambda>(pgnum, i). 32 - i)") (auto simp: not_le[symmetric] drop_bit_word_beyond)

definition get_level :: "u32 \<Rightarrow> int" where
  "get_level pgnum =
     (let i = int (get_level_loop pgnum 0) in if is_pow_of_2 pgnum then i - 2 else i)"

section \<open>The chosen area\<close>

lemma largest_area_spec:
  assumes "largest_area num pmb = (l, t)"
  shows "(\<forall>i<nat num. PMBType (pmb i) = 1 \<longrightarrow> LengthLow (pmb i) \<le> t) \<and>
    (l = 0 \<and> t = 0 \<or> l < nat num \<and> PMBType (pmb l) = 1 \<and> LengthLow (pmb l) = t)"
proof -
  let ?P = "\<lambda>k (l, t). (\<forall>i<k. PMBType (pmb i) = 1 \<longrightarrow> LengthLow (pmb i) \<le> t) \<and>
    (l = 0 \<and> t = 0 \<or> l < k \<and> PMBType (pmb l) = 1 \<and> LengthLow (pmb l) = t)"
  have "?P (nat num) (largest_area num pmb)"
    unfolding largest_area_def
  proof (rule for_loop_inv[where P = ?P])
    fix k s
    assume "?P k s"
    then show "?P (Suc k) ((\<lambda>(largest, tmp). if PMBType (pmb k) = 1 \<and> tmp < LengthLow (pmb k)
        then (k, LengthLow (pmb k)) else (largest, tmp)) s)"
      by (cases s) (auto simp: less_Suc_eq not_less)
  qed auto
  then show ?thesis using assms by simp
qed

text \<open>
  Rounding up never passes a whole page, so \<^verbatim>\<open>page_allocator_init\<close> subtracts nothing for the
  pages below the end of the kernel, which stay counted as free.
\<close>

lemma round_up_distance: "(PGROUNDUP e - e) div 4096 = 0"
proof -
  define w where "w = e + PGSIZE - 1"
  have "PGROUNDUP e = w AND NOT (mask 12)" by (simp only: PGROUNDUP_eq PGROUNDDOWN_eq w_def)
  also have "\<dots> = w - (w AND mask 12)" by (rule and_not_mask_minus)
  finally have "PGROUNDUP e - e = 4095 - (w AND mask 12)" by (simp add: w_def PGSIZE_def)
  moreover have le: "unat (w AND mask 12) \<le> 4095"
    using unat_and_mask[of w 12] mod_less_divisor[of "2 ^ 12" "unat w"] by simp
  ultimately have "unat (PGROUNDUP e - e) = 4095 - unat (w AND mask 12)" by (simp add: unat_minus_le)
  then have "unat ((PGROUNDUP e - e) div 4096) = 0" by (simp add: unat_div)
  then show ?thesis by (simp add: unsigned_eq_0_iff)
qed

lemma page_num_after_init:
  "page_num (page_allocator_init num pmb kend fresh st) = LengthLow (pmb (fst (largest_area num pmb))) div 4096"
proof -
  have div: "ucast ((ucast (x :: u32) :: u64) div 4096) = x div 4096" for x
  proof (rule unsigned_word_eqI[where 'a = nat])
    have "unat x < 2 ^ 32" using unsigned_less[where 'a = nat, of x] by simp
    then have "unat (ucast x :: u64) = unat x" by (simp add: unsigned_ucast_eq take_bit_nat_eq_self)
    then have "unat ((ucast x :: u64) div 4096) = unat x div 4096" by (simp add: unat_div)
    moreover have "unat x div 4096 < 2 ^ 32" using \<open>unat x < 2 ^ 32\<close> by simp
    ultimately show "unat (ucast ((ucast x :: u64) div 4096) :: u32) = unat (x div 4096)"
      by (simp add: unsigned_ucast_eq unat_div take_bit_nat_eq_self)
  qed
  show ?thesis
    by (auto simp: page_allocator_init_def get_mem_init_def get_mem_physbase_def get_mem_size_def Let_def
        round_up_distance div unsigned_eq_0_iff)
qed

section \<open>The invariant of the allocator\<close>

text \<open>
  \<open>T\<close> is the number of pages that the area had at the start. The pointers of the array
  are distinct structures; the requested pages are taken from the count, which therefore never
  falls below the pages that are in no block, and never wraps around.
\<close>

abbreviation buddy_at :: "area \<Rightarrow> nat \<Rightarrow> buddy" where
  "buddy_at st i \<equiv> buddies st (buddylist st i)"

definition buddy_used :: "buddy \<Rightarrow> nat" where
  "buddy_used b = (\<Sum>x\<in>buddy_blocks b. snd x)"

definition area_used :: "area \<Rightarrow> nat" where
  "area_used st = (\<Sum>i<unat (buddy_num st). buddy_used (buddy_at st i))"

definition area_ok :: "nat \<Rightarrow> area \<Rightarrow> bool" where
  "area_ok T st \<longleftrightarrow>
     1024 * unat (buddy_num st) \<le> T \<and> unat (page_num st) \<le> T \<and> T \<le> unat (page_num st) + area_used st \<and>
     unat (base_addr st) + 4096 * T < 2 ^ 32 \<and>
     (\<forall>i<T div 1024. buddylist st i \<noteq> 0) \<and> inj_on (buddylist st) {..<T div 1024} \<and>
     (\<forall>i<unat (buddy_num st). buddy_wf (buddy_at st i) \<and> blevel (buddy_at st i) = 10)"

definition area_blocks :: "area \<Rightarrow> (nat \<times> nat) set" where
  "area_blocks st = (\<Union>i<unat (buddy_num st). (\<lambda>(p, n). (1024 * i + p, n)) ` buddy_blocks (buddy_at st i))"

lemma area_okD:
  assumes "area_ok T st"
  shows "unat (buddy_num st) \<le> T div 1024" "unat (page_num st) \<le> T" "T \<le> unat (page_num st) + area_used st"
    "unat (base_addr st) + 4096 * T < 2 ^ 32" "inj_on (buddylist st) {..<T div 1024}"
    "i < T div 1024 \<Longrightarrow> buddylist st i \<noteq> 0"
    "i < unat (buddy_num st) \<Longrightarrow> buddy_wf (buddy_at st i)" "i < unat (buddy_num st) \<Longrightarrow> blevel (buddy_at st i) = 10"
  using assms by (auto simp: area_ok_def)

lemma buddies_used_le:
  assumes "\<forall>i<n. buddy_wf (f i) \<and> blevel (f i) = 10"
  shows "(\<Sum>i<n. buddy_used (f i)) \<le> 1024 * n"
proof -
  have "(\<Sum>i<n. buddy_used (f i)) \<le> of_nat (card {..<n}) * 1024"
  proof (rule sum_bounded_above)
    fix i assume "i \<in> {..<n}"
    then have "buddy_wf (f i)" "blevel (f i) = 10" using assms by auto
    then show "buddy_used (f i) \<le> 1024" using buddy_used_le(1)[of "f i"] by (simp add: buddy_used_def)
  qed
  then show ?thesis by simp
qed

lemma buddy_at_upd:
  assumes "inj_on (buddylist st) {..<N}" "i < N" "j < N"
  shows "((buddies st)(buddylist st j := b)) (buddylist st i) = (if i = j then b else buddy_at st i)"
  using assms by (auto dest: inj_onD)

lemma sum_one_more:
  fixes f :: "nat \<Rightarrow> nat"
  assumes "j < n"
  shows "(\<Sum>i<n. if i = j then f j + d else f i) = (\<Sum>i<n. f i) + d"
proof -
  have "(\<Sum>i<n. if i = j then f j + d else f i) = (\<Sum>i<n. f i + (if i = j then d else 0))"
    by (intro sum.cong) auto
  also have "\<dots> = (\<Sum>i<n. f i) + (\<Sum>i<n. if i = j then d else 0)" by (rule sum.distrib)
  finally show ?thesis using assms by simp
qed

lemma UN_one_more:
  fixes j n :: nat
  assumes "j < n"
  shows "(\<Union>i<n. f i ` (if i = j then insert x (B j) else B i)) = insert (f j x) (\<Union>i<n. f i ` B i)"
proof -
  have "f i ` (if i = j then insert x (B j) else B i) = f i ` B i \<union> (if i = j then {f j x} else {})" for i by auto
  moreover have "(\<Union>i<n. if i = j then {f j x} else {}) = {f j x}" using assms by (auto split: if_splits)
  ultimately show ?thesis by (simp add: UN_Un_distrib)
qed

text \<open>A block from the buddy \<open>j\<close>, and the new count.\<close>

lemma area_take:
  assumes ok: "area_ok T st" and j: "j < unat (buddy_num st)"
    and get: "buddy_get (buddy_at st j) n = Some (b', p)" and lev: "blevel b' = blevel (buddy_at st j)"
  defines "st' \<equiv> st\<lparr>buddies := (buddies st)(buddylist st j := b'), page_num := page_num st - of_nat n\<rparr>"
  obtains len where "area_ok T st'" "n \<le> len" "(1024 * j + p, len) \<notin> area_blocks st"
    "area_blocks st' = insert (1024 * j + p, len) (area_blocks st)" "1024 * j + p + len \<le> T" "0 < len"
proof -
  let ?N = "T div 1024" and ?b = "buddy_at st j" and ?bn = "unat (buddy_num st)"
  note o = area_okD[OF ok]
  obtain len where len: "buddy_wf b'" "n \<le> len" "(p, len) \<notin> buddy_blocks ?b"
      "buddy_blocks b' = insert (p, len) (buddy_blocks ?b)"
    using bd.alloc_block[OF o(7)[OF j] get] by blast
  have lev': "blevel b' = 10" using lev o(8)[OF j] by simp
  have bound: "p + len \<le> 1024" "0 < len"
    using buddy_block_bound[OF len(1), of p len] len(4) lev' by auto
  have at: "buddy_at st' i = (if i = j then b' else buddy_at st i)" if "i < ?bn" for i
    using buddy_at_upd[OF o(5), of i j b'] that j o(1) by (simp add: st'_def)
  have fin: "finite (buddy_blocks ?b)" by (rule buddy_used_le(2)[OF o(7)[OF j]])
  then have used1: "buddy_used b' = buddy_used ?b + len" using len(3,4) by (simp add: buddy_used_def)
  have "area_used st' = (\<Sum>i<?bn. if i = j then buddy_used ?b + len else buddy_used (buddy_at st i))"
    unfolding area_used_def using at used1 by (auto simp: st'_def intro!: sum.cong)
  then have used: "area_used st' = area_used st + len"
    using sum_one_more[OF j, of "\<lambda>i. buddy_used (buddy_at st i)" len] by (simp add: area_used_def)
  have fields: "buddy_num st' = buddy_num st" "base_addr st' = base_addr st" "buddylist st' = buddylist st"
    by (simp_all add: st'_def)
  have wf': "\<forall>i<?bn. buddy_wf (buddy_at st' i) \<and> blevel (buddy_at st' i) = 10"
    using at len(1) lev' o(7,8) by simp
  have "area_used st' \<le> 1024 * ?bn"
    using buddies_used_le[OF wf'] by (simp add: area_used_def fields)
  then have room: "area_used st + len \<le> T" using used o(1) by linarith
  then have n: "n \<le> unat (page_num st)" using o(3) len(2) by linarith
  then have "unat (of_nat n :: u32) = n"
    using unsigned_less[where 'a = nat, of "page_num st"] by (intro unat_word_of_nat_small) simp
  then have pn: "unat (page_num st') = unat (page_num st) - n" using n by (simp add: st'_def unat_minus_le)
  have "T \<le> unat (page_num st') + area_used st'" "unat (page_num st') \<le> T" "1024 * ?bn \<le> T"
    using o(1,2,3) used pn len(2) n by linarith+
  then have "area_ok T st'" unfolding area_ok_def fields using o(4,5,6) wf'[unfolded fields] by blast
  moreover have blocks: "area_blocks st' = insert (1024 * j + p, len) (area_blocks st)"
  proof -
    let ?f = "\<lambda>i (p, n). (1024 * i + p, n)"
    have "area_blocks st' = (\<Union>i<?bn. ?f i `
        (if i = j then insert (p, len) (buddy_blocks ?b) else buddy_blocks (buddy_at st i)))"
      unfolding area_blocks_def fields using at[unfolded fields] len(4) by (intro SUP_cong) auto
    then show ?thesis using UN_one_more[OF j, of ?f "(p, len)" "\<lambda>i. buddy_blocks (buddy_at st i)"]
      by (simp add: area_blocks_def)
  qed
  moreover have "(1024 * j + p, len) \<notin> area_blocks st"
  proof
    assume "(1024 * j + p, len) \<in> area_blocks st"
    then obtain i p' where i: "i < ?bn" "(p', len) \<in> buddy_blocks (buddy_at st i)" "1024 * j + p = 1024 * i + p'"
      by (auto simp: area_blocks_def)
    have "p' + len \<le> 1024" using buddy_block_bound(1)[OF o(7)[OF i(1)] i(2)] o(8)[OF i(1)] by simp
    then have "p' < 1024" "p < 1024" using bound by auto
    then have "(1024 * j + p) div 1024 = j" "(1024 * i + p') div 1024 = i" by simp_all
    then have "j = i \<and> p = p'" using i(3) by simp
    then show False using i(2) len(3) by simp
  qed
  moreover have "1024 * j + p + len \<le> T"
  proof -
    have "1024 * Suc j \<le> T" using j \<open>1024 * ?bn \<le> T\<close> by simp
    then show ?thesis using bound(1) by simp
  qed
  ultimately show ?thesis using that len(2) bound(2) by blast
qed

section \<open>Allocation keeps the invariant\<close>

lemma buddy_init_ptr_eq: "p \<noteq> 0 \<Longrightarrow> buddy_init_ptr k h p level = h(p := buddy_init (h p) level)"
  by (simp add: buddy_init_ptr_def buddy_init_def Let_def cong: if_cong)

lemma buddy_init_10: "buddy_wf (buddy_init b 10)" "blevel (buddy_init b 10) = 10" "buddy_blocks (buddy_init b 10) = {}"
  using buddy_init_empty[of b 10] by (simp_all add: buddy_wf_def buddy_blocks_def)

lemma area_grow_ok:
  assumes ok: "area_ok T st" and room: "buddy_num st < page_num st div 1024"
  shows "area_ok T (area_grow k st)" "area_blocks (area_grow k st) = area_blocks st"
    "unat (buddy_num (area_grow k st)) = Suc (unat (buddy_num st))"
proof -
  let ?st = "area_grow k st" and ?bn = "unat (buddy_num st)"
  note o = area_okD[OF ok]
  show bn: "unat (buddy_num ?st) = Suc ?bn" using unat_Suc_less[OF room] by (simp add: area_grow_def)
  have "?bn < unat (page_num st) div 1024" using room by (simp add: word_less_nat_alt unat_div)
  then have lt: "?bn < T div 1024" using o(2) by (meson div_le_mono less_le_trans)
  then have "buddylist st ?bn \<noteq> 0" by (rule o(6))
  then have at: "buddy_at ?st i = (if i = ?bn then buddy_init (buddy_at st ?bn) 10 else buddy_at st i)"
    if "i \<le> ?bn" for i
    using buddy_at_upd[OF o(5), of i ?bn] that lt by (simp add: area_grow_def buddy_init_ptr_eq)
  have used: "area_used ?st = area_used st"
    unfolding area_used_def bn
    using at[of ?bn] at by (simp add: buddy_used_def buddy_init_10(3))
  have "1024 * Suc ?bn \<le> T" using lt by (simp add: less_eq_div_iff_mult_less_eq[symmetric] Suc_le_eq mult.commute)
  moreover have "buddy_wf (buddy_at ?st i) \<and> blevel (buddy_at ?st i) = 10" if "i < Suc ?bn" for i
    using that at[of i] o(7,8) buddy_init_10 by (auto simp: less_Suc_eq)
  ultimately show "area_ok T ?st"
    unfolding area_ok_def bn used using o(2-6) by (simp add: area_grow_def)
  show "area_blocks ?st = area_blocks st"
    unfolding area_blocks_def bn
    using at[of ?bn] at by (simp add: lessThan_Suc buddy_init_10(3))
qed

lemma try_buddies_cases:
  assumes "\<forall>j<i + m. buddy_wf (buddy_at st j)" "n \<le> 2 ^ 30" "0 < m \<or> r0 = -1"
  obtains (Hit) j b' p where "i \<le> j" "j < i + m" "buddy_get (buddy_at st j) n = Some (b', p)"
      "blevel b' = blevel (buddy_at st j)"
      "try_buddies m i (int n) r0 st = Some (st\<lparr>buddies := (buddies st)(buddylist st j := b')\<rparr>, j, int p)"
  | (Miss) r where "try_buddies m i (int n) r0 st = Some (st, i + m, r)" "r = -1 \<or> r = -2"
  using assms
proof (induction m arbitrary: i r0 thesis)
  case 0
  then show ?case by auto
next
  case (Suc m)
  have wf: "buddy_wf (buddy_at st i)" using Suc.prems(3) by simp
  from this Suc.prems(4) show ?case
  proof (cases rule: buddy_run_cases)
    case (Block b' p)
    then show ?thesis using Suc.prems(1)[of i b' p] by (simp add: Let_def fun_upd_def)
  next
    case (Fail r)
    then have step: "try_buddies (Suc m) i (int n) r0 st = try_buddies m (Suc i) (int n) r st"
      by (auto simp: Let_def)
    show ?thesis
    proof (cases "m = 0")
      case True
      then show ?thesis using Suc.prems(2)[of r] Fail step by simp
    next
      case False
      show ?thesis
      proof (rule Suc.IH[of "Suc i" r])
        fix j b' p
        assume "Suc i \<le> j" "j < Suc i + m" "buddy_get (buddy_at st j) n = Some (b', p)"
          "blevel b' = blevel (buddy_at st j)"
          "try_buddies m (Suc i) (int n) r st = Some (st\<lparr>buddies := (buddies st)(buddylist st j := b')\<rparr>, j, int p)"
        then show thesis using Suc.prems(1)[of j b' p] step by (simp add: fun_upd_def)
      next
        fix r'
        assume "try_buddies m (Suc i) (int n) r st = Some (st, Suc i + m, r')" "r' = -1 \<or> r' = -2"
        then show thesis using Suc.prems(2)[of r'] step by simp
      qed (use Suc.prems False in auto)
    qed
  qed
qed

lemma pages_needed_eq:
  assumes "unat sz \<le> 2 ^ 42"
  shows "pages_needed sz = int ((unat sz + 4095) div 4096)"
proof -
  let ?n = "(unat sz + 4095) div 4096"
  have "sz + ucast PGSIZE - 1 = sz + 4095" by (simp add: PGSIZE_def)
  moreover have "unat (sz + 4095) = unat sz + 4095" using assms by (subst unat_plus_small) simp_all
  ultimately have "unat (drop_bit 12 (sz + ucast PGSIZE - 1)) = ?n" by (simp only: unat_drop_bit) simp
  then have "ucast (drop_bit 12 (sz + ucast PGSIZE - 1)) = (of_nat ?n :: u32)" by (metis of_nat_unat)
  moreover have "sint (of_nat ?n :: u32) = int ?n"
  proof -
    have "?n \<le> 2 ^ 30" using assms by simp
    then show ?thesis by (simp only: signed_of_nat) (simp add: signed_take_bit_int_eq_self)
  qed
  ultimately show ?thesis by (simp only: pages_needed_def)
qed

lemma pages_needed_exact:
  assumes "n \<le> 2 ^ 30"
  shows "pages_needed (of_nat (4096 * n)) = int n"
proof -
  have "unat (of_nat (4096 * n) :: u64) = 4096 * n" using assms by (intro unat_word_of_nat_small) simp
  then show ?thesis using pages_needed_eq[of "of_nat (4096 * n)"] assms by simp
qed

lemma unat_add_of_nat:
  fixes base :: "'a::len word"
  assumes "unat base + d < 2 ^ LENGTH('a)"
  shows "unat (base + of_nat d) = unat base + d"
proof -
  have "unat (of_nat d :: 'a word) = d" using assms by (intro unat_word_of_nat_small) simp
  then show ?thesis using assms by (simp add: unat_plus_small)
qed

lemma unat_ucast_64: "unat (ucast (w :: u32) :: u64) = unat w"
  using unsigned_less[where 'a = nat, of w] by (simp add: unsigned_ucast_eq take_bit_nat_eq_self)

lemma page_addr:
  assumes "unat base + 4096 * (1024 * j + p) < 2 ^ 32"
  shows "ucast (base + push_bit 22 (of_nat j) + push_bit 12 (of_int (int p)) :: u32) =
         (ucast base + of_nat (4096 * (1024 * j + p)) :: u64)"
proof (rule unsigned_word_eqI[where 'a = nat])
  have eq: "base + push_bit 22 (of_nat j) + push_bit 12 (of_int (int p)) = base + of_nat (4096 * (1024 * j + p))"
    by (simp add: push_bit_eq_mult)
  have "unat (base + of_nat (4096 * (1024 * j + p))) = unat base + 4096 * (1024 * j + p)"
    using assms by (intro unat_add_of_nat) simp
  moreover have "unat (ucast base + of_nat (4096 * (1024 * j + p)) :: u64) = unat (ucast base :: u64) + 4096 * (1024 * j + p)"
    using assms by (intro unat_add_of_nat) (simp add: unat_ucast_64)
  ultimately show "unat (ucast (base + push_bit 22 (of_nat j) + push_bit 12 (of_int (int p)) :: u32) :: u64) =
      unat (ucast base + of_nat (4096 * (1024 * j + p)) :: u64)" unfolding eq by (simp only: unat_ucast_64)
qed

text \<open>What a call of \<^verbatim>\<open>page_alloc\<close> does in a state of the invariant.\<close>

lemma page_alloc_cases:
  assumes ok: "area_ok T st" and n: "pages_needed (psize pgs) = int n" "n \<le> 2 ^ 30"
  obtains (Fail) st' where "page_alloc k st pgs = Some (st', pgs, EOF)" "area_ok T st'"
      "area_blocks st' = area_blocks st" "base_addr st' = base_addr st"
  | (Block) st' q len where
      "page_alloc k st pgs = Some (st', pgs\<lparr>paddr := ucast (base_addr st) + of_nat (4096 * q)\<rparr>, 0)"
      "area_ok T st'" "n \<le> len" "0 < len" "(q, len) \<notin> area_blocks st"
      "area_blocks st' = insert (q, len) (area_blocks st)" "q + len \<le> T" "base_addr st' = base_addr st"
proof -
  note o = area_okD[OF ok]
  have finish: thesis
    if "area_ok T s1" "area_blocks s1 = area_blocks st" "base_addr s1 = base_addr st" "j < unat (buddy_num s1)"
      "buddy_get (buddy_at s1 j) n = Some (b', p)" "blevel b' = blevel (buddy_at s1 j)"
      "page_alloc k st pgs =
         Some (page_alloc_end (s1\<lparr>buddies := (buddies s1)(buddylist s1 j := b')\<rparr>) pgs j (int p) (int n))"
    for s1 j b' p
  proof (rule area_take[OF that(1,4,5,6)])
    fix len
    let ?st' = "s1\<lparr>buddies := (buddies s1)(buddylist s1 j := b'), page_num := page_num s1 - of_nat n\<rparr>"
    assume a: "area_ok T ?st'" "n \<le> len" "(1024 * j + p, len) \<notin> area_blocks s1"
      "area_blocks ?st' = insert (1024 * j + p, len) (area_blocks s1)" "1024 * j + p + len \<le> T" "0 < len"
    have "4096 * (1024 * j + p) \<le> 4096 * T" using a(5) by simp
    then have "unat (base_addr st) + 4096 * (1024 * j + p) < 2 ^ 32" using o(4) by (meson add_left_mono le_less_trans)
    note pa = page_addr[OF this]
    have "page_alloc_end (s1\<lparr>buddies := (buddies s1)(buddylist s1 j := b')\<rparr>) pgs j (int p) (int n) =
        (?st', pgs\<lparr>paddr := ucast (base_addr st + push_bit 22 (of_nat j) + push_bit 12 (of_int (int p)))\<rparr>, 0)"
      by (simp add: page_alloc_end_def that(3))
    then have "page_alloc k st pgs = Some (?st', pgs\<lparr>paddr := ucast (base_addr st) + of_nat (4096 * (1024 * j + p))\<rparr>, 0)"
      unfolding that(7) pa by simp
    from Block[OF this a(1,2,6)] show thesis using a that(2,3) by simp
  qed
  have "\<forall>j<0 + unat (buddy_num st). buddy_wf (buddy_at st j)" using o(7) by simp
  then show thesis
  proof (rule try_buddies_cases[OF _ n(2), of 0 _ st "-1"])
    fix j b' p
    assume "0 \<le> j" "j < 0 + unat (buddy_num st)" "buddy_get (buddy_at st j) n = Some (b', p)"
      "blevel b' = blevel (buddy_at st j)"
      "try_buddies (unat (buddy_num st)) 0 (int n) (-1) st =
         Some (st\<lparr>buddies := (buddies st)(buddylist st j := b')\<rparr>, j, int p)"
    then show thesis using ok n by (intro finish[of st j b' p]) (simp_all add: page_alloc_def)
  next
    fix r
    assume tried: "try_buddies (unat (buddy_num st)) 0 (int n) (-1) st = Some (st, 0 + unat (buddy_num st), r)"
      and r: "r = -1 \<or> r = -2"
    show thesis
    proof (cases "r = -1 \<and> buddy_num st < page_num st div 1024")
      case False
      then have "page_alloc k st pgs = Some (st, pgs, EOF)"
        using tried r n by (auto simp: page_alloc_def page_alloc_end_def not_less)
      then show thesis using Fail ok by blast
    next
      case True
      let ?s1 = "area_grow k st" and ?bn = "unat (buddy_num st)"
      note g = area_grow_ok[OF ok, of k] and g1 = True
      have base: "base_addr ?s1 = base_addr st" "buddylist ?s1 = buddylist st" by (simp_all add: area_grow_def)
      have run: "page_alloc k st pgs = (case buddy_run (buddy_at ?s1 ?bn) (int n) of
          None \<Rightarrow> None | Some (b, offset) \<Rightarrow>
          Some (page_alloc_end (?s1\<lparr>buddies := (buddies ?s1)(buddylist ?s1 ?bn := b)\<rparr>) pgs ?bn offset (int n)))"
        using tried True n leD by (simp add: page_alloc_def Let_def) blast
      have "buddy_wf (buddy_at ?s1 ?bn)" using area_okD(7)[OF g(1)] g(3) True by simp
      from this n(2) show thesis
      proof (cases rule: buddy_run_cases)
        case (Fail r)
        then have "page_alloc k st pgs = Some (?s1, pgs, EOF)" using run by (auto simp: page_alloc_end_def)
        then show thesis using that(1)[of ?s1] g base True by blast
      next
        case (Block b' p)
        then show thesis using g base True run by (intro finish[of ?s1 ?bn b' p]) simp_all
      qed
    qed
  qed simp
qed

section \<open>The allocator as a source of blocks\<close>

text \<open>The blocks are runs of pages, counted from the base of the area.\<close>

definition area_get :: "u32 \<Rightarrow> area \<Rightarrow> nat \<Rightarrow> (area \<times> nat) option" where
  "area_get k st n =
     (if 2 ^ 30 < n then None
      else case page_alloc k st \<lparr>paddr = 0, psize = of_nat (4096 * n), pflags = 0\<rparr> of
        Some (st', pgs, r) \<Rightarrow>
          if r = 0 then Some (st', unat (paddr pgs - ucast (base_addr st)) div 4096) else None
      | None \<Rightarrow> None)"

definition area_inv :: "area \<Rightarrow> bool" where
  "area_inv st \<longleftrightarrow> (\<exists>T. area_ok T st)"

lemma area_block_at:
  assumes "area_ok T st" "b \<in> area_blocks st"
  obtains i p n where "i < unat (buddy_num st)" "(p, n) \<in> buddy_blocks (buddy_at st i)"
    "b = (1024 * i + p, n)" "p + n \<le> 1024" "0 < n"
proof -
  obtain i p n where a: "i < unat (buddy_num st)" "(p, n) \<in> buddy_blocks (buddy_at st i)" "b = (1024 * i + p, n)"
    using assms(2) by (auto simp: area_blocks_def)
  then show ?thesis
    using that[OF a] buddy_block_bound[OF area_okD(7)[OF assms(1) a(1)] a(2)] area_okD(8)[OF assms(1) a(1)] by simp
qed

lemma area_blocks_apart:
  assumes ok: "area_ok T st" and b: "b \<in> area_blocks st" "b' \<in> area_blocks st" "b \<noteq> b'"
  shows "span b \<inter> span b' = {}"
proof -
  obtain i p n where 1: "i < unat (buddy_num st)" "(p, n) \<in> buddy_blocks (buddy_at st i)"
    "b = (1024 * i + p, n)" "p + n \<le> 1024" using area_block_at[OF ok b(1)] by blast
  obtain i' p' n' where 2: "i' < unat (buddy_num st)" "(p', n') \<in> buddy_blocks (buddy_at st i')"
    "b' = (1024 * i' + p', n')" "p' + n' \<le> 1024" using area_block_at[OF ok b(2)] by blast
  show ?thesis
  proof (cases "i = i'")
    case True
    then have "(p, n) \<noteq> (p', n')" using b(3) 1(3) 2(3) by auto
    then have "span (p, n) \<inter> span (p', n') = {}"
      using 1(2) 2(2) True by (intro bd.blocks_disjoint[OF area_okD(7)[OF ok 1(1)]]) simp_all
    then show ?thesis using True 1(3) 2(3) by (auto simp: disjoint_iff not_less not_le)
  next
    case False
    then have "1024 * Suc i \<le> 1024 * i' \<or> 1024 * Suc i' \<le> 1024 * i" by (metis Suc_leI linorder_neqE_nat mult_le_mono2)
    then show ?thesis using 1(3,4) 2(3,4) by auto
  qed
qed

lemma area_get_block:
  assumes ok: "area_ok T st" and get: "area_get k st n = Some (st', q)"
  obtains len where "area_ok T st'" "n \<le> len" "(q, len) \<notin> area_blocks st"
    "area_blocks st' = insert (q, len) (area_blocks st)" "q + len \<le> T"
proof -
  have n: "n \<le> 2 ^ 30" using get by (auto simp: area_get_def split: if_splits)
  have need: "pages_needed (psize \<lparr>paddr = 0, psize = of_nat (4096 * n), pflags = 0\<rparr>) = int n"
    using pages_needed_exact[OF n] by simp
  from ok need n show ?thesis
  proof (cases rule: page_alloc_cases[where k = k])
    case (Fail s1)
    then show ?thesis using get n by (simp add: area_get_def)
  next
    case (Block s1 r len)
    have "4096 * r < 2 ^ 64" using Block(7) area_okD(4)[OF ok] by simp
    then have "unat (of_nat (4096 * r) :: u64) = 4096 * r" by (intro unat_word_of_nat_small) simp
    then have "unat (of_nat (4096 * r) :: u64) div 4096 = r" by simp
    then have "s1 = st'" "r = q" using get n Block(1) by (simp_all add: area_get_def)
    then show ?thesis using that Block by blast
  qed
qed

interpretation ar: block_source area_inv area_blocks "area_get k" for k
proof
  fix s s' :: area and b b' :: "nat \<times> nat" and n p :: nat
  assume "area_inv s"
  then obtain T where ok: "area_ok T s" by (auto simp: area_inv_def)
  show "b \<in> area_blocks s \<Longrightarrow> b' \<in> area_blocks s \<Longrightarrow> b \<noteq> b' \<Longrightarrow> span b \<inter> span b' = {}"
    by (rule area_blocks_apart[OF ok])
  show "b \<in> area_blocks s \<Longrightarrow> 0 < snd b" by (auto elim!: area_block_at[OF ok])
  show "area_get k s n = Some (s', p) \<Longrightarrow> area_inv s' \<and>
      (\<exists>len\<ge>n. (p, len) \<notin> area_blocks s \<and> area_blocks s' = insert (p, len) (area_blocks s))"
    by (erule area_get_block[OF ok]) (auto simp: area_inv_def)
qed

section \<open>Release does not release\<close>

lemma page_free_only_count: "page_free st pgs = Some (st', pgs') \<Longrightarrow> st' = st\<lparr>page_num := page_num st'\<rparr>"
  by (auto simp: page_free_def Let_def split: option.splits if_splits)

lemma page_free_keeps_blocks:
  assumes "page_free st pgs = Some (st', pgs')"
  shows "area_blocks st' = area_blocks st"
proof -
  have eq: "st' = st\<lparr>page_num := page_num st'\<rparr>" by (rule page_free_only_count[OF assms])
  have "buddies st' = buddies st" "buddylist st' = buddylist st" "buddy_num st' = buddy_num st"
    by (subst eq, simp)+
  then show ?thesis by (simp add: area_blocks_def)
qed

lemma buddy_size_blocks:
  assumes wf: "buddy_wf b" and x: "x < 2 ^ blevel b"
  obtains (In_Block) p len where "(p, len) \<in> buddy_blocks b" "x \<in> span (p, len)" "buddy_size b (int x) = Some (int len)"
  | (Free_Page) "\<And>c. c \<in> buddy_blocks b \<Longrightarrow> x \<notin> span c" "buddy_size b (int x) = Some EOF"
proof -
  have "wf_tree (tree b) (blevel b)" using wf by (simp add: buddy_wf_def)
  from this x show ?thesis
  proof (cases rule: buddy_page_cases)
    case (In_Block a)
    then have "(lo (blevel b) a, 2 ^ (blevel b - dep a)) \<in> buddy_blocks b" by (simp add: buddy_blocks_def)
    then show ?thesis using that(1) In_Block(2,3) by (simp add: pages_of_def)
  next
    case Free_Page
    then have "x \<notin> span c" if "c \<in> buddy_blocks b" for c
      using that by (auto simp: buddy_blocks_def pages_of_def)
    then show ?thesis using that(2) Free_Page(2) by blast
  qed
qed

lemma page_free_offsets:
  assumes "4096 * q < 2 ^ 32" and paddr: "paddr pgs = ucast (base_addr st) + of_nat (4096 * q)"
  shows "unat (ucast (drop_bit 22 (paddr pgs - ucast (base_addr st))) :: u32) = q div 1024"
    "unat (drop_bit 12 (paddr pgs - ucast (base_addr st))) = q"
proof -
  have u: "unat (paddr pgs - ucast (base_addr st)) = 4096 * q"
    using assms by (simp only: paddr add_diff_cancel_left') (intro unat_word_of_nat_small, simp)
  then show "unat (drop_bit 12 (paddr pgs - ucast (base_addr st))) = q" by (simp only: unat_drop_bit) simp
  have "unat (drop_bit 22 (paddr pgs - ucast (base_addr st))) = q div 1024" by (simp only: unat_drop_bit u) simp
  moreover have "q div 1024 < 2 ^ 32" using assms(1) by simp
  ultimately show "unat (ucast (drop_bit 22 (paddr pgs - ucast (base_addr st))) :: u32) = q div 1024"
    by (simp add: unsigned_ucast_eq take_bit_nat_eq_self)
qed

text \<open>
  The count grows by the bytes of the block instead of its pages, and shrinks by 4096 for a page
  of no block.
\<close>

lemma page_free_count:
  assumes ok: "area_ok T st" and q: "q < 1024 * unat (buddy_num st)"
    and paddr: "paddr pgs = ucast (base_addr st) + of_nat (4096 * q)"
  obtains (In_Block) p len where "(p, len) \<in> area_blocks st" "q \<in> span (p, len)"
      "page_free st pgs = Some (st\<lparr>page_num := page_num st + of_nat (4096 * len)\<rparr>, pgs\<lparr>psize := of_nat (4096 * len)\<rparr>)"
  | (Free_Page) "\<And>b. b \<in> area_blocks st \<Longrightarrow> q \<notin> span b"
      "page_free st pgs = Some (st\<lparr>page_num := page_num st - 4096\<rparr>, pgs\<lparr>psize := - 4096\<rparr>)"
proof -
  let ?i = "q div 1024" and ?x = "q mod 1024"
  note o = area_okD[OF ok]
  have i: "?i < unat (buddy_num st)" using q by (simp add: div_less_iff_less_mult mult.commute)
  have "4096 * q < 2 ^ 32" using q o(1,4) by simp
  note off = page_free_offsets[OF this paddr]
  have qx: "q = 1024 * ?i + ?x" by simp
  have "?x < 2 ^ blevel (buddy_at st ?i)" using o(8)[OF i] by simp
  from o(7)[OF i] this show ?thesis
  proof (cases rule: buddy_size_blocks)
    case (In_Block p len)
    have b: "p + len \<le> 1024" "0 < len" using buddy_block_bound[OF o(7)[OF i] In_Block(1)] o(8)[OF i] by auto
    have "unat (of_nat (4096 * len) :: u64) = 4096 * len" using b by (intro unat_word_of_nat_small) simp
    then have pos: "0 < (of_nat (4096 * len) :: u64)" using b by (simp add: word_less_nat_alt)
    have "of_int (int len * 2 ^ 12) = (of_nat (4096 * len) :: u64)" by simp
    moreover have "ucast (of_nat (4096 * len) :: u64) = (of_nat (4096 * len) :: u32)"
      by (metis of_nat_unat \<open>unat (of_nat (4096 * len) :: u64) = 4096 * len\<close>)
    ultimately have "page_free st pgs = Some (st\<lparr>page_num := page_num st + of_nat (4096 * len)\<rparr>, pgs\<lparr>psize := of_nat (4096 * len)\<rparr>)"
      unfolding page_free_def Let_def off In_Block(3) using pos by (simp add: mult.commute)
    moreover have "(1024 * ?i + p, len) \<in> area_blocks st" using In_Block(1) i by (force simp: area_blocks_def)
    moreover have "q \<in> span (1024 * ?i + p, len)" using In_Block(2) qx unfolding atLeastLessThan_iff fst_conv snd_conv by linarith
    ultimately show ?thesis using that(1) by blast
  next
    case Free_Page
    have "q \<notin> span b" if "b \<in> area_blocks st" for b
    proof
      assume qb: "q \<in> span b"
      from ok that show False
      proof (cases rule: area_block_at)
        case (1 j p n)
        have r: "1024 * j + p \<le> q" "q < 1024 * j + p + n" using qb 1(3) by auto
        then have j: "q div 1024 = j" using 1(4) by (intro div_nat_eqI) simp_all
        then have "?x \<notin> span (p, n)" using Free_Page(1)[of "(p, n)"] 1(2) by simp
        then show False using r qx j unfolding atLeastLessThan_iff fst_conv snd_conv by linarith
      qed
    qed
    moreover have "page_free st pgs = Some (st\<lparr>page_num := page_num st - 4096\<rparr>, pgs\<lparr>psize := - 4096\<rparr>)"
      unfolding page_free_def Let_def off Free_Page(2) by (simp add: word_gt_0)
    ultimately show ?thesis using that(2) by blast
  qed
qed

end
