(* ===== verification/Pmm.thy ===== *)
theory Pmm
  imports PageAlloc Libc
begin

text \<open>
  The physical memory manager of \<^verbatim>\<open>kern/mm/pmm/pmm.c\<close> and \<^verbatim>\<open>include/aim/pmm.h\<close>: the registered
  page allocator, which is a record of functions over a state of its own, and the
  allocation and release of pages through it. \<open>None\<close> is a call that does not return.
\<close>

section \<open>The registered allocator\<close>

record 's page_allocator =
  pa_alloc :: "'s \<Rightarrow> pages \<Rightarrow> ('s \<times> pages \<times> int) option"
  pa_free :: "'s \<Rightarrow> pages \<Rightarrow> ('s \<times> pages) option"
  pa_get_free :: "'s \<Rightarrow> u64"

record 's pmm =
  uu_allocator :: "'s page_allocator"
  pa_state :: 's
  kmem :: vmem

definition uu_alloc :: "'s \<Rightarrow> pages \<Rightarrow> ('s \<times> pages \<times> int) option" where
  "uu_alloc s pgs = Some (s, pgs, EOF)"

definition uu_free :: "'s \<Rightarrow> pages \<Rightarrow> ('s \<times> pages) option" where
  "uu_free s pgs = Some (s, pgs)"

definition uu_get_free :: "'s \<Rightarrow> u64" where
  "uu_get_free s = 0"

definition dummy_allocator :: "'s page_allocator" where
  "dummy_allocator = \<lparr>pa_alloc = uu_alloc, pa_free = uu_free, pa_get_free = uu_get_free\<rparr>"

definition set_page_allocator :: "'s page_allocator \<Rightarrow> 's pmm \<Rightarrow> 's pmm" where
  "set_page_allocator allocator st = st\<lparr>uu_allocator := allocator\<rparr>"

section \<open>Filling pages\<close>

abbreviation (input) PAGE_SIZE :: u64 where "PAGE_SIZE \<equiv> 4096"
abbreviation (input) JUNKBYTE :: u8 where "JUNKBYTE \<equiv> 0x20"
abbreviation (input) GFP_UNSAFE :: u32 where "GFP_UNSAFE \<equiv> 1"
abbreviation (input) GFP_ZERO :: u32 where "GFP_ZERO \<equiv> 2"

partial_function (option) pmemset :: "vmem \<Rightarrow> u64 \<Rightarrow> u8 \<Rightarrow> u64 \<Rightarrow> vmem option" where
  "pmemset m pa b sz =
     (if 0 < sz
      then pmemset (memset m (pa2kva pa) b 4096) (pa + PAGE_SIZE) b (sz - PAGE_SIZE)
      else Some m)"

section \<open>Allocation and release\<close>

text \<open>The pages are filled also when the allocator has failed.\<close>

definition alloc_pages :: "'s pmm \<Rightarrow> pages option \<Rightarrow> ('s pmm \<times> pages option \<times> int) option" where
  "alloc_pages st pgs_ptr = (case pgs_ptr of
     None \<Rightarrow> Some (st, None, EOF)
   | Some pgs \<Rightarrow>
       (case pa_alloc (uu_allocator st) (pa_state st) pgs of
          None \<Rightarrow> None
        | Some (s, pgs, result) \<Rightarrow>
            let st = st\<lparr>pa_state := s\<rparr>
            in if pflags pgs AND GFP_ZERO \<noteq> 0
               then (case pmemset (kmem st) (paddr pgs) 0 (psize pgs) of
                       None \<Rightarrow> None
                     | Some m \<Rightarrow> Some (st\<lparr>kmem := m\<rparr>, Some pgs, result))
               else Some (st, Some pgs, result)))"

definition free_pages :: "'s pmm \<Rightarrow> pages \<Rightarrow> 's pmm option" where
  "free_pages st pgs =
     (case (if pflags pgs AND GFP_UNSAFE = 0 then pmemset (kmem st) (paddr pgs) JUNKBYTE (psize pgs)
            else Some (kmem st)) of
        None \<Rightarrow> None
      | Some m \<Rightarrow>
          let st = st\<lparr>kmem := m\<rparr>
          in case pa_free (uu_allocator st) (pa_state st) pgs of
               None \<Rightarrow> None
             | Some (s, pgs) \<Rightarrow> Some (st\<lparr>pa_state := s\<rparr>))"

text \<open>The two parts of the block that stick out of the aligned range are freed.\<close>

definition free_padding_before :: "'s pmm \<Rightarrow> pages \<Rightarrow> pages \<Rightarrow> 's pmm option" where
  "free_padding_before st buf pgs =
     (if paddr buf < paddr pgs
      then free_pages st \<lparr>paddr = paddr buf, psize = paddr pgs - paddr buf, pflags = pflags buf\<rparr>
      else Some st)"

definition free_padding_after :: "'s pmm \<Rightarrow> pages \<Rightarrow> pages \<Rightarrow> 's pmm option" where
  "free_padding_after st buf pgs =
     (if paddr buf + psize buf > paddr pgs + psize pgs
      then free_pages st \<lparr>paddr = paddr pgs + psize pgs,
             psize = paddr buf + psize buf - paddr pgs - psize pgs, pflags = pflags buf\<rparr>
      else Some st)"

definition alloc_aligned_pages :: "'s pmm \<Rightarrow> pages \<Rightarrow> u64 \<Rightarrow> ('s pmm \<times> pages \<times> int) option" where
  "alloc_aligned_pages st pgs align =
     (let buf = pgs\<lparr>psize := psize pgs + (align - PAGE_SIZE)\<rparr>
      in case alloc_pages st (Some buf) of
           Some (st, Some buf, ret) \<Rightarrow>
             if ret < 0 then Some (st, pgs, ret)
             else let pgs = pgs\<lparr>paddr := ALIGN_ABOVE (paddr buf) align\<rparr>
                  in (case free_padding_before st buf pgs of
                        None \<Rightarrow> None
                      | Some st \<Rightarrow>
                          (case free_padding_after st buf pgs of
                             None \<Rightarrow> None
                           | Some st \<Rightarrow> Some (st, pgs, 0)))
         | _ \<Rightarrow> None)"

definition get_free_memory :: "'s pmm \<Rightarrow> u64" where
  "get_free_memory st = pa_get_free (uu_allocator st) (pa_state st)"

text \<open>\<open>undef\<close> is the value that the local variable \<^verbatim>\<open>p.paddr\<close> has by chance.\<close>

definition pgalloc :: "u64 \<Rightarrow> 's pmm \<Rightarrow> ('s pmm \<times> u64) option" where
  "pgalloc undef st =
     (case alloc_pages st (Some \<lparr>paddr = undef, psize = PAGE_SIZE, pflags = 0\<rparr>) of
        Some (st, Some p, r) \<Rightarrow> Some (st, if r \<noteq> 0 then -1 else paddr p)
      | _ \<Rightarrow> None)"

definition pgfree :: "'s pmm \<Rightarrow> u64 \<Rightarrow> 's pmm option" where
  "pgfree st pa = free_pages st \<lparr>paddr = pa, psize = PAGE_SIZE, pflags = 0\<rparr>"

section \<open>Filling\<close>

lemma ucast_add_down: "(ucast (a + b :: u64) :: u32) = ucast a + ucast b"
proof (rule unsigned_word_eqI[where 'a = nat])
  have d: "x mod 2 ^ 64 mod 2 ^ 32 = x mod (2 ^ 32 :: nat)" for x by (rule mod_mod_cancel) (simp add: le_imp_power_dvd)
  have "unat (ucast (a + b) :: u32) = (unat a + unat b) mod 2 ^ 64 mod 2 ^ 32"
    by (simp add: unsigned_ucast_eq take_bit_eq_mod unat_word_ariths)
  also have "\<dots> = (unat a mod 2 ^ 32 + unat b mod 2 ^ 32) mod 2 ^ 32" by (simp only: d mod_add_eq)
  also have "\<dots> = unat (ucast a + ucast b :: u32)" by (simp add: unsigned_ucast_eq take_bit_eq_mod unat_word_ariths)
  finally show "unat (ucast (a + b) :: u32) = unat (ucast a + ucast b :: u32)" .
qed

lemma pmemset_pages:
  assumes "4096 * n \<le> 2 ^ 32"
  obtains m' where "pmemset m pa b (of_nat (4096 * n)) = Some m'"
    "\<And>a. m' a = (if unat (a - pa2kva pa) < 4096 * n then b else m a)"
  using assms
proof (induction n arbitrary: m pa thesis)
  case 0
  then show ?case by (simp add: pmemset.simps[of m])
next
  case (Suc n)
  let ?m = "memset m (pa2kva pa) b 4096"
  obtain m' where m': "pmemset ?m (pa + 4096) b (of_nat (4096 * n)) = Some m'"
    "\<And>a. m' a = (if unat (a - pa2kva (pa + 4096)) < 4096 * n then b else ?m a)"
    using Suc.IH[of ?m "pa + 4096"] Suc.prems(2) by auto
  have "unat (of_nat (4096 * Suc n) :: u64) = 4096 * Suc n" using Suc.prems(2) by (intro unat_word_of_nat_small) simp
  then have "0 < (of_nat (4096 * Suc n) :: u64)" by (simp only: word_less_nat_alt) simp
  moreover have "of_nat (4096 * Suc n) - 4096 = (of_nat (4096 * n) :: u64)" by simp
  ultimately have run: "pmemset m pa b (of_nat (4096 * Suc n)) = Some m'"
    using m'(1) by (subst pmemset.simps) (simp only: if_True)
  have nxt: "pa2kva (pa + 4096) = pa2kva pa + 4096" by (simp add: pa2kva_def ucast_add_down)
  have "m' a = (if unat (a - pa2kva pa) < 4096 * Suc n then b else m a)" for a
  proof -
    define x where "x = a - pa2kva pa"
    have e: "a - pa2kva (pa + 4096) = x - 4096" by (simp add: x_def nxt algebra_simps)
    have "?m a = (if unat x < 4096 then b else m a)" by (simp add: memset_window x_def word_less_nat_alt)
    then have m2: "m' a = (if unat (x - 4096) < 4096 * n then b else if unat x < 4096 then b else m a)"
      using m'(2)[of a] unfolding e by simp
    show ?thesis
    proof (cases "4096 \<le> unat x")
      case True
      then have "unat (x - 4096) = unat x - 4096" by (simp add: unat_minus_le)
      then show ?thesis using m2 True unfolding x_def by auto
    next
      case False
      then have "unat x < 4096 * Suc n" by simp
      then show ?thesis using m2 False unfolding x_def[symmetric] by auto
    qed
  qed
  then show ?case using Suc.prems(1)[of m'] run by blast
qed

text \<open>A size that is no multiple of the page size is stepped over, and the loop never ends.\<close>

lemma sub_page_mod: "unat (sz - 4096 :: u64) mod 4096 = unat sz mod 4096"
proof -
  have "unat (sz - 4096) mod 4096 = unat ((sz - 4096) + 4096) mod 4096"
  proof -
    have "unat ((sz - 4096) + 4096) = (unat (sz - 4096) + 4096) mod 2 ^ 64" by (simp only: unat_word_ariths) simp
    also have "\<dots> mod 4096 = (unat (sz - 4096) + 4096) mod 4096"
      by (rule mod_mod_cancel) (simp add: dvd_def exI[of _ "2 ^ 52"])
    finally show ?thesis by simp
  qed
  then show ?thesis by simp
qed

lemma pmemset_multiple:
  assumes "pmemset m pa b sz = Some m'"
  shows "unat sz mod 4096 = 0"
proof (rule pmemset.raw_induct[where P = "\<lambda>m pa b sz m'. unat sz mod 4096 = 0", OF _ assms])
  fix f m pa b sz m'
  assume IH: "\<And>m pa b sz m'. f m pa b sz = Some m' \<Longrightarrow> unat (sz :: u64) mod 4096 = 0"
    and step: "(if 0 < sz then f (memset m (pa2kva pa) b 4096) (pa + 4096) b (sz - 4096) else Some m) = Some m'"
  show "unat sz mod 4096 = 0"
  proof (cases "0 < sz")
    case True
    then have "unat (sz - 4096) mod 4096 = 0" using step IH by auto
    then show ?thesis by (simp only: sub_page_mod)
  next
    case False
    then show ?thesis by (simp add: word_less_nat_alt)
  qed
qed

section \<open>The contract of a page allocator\<close>

text \<open>
  What \<^verbatim>\<open>alloc_pages\<close> and its users rely on: the allocator answers, it either fails and
  changes no block, or hands out the bytes of a block that meets no earlier one and lies
  below 4 GB.
\<close>

locale page_provider =
  fixes pinv :: "'s \<Rightarrow> bool"
    and pblocks :: "'s \<Rightarrow> (nat \<times> nat) set"
    and palloc :: "'s \<Rightarrow> pages \<Rightarrow> ('s \<times> pages \<times> int) option"
  assumes palloc_answers: "pinv s \<Longrightarrow> unat (psize p) \<le> 2 ^ 42 \<Longrightarrow>
      \<exists>s' p' r. palloc s p = Some (s', p', r) \<and> pinv s' \<and>
        (r = EOF \<and> p' = p \<and> pblocks s' = pblocks s \<or>
         r = 0 \<and> p' = p\<lparr>paddr := paddr p'\<rparr> \<and> (\<exists>len. unat (psize p) \<le> len \<and> 0 < len \<and>
           unat (paddr p') + len \<le> 2 ^ 32 \<and> (unat (paddr p'), len) \<notin> pblocks s \<and>
           pblocks s' = insert (unat (paddr p'), len) (pblocks s)))"
    and pblocks_disjoint: "pinv s \<Longrightarrow> b \<in> pblocks s \<Longrightarrow> b' \<in> pblocks s \<Longrightarrow> b \<noteq> b' \<Longrightarrow> span b \<inter> span b' = {}"
begin

definition uses :: "'s pmm \<Rightarrow> bool" where
  "uses st \<longleftrightarrow> pa_alloc (uu_allocator st) = palloc \<and> pinv (pa_state st)"

lemma new_block_apart:
  assumes "pinv s'" "pblocks s' = insert (a, len) (pblocks s)" "(a, len) \<notin> pblocks s" "b \<in> pblocks s" "n \<le> len"
  shows "{a ..< a + n} \<inter> span b = {}"
proof -
  have "span (a, len) \<inter> span b = {}" using assms(2-4) by (intro pblocks_disjoint[OF assms(1)]) auto
  then show ?thesis using assms(5) by fastforce
qed

text \<open>
  A page from \<^verbatim>\<open>pgalloc\<close> is disjoint from everything handed out before, and no byte of memory
  changes; -1 is the only answer that is no page.
\<close>

lemma pgalloc_page:
  assumes "uses st"
  obtains (Failed) st' where "pgalloc undef st = Some (st', -1)" "uses st'" "kmem st' = kmem st"
      "pblocks (pa_state st') = pblocks (pa_state st)"
  | (Page) st' a where "pgalloc undef st = Some (st', a)" "uses st'" "kmem st' = kmem st" "unat a + 4096 \<le> 2 ^ 32"
      "\<And>b. b \<in> pblocks (pa_state st) \<Longrightarrow> {unat a ..< unat a + 4096} \<inter> span b = {}"
      "pblocks (pa_state st) \<subseteq> pblocks (pa_state st')" "\<exists>len\<ge>4096. (unat a, len) \<in> pblocks (pa_state st')"
proof -
  let ?p = "\<lparr>paddr = undef, psize = PAGE_SIZE, pflags = 0\<rparr>"
  have u: "pa_alloc (uu_allocator st) = palloc" "pinv (pa_state st)" using assms by (auto simp: uses_def)
  have sz: "unat (psize ?p) \<le> 2 ^ 42" by simp
  obtain s' p' r where r: "palloc (pa_state st) ?p = Some (s', p', r)" "pinv s'"
    and cases: "r = EOF \<and> p' = ?p \<and> pblocks s' = pblocks (pa_state st) \<or>
      r = 0 \<and> p' = ?p\<lparr>paddr := paddr p'\<rparr> \<and> (\<exists>len. unat (psize ?p) \<le> len \<and> 0 < len \<and>
        unat (paddr p') + len \<le> 2 ^ 32 \<and> (unat (paddr p'), len) \<notin> pblocks (pa_state st) \<and>
        pblocks s' = insert (unat (paddr p'), len) (pblocks (pa_state st)))"
    using palloc_answers[OF u(2) sz] by blast
  have fl: "pflags p' = 0" using cases by (metis pages.select_convs(3) pages.update_convs(1))
  have run: "pgalloc undef st = Some (st\<lparr>pa_state := s'\<rparr>, if r \<noteq> 0 then -1 else paddr p')"
    using r(1) u(1) fl by (simp add: pgalloc_def alloc_pages_def Let_def)
  have uses': "uses (st\<lparr>pa_state := s'\<rparr>)" using u(1) r(2) by (simp add: uses_def)
  from cases show ?thesis
  proof
    assume "r = EOF \<and> p' = ?p \<and> pblocks s' = pblocks (pa_state st)"
    then show ?thesis using that(1)[of "st\<lparr>pa_state := s'\<rparr>"] run uses' by simp
  next
    assume a: "r = 0 \<and> p' = ?p\<lparr>paddr := paddr p'\<rparr> \<and> (\<exists>len. unat (psize ?p) \<le> len \<and> 0 < len \<and>
        unat (paddr p') + len \<le> 2 ^ 32 \<and> (unat (paddr p'), len) \<notin> pblocks (pa_state st) \<and>
        pblocks s' = insert (unat (paddr p'), len) (pblocks (pa_state st)))"
    then obtain len where len: "4096 \<le> len" "unat (paddr p') + len \<le> 2 ^ 32"
        "(unat (paddr p'), len) \<notin> pblocks (pa_state st)"
        "pblocks s' = insert (unat (paddr p'), len) (pblocks (pa_state st))" by auto
    show ?thesis
    proof (rule that(2)[of "st\<lparr>pa_state := s'\<rparr>" "paddr p'"])
      show "{unat (paddr p') ..< unat (paddr p') + 4096} \<inter> span b = {}" if "b \<in> pblocks (pa_state st)" for b
        by (rule new_block_apart[OF r(2) len(4,3) that len(1)])
      show "unat (paddr p') + 4096 \<le> 2 ^ 32" using len(1,2) by linarith
      show "\<exists>l\<ge>4096. (unat (paddr p'), l) \<in> pblocks (pa_state (st\<lparr>pa_state := s'\<rparr>))"
        using len(1,4) by auto
    qed (use run uses' a len(4) in auto)
  qed
qed

end

section \<open>The registered allocators keep the contract\<close>

definition area_bytes :: "area \<Rightarrow> (nat \<times> nat) set" where
  "area_bytes st = (\<lambda>(q, n). (unat (base_addr st) + 4096 * q, 4096 * n)) ` area_blocks st"

lemma scaled_span:
  assumes "x \<in> {a + 4096 * q ..< a + 4096 * q + 4096 * n}"
  shows "(x - a) div 4096 \<in> {q ..< q + (n :: nat)}"
proof -
  have "4096 * q \<le> x - a" "x - a < 4096 * (q + n)" using assms by auto
  then show ?thesis by (simp add: less_eq_div_iff_mult_less_eq div_less_iff_less_mult mult.commute)
qed

lemma area_bytes_disjoint:
  assumes "area_inv s" "b \<in> area_bytes s" "b' \<in> area_bytes s" "b \<noteq> b'"
  shows "span b \<inter> span b' = {}"
proof (rule ccontr)
  let ?a = "unat (base_addr s)"
  obtain q n q' n' where b: "(q, n) \<in> area_blocks s" "b = (?a + 4096 * q, 4096 * n)"
    "(q', n') \<in> area_blocks s" "b' = (?a + 4096 * q', 4096 * n')"
    using assms(2,3) by (auto simp: area_bytes_def)
  assume "span b \<inter> span b' \<noteq> {}"
  then obtain x where "x \<in> span b" "x \<in> span b'" by blast
  then have "(x - ?a) div 4096 \<in> span (q, n)" "(x - ?a) div 4096 \<in> span (q', n')"
    using scaled_span[of x ?a q n] scaled_span[of x ?a q' n'] b(2,4) by auto
  moreover have "(q, n) \<noteq> (q', n')" using b assms(4) by auto
  ultimately show False using ar.blocks_disjoint[OF assms(1) b(1,3)] by blast
qed

lemma page_alloc_answers:
  assumes ok: "area_ok T s" and "unat (psize p) \<le> 2 ^ 42"
  shows "\<exists>s' p' r. page_alloc k s p = Some (s', p', r) \<and> (area_ok T s' \<and> base_addr s' = base_addr s) \<and>
    (r = EOF \<and> p' = p \<and> area_bytes s' = area_bytes s \<or>
     r = 0 \<and> p' = p\<lparr>paddr := paddr p'\<rparr> \<and> (\<exists>len. unat (psize p) \<le> len \<and> 0 < len \<and>
       unat (paddr p') + len \<le> 2 ^ 32 \<and> (unat (paddr p'), len) \<notin> area_bytes s \<and>
       area_bytes s' = insert (unat (paddr p'), len) (area_bytes s)))"
proof -
  have need: "pages_needed (psize p) = int ((unat (psize p) + 4095) div 4096)" by (rule pages_needed_eq[OF assms(2)])
  have n: "(unat (psize p) + 4095) div 4096 \<le> 2 ^ 30" using assms(2) by simp
  from ok need n show ?thesis
  proof (cases rule: page_alloc_cases[where k = k])
    case (Fail s')
    then show ?thesis by (auto simp: area_bytes_def)
  next
    case (Block s' q len)
    let ?a = "unat (base_addr s)" and ?p' = "p\<lparr>paddr := ucast (base_addr s) + of_nat (4096 * q)\<rparr>"
    have top: "?a + 4096 * (q + len) < 2 ^ 32"
      using area_okD(4)[OF ok] Block(7) by (meson add_left_mono le_less_trans mult_le_mono2)
    have "unat (ucast (base_addr s) + of_nat (4096 * q) :: u64) = unat (ucast (base_addr s) :: u64) + 4096 * q"
      using top by (intro unat_add_of_nat) (simp add: unat_ucast_64)
    then have addr: "unat (paddr ?p') = ?a + 4096 * q" by (simp add: unat_ucast_64)
    have "unat (psize p) \<le> 4096 * len"
    proof -
      have "unat (psize p) \<le> 4096 * ((unat (psize p) + 4095) div 4096)" by linarith
      also have "\<dots> \<le> 4096 * len" using Block(3) by (rule mult_le_mono2)
      finally show ?thesis .
    qed
    moreover have "area_bytes s' = insert (?a + 4096 * q, 4096 * len) (area_bytes s)"
      using Block(6,8) by (simp add: area_bytes_def)
    moreover have "(?a + 4096 * q, 4096 * len) \<notin> area_bytes s" using Block(5) by (auto simp: area_bytes_def)
    moreover have "?a + 4096 * q + 4096 * len \<le> 2 ^ 32" using top by (simp add: add.assoc)
    moreover have "0 < 4096 * len" using Block(4) by simp
    ultimately have "(\<exists>len. unat (psize p) \<le> len \<and> 0 < len \<and>
        unat (paddr ?p') + len \<le> 2 ^ 32 \<and> (unat (paddr ?p'), len) \<notin> area_bytes s \<and>
        area_bytes s' = insert (unat (paddr ?p'), len) (area_bytes s))" unfolding addr by blast
    then show ?thesis using Block(1,2,8) by (intro exI[of _ s'] exI[of _ ?p'] exI[of _ 0]) simp
  qed
qed

interpretation pp: page_provider area_inv area_bytes "page_alloc k" for k
proof
  fix s :: area and p :: pages
  assume "area_inv s" "unat (psize p) \<le> 2 ^ 42"
  then obtain T where "area_ok T s" by (auto simp: area_inv_def)
  from page_alloc_answers[OF this \<open>unat (psize p) \<le> 2 ^ 42\<close>, of k]
  show "\<exists>s' p' r. page_alloc k s p = Some (s', p', r) \<and> area_inv s' \<and>
      (r = EOF \<and> p' = p \<and> area_bytes s' = area_bytes s \<or>
       r = 0 \<and> p' = p\<lparr>paddr := paddr p'\<rparr> \<and> (\<exists>len. unat (psize p) \<le> len \<and> 0 < len \<and>
         unat (paddr p') + len \<le> 2 ^ 32 \<and> (unat (paddr p'), len) \<notin> area_bytes s \<and>
         area_bytes s' = insert (unat (paddr p'), len) (area_bytes s)))"
    unfolding area_inv_def by blast
qed (rule area_bytes_disjoint)

text \<open>
  An allocator of page frames: its blocks begin at page boundaries, are not at address 0 and lie in the
  2 GB that the kernel maps.
\<close>

locale frame_provider = page_provider +
  assumes frames: "pinv s \<Longrightarrow> b \<in> pblocks s \<Longrightarrow> fst b mod 4096 = 0 \<and> 0 < fst b \<and> fst b + snd b \<le> 2 ^ 31"
begin

lemma pgalloc_frame:
  assumes "uses st"
  obtains (Failed) st' where "pgalloc undef st = Some (st', -1)" "uses st'" "kmem st' = kmem st"
      "pblocks (pa_state st') = pblocks (pa_state st)"
  | (Frame) st' a where "pgalloc undef st = Some (st', a)" "uses st'" "kmem st' = kmem st"
      "unat a mod 4096 = 0" "0 < unat a" "unat a + 4096 \<le> 2 ^ 31"
      "\<And>b. b \<in> pblocks (pa_state st) \<Longrightarrow> {unat a ..< unat a + 4096} \<inter> span b = {}"
      "pblocks (pa_state st) \<subseteq> pblocks (pa_state st')"
      "\<exists>b\<in>pblocks (pa_state st'). {unat a ..< unat a + 4096} \<subseteq> span b"
proof (cases rule: pgalloc_page[OF assms, of undef])
  case 1
  then show ?thesis by (rule Failed)
next
  case (2 st' a)
  obtain len where len: "(unat a, len) \<in> pblocks (pa_state st')" "4096 \<le> len" using 2(7) by blast
  have "pinv (pa_state st')" using 2(2) by (simp add: uses_def)
  from frames[OF this len(1)] have f: "unat a mod 4096 = 0" "0 < unat a" "unat a + len \<le> 2 ^ 31" by auto
  then have top: "unat a + 4096 \<le> 2 ^ 31" using len(2) by linarith
  have "{unat a ..< unat a + 4096} \<subseteq> span (unat a, len)" using len(2) by auto
  with len(1) have "\<exists>b\<in>pblocks (pa_state st'). {unat a ..< unat a + 4096} \<subseteq> span b" by blast
  from Frame[OF 2(1,2,3) f(1,2) top 2(5,6) this] show ?thesis .
qed

end

definition area_low :: "area \<Rightarrow> bool" where
  "area_low st \<longleftrightarrow> (\<exists>T. area_ok T st \<and> unat (base_addr st) mod 4096 = 0 \<and> 0 < unat (base_addr st) \<and>
     unat (base_addr st) + 4096 * T \<le> 2 ^ 31)"

lemma area_block_bound:
  assumes "area_ok T st" "(q, n) \<in> area_blocks st"
  shows "q + n \<le> T"
  using assms(1,2)
proof (cases rule: area_block_at)
  case (1 i p m)
  have "1024 * Suc i \<le> T" using 1(1) area_okD(1)[OF assms(1)] by (simp add: less_eq_div_iff_mult_less_eq)
  then show ?thesis using 1(3,4) by simp
qed

interpretation fp: frame_provider area_low area_bytes "page_alloc k" for k
proof
  fix s :: area and p :: pages
  assume "area_low s" "unat (psize p) \<le> 2 ^ 42"
  then obtain T where T: "area_ok T s" "unat (base_addr s) mod 4096 = 0" "0 < unat (base_addr s)"
     "unat (base_addr s) + 4096 * T \<le> 2 ^ 31" by (auto simp: area_low_def)
  from page_alloc_answers[OF T(1) \<open>unat (psize p) \<le> 2 ^ 42\<close>, of k] T(2-4)
  show "\<exists>s' p' r. page_alloc k s p = Some (s', p', r) \<and> area_low s' \<and>
      (r = EOF \<and> p' = p \<and> area_bytes s' = area_bytes s \<or>
       r = 0 \<and> p' = p\<lparr>paddr := paddr p'\<rparr> \<and> (\<exists>len. unat (psize p) \<le> len \<and> 0 < len \<and>
         unat (paddr p') + len \<le> 2 ^ 32 \<and> (unat (paddr p'), len) \<notin> area_bytes s \<and>
         area_bytes s' = insert (unat (paddr p'), len) (area_bytes s)))"
    unfolding area_low_def by metis
next
  fix s :: area and b b'
  assume low: "area_low s"
  then have "area_inv s" by (auto simp: area_low_def area_inv_def)
  then show "b \<in> area_bytes s \<Longrightarrow> b' \<in> area_bytes s \<Longrightarrow> b \<noteq> b' \<Longrightarrow> span b \<inter> span b' = {}"
    by (rule area_bytes_disjoint)
  obtain T where T: "area_ok T s" "unat (base_addr s) mod 4096 = 0" "0 < unat (base_addr s)"
     "unat (base_addr s) + 4096 * T \<le> 2 ^ 31" using low by (auto simp: area_low_def)
  assume "b \<in> area_bytes s"
  then obtain q n where qn: "(q, n) \<in> area_blocks s" "b = (unat (base_addr s) + 4096 * q, 4096 * n)"
    by (auto simp: area_bytes_def)
  have "4096 * (q + n) \<le> 4096 * T" using area_block_bound[OF T(1) qn(1)] by simp
  then have "unat (base_addr s) + 4096 * q + 4096 * n \<le> 2 ^ 31" using T(4) by (simp add: algebra_simps)
  then show "fst b mod 4096 = 0 \<and> 0 < fst b \<and> fst b + snd b \<le> 2 ^ 31" using qn(2) T(2,3) by (simp add: mod_add_eq)
qed

text \<open>The dummy allocator that is registered at the start keeps the contract by always failing.\<close>

interpretation dummy: page_provider "\<lambda>_. True" "\<lambda>_. {}" uu_alloc
  by unfold_locales (auto simp: uu_alloc_def)

end
