(* ===== verification/ArchMmu.thy ===== *)
theory ArchMmu
  imports Pmm Cpu
begin

text \<open>
  The page tables of \<^verbatim>\<open>kern/arch/i386/arch_mmu.c\<close>, in the memory of the physical memory
  manager. The memory is indexed by kernel addresses; the boot page index maps the low
  addresses to the same frames, so an access through a low pointer is an access at
  \<^verbatim>\<open>postmap_addr\<close> of it. \<open>None\<close> is a call that does not return.
\<close>

section \<open>Access through a pointer\<close>

definition vload :: "vmem \<Rightarrow> u32 \<Rightarrow> u32" where
  "vload m a = load32 m (postmap_addr a)"

definition vstore :: "vmem \<Rightarrow> u32 \<Rightarrow> u32 \<Rightarrow> vmem" where
  "vstore m a v = store32 m (postmap_addr a) v"

definition vclear_page :: "vmem \<Rightarrow> u32 \<Rightarrow> vmem" where
  "vclear_page m a = memset m (postmap_addr a) 0 PGSIZE"

section \<open>Operations\<close>

text \<open>\<open>u\<close> is the chance value that \<^verbatim>\<open>pgalloc\<close> starts from.\<close>

definition walkpgdir :: "u64 \<Rightarrow> 's pmm \<Rightarrow> u32 \<Rightarrow> u32 \<Rightarrow> bool \<Rightarrow> ('s pmm \<times> u32) option" where
  "walkpgdir u st pgdir va alloc =
     (let pde = pgdir + 4 * PDX va
      in if vload (kmem st) pde AND PTE_P \<noteq> 0
         then let pgtab = postmap_addr (PTE_ADDR (vload (kmem st) pde)) in Some (st, pgtab + 4 * PTX va)
         else if \<not> alloc then Some (st, 0)
         else case pgalloc u st of
                None \<Rightarrow> None
              | Some (st, pa) \<Rightarrow>
                  let pgtab = ucast pa
                  in if pgtab = 0 then Some (st, 0)
                     else let m = vclear_page (kmem st) pgtab;
                              m = vstore m pde (premap_addr pgtab OR PTE_P OR PTE_W OR PTE_U)
                          in Some (st\<lparr>kmem := m\<rparr>, pgtab + 4 * PTX va))"

text \<open>The loop of \<^verbatim>\<open>page_index_clear\<close>, from entry \<open>i\<close> on.\<close>

primrec index_clear_loop :: "nat \<Rightarrow> nat \<Rightarrow> 's pmm \<Rightarrow> u32 \<Rightarrow> 's pmm option" where
  "index_clear_loop 0 i st index = Some st"
| "index_clear_loop (Suc n) i st index =
     (let p = index + 4 * of_nat i; v = vload (kmem st) p
      in case (if v AND PTE_P \<noteq> 0 \<and> v AND PTE_PS = 0 then pgfree st (ucast (v AND 0xfffff000)) else Some st) of
           None \<Rightarrow> None
         | Some st \<Rightarrow> index_clear_loop n (Suc i) (st\<lparr>kmem := vstore (kmem st) p 0\<rparr>) index)"

definition page_index_clear :: "'s pmm \<Rightarrow> u32 \<Rightarrow> 's pmm option" where
  "page_index_clear st index = index_clear_loop 1024 0 st index"

partial_function (option) map_pages_loop ::
    "u64 \<Rightarrow> 's pmm \<Rightarrow> u32 \<Rightarrow> u32 \<Rightarrow> u32 \<Rightarrow> u64 \<Rightarrow> u32 \<Rightarrow> ('s pmm \<times> int) outcome option" where
  "map_pages_loop u st pgindex a lst pa flags =
     (case walkpgdir u st pgindex a True of
        None \<Rightarrow> None
      | Some (st, pte) \<Rightarrow>
          if pte = 0 then Some (Done (st, -1))
          else if vload (kmem st) pte AND PTE_P \<noteq> 0 then Some Panic
          else let st = st\<lparr>kmem := vstore (kmem st) pte (ucast (pa OR ucast flags OR ucast PTE_P))\<rparr>
               in if a = lst then Some (Done (st, 0))
                  else map_pages_loop u st pgindex (a + PGSIZE) lst (pa + ucast PGSIZE) flags)"

definition map_pages :: "u64 \<Rightarrow> 's pmm \<Rightarrow> u32 \<Rightarrow> u32 \<Rightarrow> u64 \<Rightarrow> u32 \<Rightarrow> u32 \<Rightarrow> ('s pmm \<times> int) outcome option" where
  "map_pages u st pgindex vaddr pa sz flags =
     (let a = PGROUNDDOWN vaddr; lst = PGROUNDDOWN (vaddr + sz - 1)
      in map_pages_loop u st pgindex a lst pa flags)"

text \<open>The result would also carry what is stored at the last argument.\<close>

definition unmap_pages :: "'s pmm \<Rightarrow> u32 \<Rightarrow> u32 \<Rightarrow> u32 \<Rightarrow> ('s pmm \<times> int \<times> u64) outcome" where
  "unmap_pages st pgindex vaddr sz = Panic"

definition init_pgindex :: "u64 \<Rightarrow> 's pmm \<Rightarrow> ('s pmm \<times> u32) option" where
  "init_pgindex u st =
     (case pgalloc u st of
        None \<Rightarrow> None
      | Some (st, pa) \<Rightarrow>
          let pgindex = P2V (ucast pa) in Some (st\<lparr>kmem := vclear_page (kmem st) pgindex\<rparr>, pgindex))"

definition destroy_pgindex :: "'s pmm \<Rightarrow> u32 \<Rightarrow> 's pmm option" where
  "destroy_pgindex st pgindex =
     (case page_index_clear st pgindex of
        None \<Rightarrow> None
      | Some st \<Rightarrow> pgfree st (ucast (V2P pgindex)))"

partial_function (option) set_perm_loop ::
    "u64 \<Rightarrow> 's pmm \<Rightarrow> u32 \<Rightarrow> u32 \<Rightarrow> u32 \<Rightarrow> u32 \<Rightarrow> ('s pmm \<times> int) option" where
  "set_perm_loop u st pgindex a lst flags =
     (case walkpgdir u st pgindex a True of
        None \<Rightarrow> None
      | Some (st, pte) \<Rightarrow>
          if pte = 0 then Some (st, -1)
          else let st = st\<lparr>kmem := vstore (kmem st) pte (vload (kmem st) pte AND 0xfffff000)\<rparr>;
                   st = st\<lparr>kmem := vstore (kmem st) pte (vload (kmem st) pte OR flags)\<rparr>
               in if a = lst then Some (st, 0)
                  else set_perm_loop u st pgindex (a + PGSIZE) lst flags)"

definition set_pages_perm :: "u64 \<Rightarrow> 's pmm \<Rightarrow> u32 \<Rightarrow> u32 \<Rightarrow> u32 \<Rightarrow> u32 \<Rightarrow> ('s pmm \<times> int) option" where
  "set_pages_perm u st pgindex vaddr sz flags =
     (let a = PGROUNDDOWN vaddr; lst = PGROUNDDOWN (vaddr + sz - 1)
      in set_perm_loop u st pgindex a lst flags)"

section \<open>Control registers\<close>

definition get_pgindex :: "mach \<Rightarrow> u32" where
  "get_pgindex s = V2P (cr3 s)"

definition switch_pgindex :: "u32 \<Rightarrow> mach \<Rightarrow> int \<times> mach" where
  "switch_pgindex pgindex s = (0, s\<lparr>cr3 := V2P pgindex\<rparr>)"

definition mmu_init :: "u32 \<Rightarrow> mach \<Rightarrow> mach" where
  "mmu_init boot_page_index s =
     (let s = s\<lparr>cr4 := cr4 s OR CR4_PSE\<rparr>;
          s = snd (switch_pgindex boot_page_index s)
      in s\<lparr>cr0 := cr0 s OR (CR0_PG OR CR0_WP)\<rparr>)"

section \<open>Words of page frames\<close>

definition page_ok :: "u32 \<Rightarrow> bool" where
  "page_ok f \<longleftrightarrow> unat f mod 4096 = 0 \<and> unat f + 4096 \<le> 2 ^ 31"

text \<open>The kernel address of the word \<open>k\<close> of the frame \<open>f\<close>.\<close>

definition pw :: "u32 \<Rightarrow> u32 \<Rightarrow> u32" where
  "pw f k = f + KERN_BASE + 4 * k"

lemma unat_pw:
  assumes "page_ok f" "unat k < 1024"
  shows "unat (pw f k) = unat f + 2 ^ 31 + 4 * unat k"
proof -
  have f: "unat f + 4096 \<le> 2 ^ 31" using assms by (simp add: page_ok_def)
  then have "unat (f + KERN_BASE) = unat f + 2 ^ 31" by (subst unat_plus_small) (simp_all add: KERN_BASE_def)
  moreover have "unat (4 * k) = 4 * unat k" using assms(2) by (simp add: unat_word_ariths)
  ultimately show ?thesis unfolding pw_def using f assms(2) by (subst unat_plus_small) simp_all
qed

lemma pw_aligned: "page_ok f \<Longrightarrow> unat k < 1024 \<Longrightarrow> unat (pw f k) mod 4 = 0"
proof -
  assume a: "page_ok f" "unat k < 1024"
  then obtain q where "unat f = 4096 * q" by (auto simp: page_ok_def)
  then have "unat (pw f k) = 4 * (1024 * q + 2 ^ 29 + unat k)" using unat_pw[OF a] by simp
  then show ?thesis by simp
qed

lemma pw_eq_iff:
  assumes "page_ok f" "unat k < 1024" "page_ok f'" "unat k' < 1024"
  shows "pw f k = pw f' k' \<longleftrightarrow> f = f' \<and> k = k'"
proof
  assume eq: "pw f k = pw f' k'"
  obtain q q' where q: "unat f = 4096 * q" "unat f' = 4096 * q'" using assms(1,3) by (auto simp: page_ok_def elim!: dvdE)
  have "4096 * q + 4 * unat k = 4096 * q' + 4 * unat k'"
    using eq unat_pw[OF assms(1,2)] unat_pw[OF assms(3,4)] q by simp
  then have e: "1024 * q + unat k = 1024 * q' + unat k'" by simp
  have "(1024 * q + unat k) div 1024 = q" "(1024 * q' + unat k') div 1024 = q'" using assms(2,4) by simp_all
  then have "q = q'" using e by simp
  then have "unat f = unat f'" "unat k = unat k'" using e q by simp_all
  then show "f = f' \<and> k = k'" by (simp only: unsigned_word_eqI[where 'a = nat])
qed simp

lemma postmap_pw [simp]: "page_ok f \<Longrightarrow> unat k < 1024 \<Longrightarrow> postmap_addr (pw f k) = pw f k"
  using unat_pw[of f k] by (simp add: postmap_addr_def word_le_nat_alt KERN_BASE_def)

lemma store32_store32 [simp]: "store32 (store32 m a v) a w = store32 m a w"
  by (auto simp: store32_def fun_upd_def)

lemma load_store_pw:
  assumes "page_ok f" "unat k < 1024" "page_ok f'" "unat k' < 1024"
  shows "load32 (store32 m (pw f k) v) (pw f' k') = (if f = f' \<and> k = k' then v else load32 m (pw f' k'))"
  using load32_store32_other[of "pw f k" "pw f' k'"] pw_eq_iff[OF assms] pw_aligned assms by auto

text \<open>Clearing a frame.\<close>

lemma window_nat:
  fixes p b n :: u32
  assumes "unat p + unat n \<le> 2 ^ 32"
  shows "b - p < n \<longleftrightarrow> unat p \<le> unat b \<and> unat b < unat p + unat n"
proof (cases "unat p \<le> unat b")
  case True
  then show ?thesis by (auto simp: word_less_nat_alt unat_minus_le)
next
  case False
  then have "unat (b - p) = 2 ^ 32 - (unat p - unat b)"
    using unat_diff_swap[of p b] by (auto simp: unat_minus_le)
  then show ?thesis using False assms by (simp add: word_less_nat_alt)
qed

lemma load_memset_pw:
  assumes f: "page_ok f" and k: "page_ok f'" "unat k < 1024"
  shows "load32 (memset m (f + KERN_BASE) c 4096) (pw f' k) = (if f = f' then load32 (\<lambda>_. c) 0 else load32 m (pw f' k))"
proof -
  have base: "unat (f + KERN_BASE) = unat f + 2 ^ 31" using f unat_pw[of f 0] by (simp add: pw_def)
  then have win: "b - (f + KERN_BASE) < 4096 \<longleftrightarrow> unat f + 2 ^ 31 \<le> unat b \<and> unat b < unat f + 2 ^ 31 + 4096" for b
    using window_nat[of "f + KERN_BASE" 4096 b] f by (simp add: page_ok_def)
  obtain q q' where q: "unat f = 4096 * q" "unat f' = 4096 * q'" using f k(1) by (auto simp: page_ok_def elim!: dvdE)
  have byte: "unat (pw f' k + of_nat j) = 4096 * q' + 2 ^ 31 + 4 * unat k + j" if "j < 4" for j
    using unat_pw[OF k] that k q by (subst unat_add_of_nat) (auto simp: page_ok_def)
  have in_f: "pw f' k + of_nat j - (f + KERN_BASE) < 4096 \<longleftrightarrow> f = f'" if "j < 4" for j
  proof -
    have "pw f' k + of_nat j - (f + KERN_BASE) < 4096 \<longleftrightarrow> 4096 * q \<le> 4096 * q' + (4 * unat k + j) \<and>
        4096 * q' + (4 * unat k + j) < 4096 * q + 4096"
      unfolding win byte[OF that] q by auto
    also have "\<dots> \<longleftrightarrow> q = q'"
    proof -
      have "4 * unat k + j < 4096" using k(2) that by simp
      then have "(4096 * q' + (4 * unat k + j)) div 4096 = q'" by simp
      moreover have "4096 * q \<le> x \<and> x < 4096 * q + 4096 \<longleftrightarrow> x div 4096 = q" for x :: nat
        by (auto intro: div_nat_eqI)
      ultimately show ?thesis by auto
    qed
    also have "\<dots> \<longleftrightarrow> f = f'" using q unsigned_word_eqI[of f f', where 'a = nat] by auto
    finally show ?thesis .
  qed
  have "memset m (f + KERN_BASE) c 4096 (pw f' k + of_nat j) = (if f = f' then c else m (pw f' k + of_nat j))"
    if "j < 4" for j using in_f[OF that] by (simp add: memset_window)
  note bytes = this[of 0] this[of 1] this[of 2] this[of 3]
  show ?thesis using bytes by (cases "f = f'") (simp_all add: load32_def)
qed

lemma load_clear_pw:
  "page_ok f \<Longrightarrow> page_ok f' \<Longrightarrow> unat k < 1024 \<Longrightarrow>
    load32 (memset m (f + KERN_BASE) 0 4096) (pw f' k) = (if f = f' then 0 else load32 m (pw f' k))"
  by (simp add: load_memset_pw) (simp add: load32_def)

section \<open>What an index maps\<close>

definition present :: "u32 \<Rightarrow> bool" where
  "present e \<longleftrightarrow> e AND PTE_P \<noteq> 0"

abbreviation pde_at :: "vmem \<Rightarrow> u32 \<Rightarrow> u32 \<Rightarrow> u32" where
  "pde_at m f va \<equiv> load32 m (pw f (PDX va))"

text \<open>The page table entry that the processor finds for \<open>va\<close> in the index whose frame is \<open>f\<close>.\<close>

definition pte_of :: "vmem \<Rightarrow> u32 \<Rightarrow> u32 \<Rightarrow> u32 option" where
  "pte_of m f va =
     (let pde = pde_at m f va; pte = load32 m (pw (PTE_ADDR pde) (PTX va))
      in if present pde \<and> present pte then Some pte else None)"

text \<open>The page tables are frames of their own.\<close>

definition pd_wf :: "vmem \<Rightarrow> u32 \<Rightarrow> bool" where
  "pd_wf m f \<longleftrightarrow> page_ok f \<and>
     (\<forall>va. present (pde_at m f va) \<longrightarrow> page_ok (PTE_ADDR (pde_at m f va)) \<and> PTE_ADDR (pde_at m f va) \<noteq> f \<and>
        (\<forall>va'. present (pde_at m f va') \<longrightarrow> PTE_ADDR (pde_at m f va) = PTE_ADDR (pde_at m f va') \<longrightarrow> PDX va = PDX va'))"

lemma index_less [simp]: "unat (PDX va) < 1024" "unat (PTX va) < 1024"
proof -
  have "PDX va \<le> 0x3FF" "PTX va \<le> 0x3FF" by (simp_all add: PDX_def PTX_def word_and_le1)
  then show "unat (PDX va) < 1024" "unat (PTX va) < 1024" by (simp_all add: word_le_nat_alt)
qed

lemma PDX_onto: "unat k < 1024 \<Longrightarrow> \<exists>va. PDX va = k"
  using PDX_PTX_PGADDR[of k 0 0] by (auto simp: word_less_nat_alt)

lemma same_page: "PDX va = PDX va' \<and> PTX va = PTX va' \<longleftrightarrow> PGROUNDDOWN va = PGROUNDDOWN va'"
proof
  assume "PGROUNDDOWN va = PGROUNDDOWN va'"
  then have b: "bit va i = bit va' i" if "12 \<le> i" "i < 32" for i
    using that by (auto simp: PGROUNDDOWN_eq bit_eq_iff bit_simps)
  show "PDX va = PDX va' \<and> PTX va = PTX va'" by (auto intro!: bit_word_eqI simp: PDX_bit PTX_bit b)
next
  assume e: "PDX va = PDX va' \<and> PTX va = PTX va'"
  have "bit va i = bit va' i" if "12 \<le> i" "i < 32" for i
  proof (cases "22 \<le> i")
    case True
    then have "i - 22 < 10" "i - 22 + 22 = i" using that by auto
    then show ?thesis using PDX_bit[of va "i - 22"] PDX_bit[of va' "i - 22"] e by metis
  next
    case False
    then have "i - 12 < 10" "i - 12 + 12 = i" using that by auto
    then show ?thesis using PTX_bit[of va "i - 12"] PTX_bit[of va' "i - 12"] e by metis
  qed
  then show "PGROUNDDOWN va = PGROUNDDOWN va'" by (auto intro!: bit_word_eqI simp: PGROUNDDOWN_eq bit_simps)
qed

lemma page_window:
  assumes "unat a mod 4096 = 0"
  shows "PGROUNDDOWN va = PGROUNDDOWN a \<longleftrightarrow> unat a \<le> unat va \<and> unat va < unat a + 4096"
proof -
  obtain q where q: "unat a = 4096 * q" using assms by auto
  have "PGROUNDDOWN va = PGROUNDDOWN a \<longleftrightarrow> unat (PGROUNDDOWN va) = unat (PGROUNDDOWN a)"
    by (metis unsigned_word_eqI)
  also have "\<dots> \<longleftrightarrow> unat va div 4096 = q" by (simp add: unat_PGROUNDDOWN q)
  also have "\<dots> \<longleftrightarrow> 4096 * q \<le> unat va \<and> unat va < 4096 * q + 4096" by (auto intro: div_nat_eqI)
  finally show ?thesis using q by simp
qed

lemma page_step: "b + 4096 \<le> x \<Longrightarrow> (x - b) div 4096 = Suc ((x - (b + 4096)) div (4096 :: nat))"
  using le_div_geq[of 4096 "x - b"] by (simp add: diff_diff_left)

lemma PTE_ADDR_page: "unat (PTE_ADDR e) mod 4096 = 0"
proof -
  have "PTE_ADDR e = PGROUNDDOWN e" by (simp add: PTE_ADDR_def PGROUNDDOWN_eq mask_constants)
  then show ?thesis by (simp add: unat_PGROUNDDOWN)
qed

text \<open>A store of a page table entry changes what one page is mapped to.\<close>

lemma pte_store:
  assumes wf: "pd_wf m f" and p: "present (pde_at m f va)"
    and m'_def: "m' = store32 m (pw (PTE_ADDR (pde_at m f va)) (PTX va)) v"
  shows "pde_at m' f va' = pde_at m f va'" "pd_wf m' f"
    "pte_of m' f va' = (if PGROUNDDOWN va' = PGROUNDDOWN va then if present v then Some v else None else pte_of m f va')"
proof -
  have ok: "page_ok f" "page_ok (PTE_ADDR (pde_at m f va))" "PTE_ADDR (pde_at m f va) \<noteq> f"
    using wf p by (auto simp: pd_wf_def)
  show pde: "pde_at m' f va' = pde_at m f va'" for va' using ok by (simp add: m'_def load_store_pw)
  show "pd_wf m' f" using wf unfolding pd_wf_def pde .
  show "pte_of m' f va' = (if PGROUNDDOWN va' = PGROUNDDOWN va then if present v then Some v else None else pte_of m f va')"
  proof (cases "present (pde_at m f va')")
    case True
    have inj: "PTE_ADDR (pde_at m f va) = PTE_ADDR (pde_at m f va') \<longleftrightarrow> PDX va = PDX va'"
      using wf p True by (auto simp: pd_wf_def)
    have "page_ok (PTE_ADDR (pde_at m f va'))" using wf True by (auto simp: pd_wf_def)
    then have "load32 m' (pw (PTE_ADDR (pde_at m f va')) (PTX va')) =
        (if PGROUNDDOWN va = PGROUNDDOWN va' then v else load32 m (pw (PTE_ADDR (pde_at m f va')) (PTX va')))"
      unfolding m'_def using ok(2) by (simp add: load_store_pw inj same_page)
    then show ?thesis using True unfolding pte_of_def pde Let_def by (simp add: eq_commute)
  next
    case False
    then have "PGROUNDDOWN va' \<noteq> PGROUNDDOWN va" using p same_page[of va va'] by metis
    then show ?thesis using False unfolding pte_of_def pde Let_def by simp
  qed
qed

text \<open>A new page table is empty, so hooking it in changes no mapping.\<close>

lemma new_table:
  assumes wf: "pd_wf m f" and np: "\<not> present (pde_at m f va)" and t: "page_ok t" "t \<noteq> f"
    and fresh: "\<And>va'. present (pde_at m f va') \<Longrightarrow> PTE_ADDR (pde_at m f va') \<noteq> t"
    and e: "PTE_ADDR e = t" "present e"
    and m'_def: "m' = store32 (memset m (t + KERN_BASE) 0 4096) (pw f (PDX va)) e"
  shows "pde_at m' f va' = (if PDX va' = PDX va then e else pde_at m f va')" "pd_wf m' f" "pte_of m' f va' = pte_of m f va'"
proof -
  have f: "page_ok f" using wf by (simp add: pd_wf_def)
  show pde: "pde_at m' f va' = (if PDX va' = PDX va then e else pde_at m f va')" for va'
    using f t by (auto simp: m'_def load_store_pw load_clear_pw)
  show "pd_wf m' f" unfolding pd_wf_def pde using wf t e fresh by (auto simp: pd_wf_def) metis
  have word: "load32 m' (pw t' (PTX va')) = (if t' = t then 0 else load32 m (pw t' (PTX va')))" if "page_ok t'" "t' \<noteq> f" for t'
    using f t that by (auto simp: m'_def load_store_pw load_clear_pw)
  have np0: "\<not> present 0" by (simp add: present_def)
  show "pte_of m' f va' = pte_of m f va'"
  proof (cases "PDX va' = PDX va")
    case True
    then show ?thesis using np np0 t e unfolding pte_of_def pde Let_def by (simp add: word)
  next
    case False
    show ?thesis
    proof (cases "present (pde_at m f va')")
      case True
      then show ?thesis using wf fresh[OF True] False unfolding pte_of_def pde Let_def by (simp add: word pd_wf_def)
    qed (use False in \<open>simp add: pte_of_def pde Let_def\<close>)
  qed
qed

text \<open>The entry that \<^verbatim>\<open>map_pages\<close> writes.\<close>

definition pte_value :: "u64 \<Rightarrow> u32 \<Rightarrow> u32" where
  "pte_value pa flags = ucast pa OR flags OR PTE_P"

lemma present_pte_value: "present (pte_value pa flags)"
proof -
  have "bit (pte_value pa flags AND PTE_P) 0" by (simp add: pte_value_def bit_simps pte_flag_defs)
  then show ?thesis unfolding present_def by (metis bit_0_eq bot_apply bot_bool_def)
qed

lemma ucast_pte_value: "ucast (pa OR ucast flags OR ucast PTE_P :: u64) = pte_value pa flags"
  by (rule bit_word_eqI) (auto simp: pte_value_def bit_simps)

text \<open>A mapped entry after \<^verbatim>\<open>set_pages_perm\<close>: without \<^verbatim>\<open>PTE_P\<close> among the flags the page is no longer mapped.\<close>

definition set_flags :: "u32 \<Rightarrow> u32 option \<Rightarrow> u32 option" where
  "set_flags flags old = (case old of
     None \<Rightarrow> None
   | Some e \<Rightarrow> let e' = (e AND 0xfffff000) OR flags in if present e' then Some e' else None)"

text \<open>The range of pages between two rounded addresses.\<close>

lemma round_range:
  assumes "0 < unat (sz :: u32)" "unat vaddr + unat sz \<le> 2 ^ 32"
    and a: "a = PGROUNDDOWN vaddr" and n: "n = (unat vaddr + unat sz - 1) div 4096 - unat vaddr div 4096"
  shows "PGROUNDDOWN (vaddr + sz - 1) = a + of_nat (4096 * n)" "unat a mod 4096 = 0" "unat a + 4096 * n < 2 ^ 32"
proof -
  have "vaddr + sz - 1 = vaddr + of_nat (unat sz - 1)" using assms(1) by (simp add: of_nat_diff)
  then have l: "unat (vaddr + sz - 1) = unat vaddr + unat sz - 1"
    using unat_add_of_nat[of vaddr "unat sz - 1"] assms(1,2) by (simp add: add_diff_eq)
  have ua: "unat a = unat vaddr div 4096 * 4096" by (simp add: a unat_PGROUNDDOWN)
  then show "unat a mod 4096 = 0" by simp
  have le: "unat vaddr div 4096 \<le> (unat vaddr + unat sz - 1) div 4096" using assms(1) by (intro div_le_mono) simp
  then have sum: "unat a + 4096 * n = (unat vaddr + unat sz - 1) div 4096 * 4096" by (simp add: ua n algebra_simps)
  also have "\<dots> \<le> unat vaddr + unat sz - 1" by (rule div_times_less_eq_dividend)
  finally show top: "unat a + 4096 * n < 2 ^ 32" using assms(1,2) by linarith
  show "PGROUNDDOWN (vaddr + sz - 1) = a + of_nat (4096 * n)"
    by (rule unsigned_word_eqI[where 'a = nat], subst unat_add_of_nat) (use top sum l in \<open>auto simp: unat_PGROUNDDOWN\<close>)
qed

section \<open>The supply of pages\<close>

text \<open>The allocator can hand out \<open>n\<close> pages one after the other.\<close>

primrec has_pages :: "('s \<Rightarrow> pages \<Rightarrow> ('s \<times> pages \<times> int) option) \<Rightarrow> u64 \<Rightarrow> nat \<Rightarrow> 's \<Rightarrow> bool" where
  "has_pages al u 0 s = True"
| "has_pages al u (Suc n) s =
     (case al s \<lparr>paddr = u, psize = PAGE_SIZE, pflags = 0\<rparr> of
        None \<Rightarrow> False
      | Some (s', p', r) \<Rightarrow> r = 0 \<and> has_pages al u n s')"

lemma has_pages_less: "has_pages al u (Suc n) s \<Longrightarrow> has_pages al u n s"
proof (induction n arbitrary: s)
  case (Suc n)
  obtain s' p' where s': "al s \<lparr>paddr = u, psize = PAGE_SIZE, pflags = 0\<rparr> = Some (s', p', 0)" "has_pages al u (Suc n) s'"
    using Suc.prems by (subst (asm) has_pages.simps) (auto split: option.splits)
  show ?case using s'(1) Suc.IH[OF s'(2)] by simp
qed simp

lemma pgalloc_state:
  assumes "pgalloc u st = Some (st', a)" "has_pages (pa_alloc (uu_allocator st)) u (Suc n) (pa_state st)"
  shows "has_pages (pa_alloc (uu_allocator st)) u n (pa_state st')"
  using assms by (auto simp: pgalloc_def alloc_pages_def Let_def split: option.splits if_splits)

text \<open>The frame lies in a block that the allocator has handed out.\<close>

definition in_blocks :: "(nat \<times> nat) set \<Rightarrow> u32 \<Rightarrow> bool" where
  "in_blocks B g \<longleftrightarrow> (\<exists>b\<in>B. {unat g ..< unat g + 4096} \<subseteq> span b)"

definition pd_owned :: "(nat \<times> nat) set \<Rightarrow> vmem \<Rightarrow> u32 \<Rightarrow> bool" where
  "pd_owned B m f \<longleftrightarrow> in_blocks B f \<and> (\<forall>va. present (pde_at m f va) \<longrightarrow> in_blocks B (PTE_ADDR (pde_at m f va)))"

lemma in_blocks_mono: "in_blocks B g \<Longrightarrow> B \<subseteq> B' \<Longrightarrow> in_blocks B' g"
  by (auto simp: in_blocks_def)

lemma in_blocks_apart: "in_blocks B g \<Longrightarrow> (\<And>b. b \<in> B \<Longrightarrow> {unat h ..< unat h + 4096} \<inter> span b = {}) \<Longrightarrow> g \<noteq> h"
  unfolding in_blocks_def by force

text \<open>The entry for a new page table.\<close>

lemma table_entry:
  assumes "page_ok t"
  shows "PTE_ADDR (t OR PTE_P OR PTE_W OR PTE_U) = t" "present (t OR PTE_P OR PTE_W OR PTE_U)"
proof -
  have "PGROUNDDOWN t = t" using assms by (intro unsigned_word_eqI[where 'a = nat]) (auto simp: unat_PGROUNDDOWN page_ok_def)
  then have t: "t AND NOT (mask 12) = t" by (simp add: PGROUNDDOWN_eq)
  have "PTE_ADDR (t OR PTE_P OR PTE_W OR PTE_U) = (t AND NOT (mask 12)) OR ((PTE_P OR PTE_W OR PTE_U) AND NOT (mask 12))"
    by (simp add: PTE_ADDR_def mask_constants bit.conj_disj_distrib2 or.assoc)
  also have "(PTE_P OR PTE_W OR PTE_U) AND NOT (mask 12) = 0" by (simp add: pte_flag_defs mask_eq_exp_minus_1)
  finally show "PTE_ADDR (t OR PTE_P OR PTE_W OR PTE_U) = t" using t by simp
  have "bit (t OR PTE_P OR PTE_W OR PTE_U) 0" by (simp add: bit_simps pte_flag_defs)
  then have "bit ((t OR PTE_P OR PTE_W OR PTE_U) AND PTE_P) 0" by (simp add: bit_simps pte_flag_defs)
  then show "present (t OR PTE_P OR PTE_W OR PTE_U)" unfolding present_def by (metis bit_0_eq bot_apply bot_bool_def)
qed

lemma unat_low: "page_ok g \<Longrightarrow> unat k < 1024 \<Longrightarrow> unat (g + 4 * k) = unat g + 4 * unat k"
proof -
  assume a: "page_ok g" "unat k < 1024"
  then have "unat (4 * k) = 4 * unat k" by (simp add: unat_word_ariths)
  then show ?thesis using a by (subst unat_plus_small) (auto simp: page_ok_def)
qed

lemma postmap_low: "page_ok g \<Longrightarrow> unat k < 1024 \<Longrightarrow> postmap_addr (g + 4 * k) = pw g k"
  using unat_low[of g k]
  by (simp add: postmap_addr_def uu_postmap_addr_def pw_def word_le_nat_alt KERN_BASE_def page_ok_def)

lemma postmap_page: "page_ok g \<Longrightarrow> postmap_addr g = g + KERN_BASE" "page_ok g \<Longrightarrow> premap_addr g = g"
  using postmap_low[of g 0] by (auto simp: pw_def premap_addr_def page_ok_def word_le_nat_alt KERN_BASE_def)

context frame_provider
begin

definition can_alloc :: "u64 \<Rightarrow> nat \<Rightarrow> 'a pmm \<Rightarrow> u32 \<Rightarrow> bool" where
  "can_alloc u n st f \<longleftrightarrow> has_pages palloc u n (pa_state st) \<and> pd_owned (pblocks (pa_state st)) (kmem st) f"

lemma has_pages_succeeds:
  assumes "uses st" "has_pages palloc u (Suc n) (pa_state st)"
  shows "pgalloc u st \<noteq> Some (st', -1)"
proof
  assume p: "pgalloc u st = Some (st', -1)"
  let ?p = "\<lparr>paddr = u, psize = PAGE_SIZE, pflags = 0\<rparr>"
  have al: "pa_alloc (uu_allocator st) = palloc" "pinv (pa_state st)" using assms(1) by (auto simp: uses_def)
  obtain s' p' where r: "palloc (pa_state st) ?p = Some (s', p', 0)"
    using assms(2) by (auto split: option.splits)
  then have "paddr p' = -1" using p al(1) by (auto simp: pgalloc_def alloc_pages_def Let_def split: option.splits if_splits)
  moreover have "unat (paddr p') \<le> 2 ^ 32" using palloc_answers[OF al(2), of ?p] r by auto
  ultimately show False by (simp add: unsigned_minus_1_eq_mask mask_eq_exp_minus_1)
qed

text \<open>
  The walk to an entry, with the allocation of the table if need be: it leads to the word of
  the entry and maps nothing else.
\<close>

lemma walk_step:
  assumes st: "uses st" "pd_wf (kmem st) f" and can: "present (pde_at (kmem st) f va) \<or> can_alloc u (Suc n) st f"
  obtains st' p where "walkpgdir u st (f + KERN_BASE) va True = Some (st', p)" "uses st'" "pd_wf (kmem st') f" "p \<noteq> 0"
    "present (pde_at (kmem st') f va)" "postmap_addr p = pw (PTE_ADDR (pde_at (kmem st') f va)) (PTX va)"
    "\<And>va'. pte_of (kmem st') f va' = pte_of (kmem st) f va'"
    "\<And>va'. present (pde_at (kmem st) f va') \<Longrightarrow> present (pde_at (kmem st') f va')"
    "can_alloc u (Suc n) st f \<Longrightarrow> can_alloc u n st' f"
proof (cases "present (pde_at (kmem st) f va)")
  case True
  let ?t = "PTE_ADDR (pde_at (kmem st) f va)"
  have t: "page_ok ?t" "page_ok f" using st(2) True by (auto simp: pd_wf_def)
  have run: "walkpgdir u st (f + KERN_BASE) va True = Some (st, pw ?t (PTX va))"
    using True t(2) by (simp add: walkpgdir_def Let_def vload_def present_def postmap_page[OF t(1)] pw_def[symmetric])
  have "unat (pw ?t (PTX va)) \<noteq> 0" using unat_pw[OF t(1), of "PTX va"] by simp
  then have nz: "pw ?t (PTX va) \<noteq> 0" by auto
  show ?thesis using t by (intro that[OF run st nz True]) (auto simp: can_alloc_def has_pages_less)
next
  case False
  then have can: "can_alloc u (Suc n) st f" using can by simp
  have f: "page_ok f" using st(2) by (simp add: pd_wf_def)
  from st(1) show ?thesis
  proof (cases rule: pgalloc_frame[of _ u])
    case (Failed st')
    then show ?thesis using can has_pages_succeeds[OF st(1)] by (auto simp: can_alloc_def)
  next
    case (Frame st1 a)
    define t where "t = (ucast a :: u32)"
    have ut: "unat t = unat a" using Frame(6) by (simp add: t_def unsigned_ucast_eq take_bit_nat_eq_self)
    have t: "page_ok t" "t \<noteq> 0" using Frame(4-6) ut by (auto simp: page_ok_def)
    have own: "pd_owned (pblocks (pa_state st)) (kmem st) f" using can by (simp add: can_alloc_def)
    have apart: "g \<noteq> t" if "in_blocks (pblocks (pa_state st)) g" for g
      using in_blocks_apart[OF that, of t] Frame(7) ut by simp
    let ?e = "t OR PTE_P OR PTE_W OR PTE_U"
    let ?m = "store32 (memset (kmem st) (t + KERN_BASE) 0 4096) (pw f (PDX va)) ?e"
    have new: "pde_at ?m f va' = (if PDX va' = PDX va then ?e else pde_at (kmem st) f va')" "pd_wf ?m f"
      "pte_of ?m f va' = pte_of (kmem st) f va'" for va'
      by (rule new_table[OF st(2) False t(1) _ _ table_entry[OF t(1)] refl],
          use own apart in \<open>auto simp: pd_owned_def\<close>)+
    have "walkpgdir u st (f + KERN_BASE) va True = Some (st1\<lparr>kmem := ?m\<rparr>, t + 4 * PTX va)"
      using False Frame(1,3) t f
      by (simp add: walkpgdir_def Let_def vload_def vstore_def vclear_page_def present_def t_def[symmetric]
          pw_def[symmetric] postmap_page PGSIZE_def)
    then show ?thesis
    proof (rule that)
      have "unat (t + 4 * PTX va) \<noteq> 0" using unat_low[OF t(1), of "PTX va"] t(2) by (simp add: unat_eq_0)
      then show "t + 4 * PTX va \<noteq> 0" by (simp only: unat_eq_0 simp_thms)
      show "uses (st1\<lparr>kmem := ?m\<rparr>)" using Frame(2) by (simp add: uses_def)
      have "has_pages palloc u n (pa_state st1)"
        using pgalloc_state[OF Frame(1)] can st(1) by (auto simp: can_alloc_def uses_def)
      moreover have "in_blocks (pblocks (pa_state st1)) t" using Frame(9) ut by (simp add: in_blocks_def)
      then have "pd_owned (pblocks (pa_state st1)) ?m f"
        using own in_blocks_mono[OF _ Frame(8)] table_entry[OF t(1)] unfolding pd_owned_def new by simp
      ultimately show "can_alloc u n (st1\<lparr>kmem := ?m\<rparr>) f" by (simp add: can_alloc_def)
    qed (use new t table_entry[OF t(1)] in \<open>auto simp: postmap_low\<close>)
  qed
qed

text \<open>The walk to an entry and a store there.\<close>

lemma walk_store:
  assumes "uses st" "pd_wf (kmem st) f" "present (pde_at (kmem st) f va) \<or> can_alloc u (Suc n) st f"
  obtains st' p where "walkpgdir u st (f + KERN_BASE) va True = Some (st', p)" "p \<noteq> 0"
    "pte_of (kmem st) f va = (if present (vload (kmem st') p) then Some (vload (kmem st') p) else None)"
    "\<And>v. uses (st'\<lparr>kmem := vstore (kmem st') p v\<rparr>)" "\<And>v. pd_wf (vstore (kmem st') p v) f"
    "\<And>v va'. pte_of (vstore (kmem st') p v) f va' =
       (if PGROUNDDOWN va' = PGROUNDDOWN va then if present v then Some v else None else pte_of (kmem st) f va')"
    "\<And>v va'. present (pde_at (kmem st) f va') \<Longrightarrow> present (pde_at (vstore (kmem st') p v) f va')"
    "\<And>v. can_alloc u (Suc n) st f \<Longrightarrow> can_alloc u n (st'\<lparr>kmem := vstore (kmem st') p v\<rparr>) f"
proof -
  from assms obtain st' p where w: "walkpgdir u st (f + KERN_BASE) va True = Some (st', p)" "uses st'"
    "pd_wf (kmem st') f" "p \<noteq> 0"
    "present (pde_at (kmem st') f va)" "postmap_addr p = pw (PTE_ADDR (pde_at (kmem st') f va)) (PTX va)"
    "\<And>va'. pte_of (kmem st') f va' = pte_of (kmem st) f va'"
    "\<And>va'. present (pde_at (kmem st) f va') \<Longrightarrow> present (pde_at (kmem st') f va')"
    "can_alloc u (Suc n) st f \<Longrightarrow> can_alloc u n st' f" by (rule walk_step) blast
  have v: "vstore (kmem st') p v = store32 (kmem st') (pw (PTE_ADDR (pde_at (kmem st') f va)) (PTX va)) v" for v
    by (simp add: vstore_def w(6))
  note s = pte_store[OF w(3,5) refl, folded v]
  show ?thesis
  proof (rule that[OF w(1,4)])
    show "pte_of (kmem st) f va = (if present (vload (kmem st') p) then Some (vload (kmem st') p) else None)"
      using w(5) w(7)[of va, symmetric] by (simp add: pte_of_def[of "kmem st'"] vload_def w(6) Let_def)
    show "can_alloc u n (st'\<lparr>kmem := vstore (kmem st') p v\<rparr>) f" if "can_alloc u (Suc n) st f" for v
      using w(9)[OF that] by (simp add: can_alloc_def pd_owned_def s(1))
  qed (use w s in \<open>auto simp: uses_def\<close>)
qed

text \<open>One turn of the loops of \<^verbatim>\<open>map_pages\<close> and \<^verbatim>\<open>set_pages_perm\<close>.\<close>

lemma map_pages_turn:
  assumes "uses st" "pd_wf (kmem st) f" "present (pde_at (kmem st) f a) \<or> can_alloc u (Suc n) st f"
    and "pte_of (kmem st) f a = None" "unat a mod 4096 = 0"
  obtains st' where "\<And>lst. map_pages_loop u st (f + KERN_BASE) a lst pa flags =
      (if a = lst then Some (Done (st', 0)) else map_pages_loop u st' (f + KERN_BASE) (a + 4096) lst (pa + 4096) flags)"
    "uses st'" "pd_wf (kmem st') f"
    "\<And>va. pte_of (kmem st') f va =
       (if unat a \<le> unat va \<and> unat va < unat a + 4096 then Some (pte_value pa flags) else pte_of (kmem st) f va)"
    "\<And>va. present (pde_at (kmem st) f va) \<Longrightarrow> present (pde_at (kmem st') f va)"
    "can_alloc u (Suc n) st f \<Longrightarrow> can_alloc u n st' f"
  using assms(1,2,3)
proof (rule walk_store)
  fix st' p
  assume w: "walkpgdir u st (f + KERN_BASE) a True = Some (st', p)" "p \<noteq> 0"
    "pte_of (kmem st) f a = (if present (vload (kmem st') p) then Some (vload (kmem st') p) else None)"
    "\<And>v. uses (st'\<lparr>kmem := vstore (kmem st') p v\<rparr>)" "\<And>v. pd_wf (vstore (kmem st') p v) f"
    "\<And>v va'. pte_of (vstore (kmem st') p v) f va' =
       (if PGROUNDDOWN va' = PGROUNDDOWN a then if present v then Some v else None else pte_of (kmem st) f va')"
    "\<And>v va'. present (pde_at (kmem st) f va') \<Longrightarrow> present (pde_at (vstore (kmem st') p v) f va')"
    "\<And>v. can_alloc u (Suc n) st f \<Longrightarrow> can_alloc u n (st'\<lparr>kmem := vstore (kmem st') p v\<rparr>) f"
  let ?st = "st'\<lparr>kmem := vstore (kmem st') p (pte_value pa flags)\<rparr>"
  have np: "\<not> present (vload (kmem st') p)" using w(3) assms(4) by (auto split: if_splits)
  show thesis
  proof (rule that[of ?st])
    show "map_pages_loop u st (f + KERN_BASE) a lst pa flags = (if a = lst then Some (Done (?st, 0))
      else map_pages_loop u ?st (f + KERN_BASE) (a + 4096) lst (pa + 4096) flags)" for lst
      using w(1,2) np by (subst map_pages_loop.simps) (simp add: present_def ucast_pte_value Let_def PGSIZE_def)
    show "pte_of (kmem ?st) f va =
       (if unat a \<le> unat va \<and> unat va < unat a + 4096 then Some (pte_value pa flags) else pte_of (kmem st) f va)" for va
      using page_window[OF assms(5), of va] by (simp add: w(6) present_pte_value)
  qed (use w(4-8) in auto)
qed

text \<open>The loop of \<^verbatim>\<open>map_pages\<close>: \<open>n + 1\<close> pages from \<open>a\<close> on.\<close>

lemma map_pages_loop_maps:
  assumes "uses st" "pd_wf (kmem st) f"
    and "\<And>i. i \<le> n \<Longrightarrow> pte_of (kmem st) f (a + of_nat (4096 * i)) = None"
    and "(\<forall>i\<le>n. present (pde_at (kmem st) f (a + of_nat (4096 * i)))) \<or> can_alloc u (Suc n) st f"
    and "unat a mod 4096 = 0" "unat a + 4096 * n < 2 ^ 32"
  shows "\<exists>st'. map_pages_loop u st (f + KERN_BASE) a (a + of_nat (4096 * n)) pa flags = Some (Done (st', 0)) \<and>
    uses st' \<and> pd_wf (kmem st') f \<and>
    (\<forall>va. pte_of (kmem st') f va =
       (if unat a \<le> unat va \<and> unat va < unat a + 4096 * Suc n
        then Some (pte_value (pa + of_nat (4096 * ((unat va - unat a) div 4096))) flags)
        else pte_of (kmem st) f va))"
  using assms
proof (induction n arbitrary: st a pa)
  case 0
  then have "present (pde_at (kmem st) f a) \<or> can_alloc u (Suc 0) st f" "pte_of (kmem st) f a = None"
    using "0.prems"(3)[of 0] by auto
  from "0.prems"(1,2) this "0.prems"(5) obtain st1
    where w: "\<And>lst. map_pages_loop u st (f + KERN_BASE) a lst pa flags =
      (if a = lst then Some (Done (st1, 0)) else map_pages_loop u st1 (f + KERN_BASE) (a + 4096) lst (pa + 4096) flags)"
    "uses st1" "pd_wf (kmem st1) f"
    "\<And>va. pte_of (kmem st1) f va =
       (if unat a \<le> unat va \<and> unat va < unat a + 4096 then Some (pte_value pa flags) else pte_of (kmem st) f va)"
    by (rule map_pages_turn) blast
  moreover have "(x - unat a) div 4096 = 0" if "x < unat a + 4096" for x using that by simp
  ultimately show ?case by (intro exI[of _ st1]) (auto simp: w(1))
next
  case (Suc n)
  have pres: "present (pde_at (kmem st) f a) \<or> can_alloc u (Suc (Suc n)) st f" "pte_of (kmem st) f a = None"
    using Suc.prems(3)[of 0] Suc.prems(4) by auto
  obtain st1 where w: "\<And>lst. map_pages_loop u st (f + KERN_BASE) a lst pa flags =
      (if a = lst then Some (Done (st1, 0)) else map_pages_loop u st1 (f + KERN_BASE) (a + 4096) lst (pa + 4096) flags)"
    "uses st1" "pd_wf (kmem st1) f"
    "\<And>va. pte_of (kmem st1) f va =
       (if unat a \<le> unat va \<and> unat va < unat a + 4096 then Some (pte_value pa flags) else pte_of (kmem st) f va)"
    "\<And>va. present (pde_at (kmem st) f va) \<Longrightarrow> present (pde_at (kmem st1) f va)"
    "can_alloc u (Suc (Suc n)) st f \<Longrightarrow> can_alloc u (Suc n) st1 f"
    by (rule map_pages_turn[OF Suc.prems(1,2) pres Suc.prems(5)]) blast
  have ua: "unat (a + 4096) = unat a + 4096" using Suc.prems(6) by (subst unat_plus_small) simp_all
  have nxt: "a + 4096 + of_nat (4096 * i) = a + of_nat (4096 * Suc i)" for i by simp
  have ui: "unat (a + of_nat (4096 * Suc i)) = unat a + 4096 * Suc i" if "i \<le> n" for i
    using Suc.prems(6) that by (intro unat_add_of_nat) simp
  have ne: "a \<noteq> a + 4096 + of_nat (4096 * n)" using ui[of n] unfolding nxt by auto
  have "\<exists>st'. map_pages_loop u st1 (f + KERN_BASE) (a + 4096) (a + 4096 + of_nat (4096 * n)) (pa + 4096) flags
       = Some (Done (st', 0)) \<and> uses st' \<and> pd_wf (kmem st') f \<and>
    (\<forall>va. pte_of (kmem st') f va = (if unat (a + 4096) \<le> unat va \<and> unat va < unat (a + 4096) + 4096 * Suc n
        then Some (pte_value (pa + 4096 + of_nat (4096 * ((unat va - unat (a + 4096)) div 4096))) flags)
        else pte_of (kmem st1) f va))"
  proof (rule Suc.IH)
    show "pte_of (kmem st1) f (a + 4096 + of_nat (4096 * i)) = None" if "i \<le> n" for i
      unfolding nxt using ui[OF that] Suc.prems(3)[of "Suc i"] that by (simp only: w(4)) simp
    show "(\<forall>i\<le>n. present (pde_at (kmem st1) f (a + 4096 + of_nat (4096 * i)))) \<or> can_alloc u (Suc n) st1 f"
      using Suc.prems(4) w(5,6) unfolding nxt by auto
  qed (use w(2,3) Suc.prems ua in auto)
  then show ?case unfolding ua nxt[symmetric] using w(1,4) ne by (auto simp: page_step add.assoc)
qed

text \<open>The pages of \<open>vaddr\<close> up to \<open>vaddr + sz - 1\<close> are mapped to the frames from \<open>pa\<close> on, and no other page.\<close>

lemma map_pages_maps:
  assumes "uses st" "pd_wf (kmem st) f" "0 < unat sz" "unat vaddr + unat sz \<le> 2 ^ 32"
    and a: "a = PGROUNDDOWN vaddr" and n: "n = (unat vaddr + unat sz - 1) div 4096 - unat vaddr div 4096"
    and "\<And>i. i \<le> n \<Longrightarrow> pte_of (kmem st) f (a + of_nat (4096 * i)) = None"
    and "(\<forall>i\<le>n. present (pde_at (kmem st) f (a + of_nat (4096 * i)))) \<or> can_alloc u (Suc n) st f"
  shows "\<exists>st'. map_pages u st (f + KERN_BASE) vaddr pa sz flags = Some (Done (st', 0)) \<and>
    uses st' \<and> pd_wf (kmem st') f \<and>
    (\<forall>va. pte_of (kmem st') f va =
       (if unat a \<le> unat va \<and> unat va < unat a + 4096 * Suc n
        then Some (pte_value (pa + of_nat (4096 * ((unat va - unat a) div 4096))) flags)
        else pte_of (kmem st) f va))"
proof -
  note r = round_range[OF assms(3,4) a n]
  from map_pages_loop_maps[OF assms(1,2,7,8) r(2,3)] show ?thesis
    by (simp add: map_pages_def Let_def r(1) a[symmetric])
qed

lemma map_pages_remap:
  assumes "uses st" "pd_wf (kmem st) f" "pte_of (kmem st) f (PGROUNDDOWN vaddr) = Some e"
  shows "map_pages u st (f + KERN_BASE) vaddr pa sz flags = Some Panic"
proof -
  let ?a = "PGROUNDDOWN vaddr"
  have "present (pde_at (kmem st) f ?a) \<or> can_alloc u (Suc 0) st f"
    using assms(3) by (auto simp: pte_of_def Let_def split: if_splits)
  from assms(1,2) this obtain st' p where w: "walkpgdir u st (f + KERN_BASE) ?a True = Some (st', p)" "p \<noteq> 0"
    "pte_of (kmem st) f ?a = (if present (vload (kmem st') p) then Some (vload (kmem st') p) else None)"
    by (rule walk_store)
  then have "present (vload (kmem st') p)" using assms(3) by (auto split: if_splits)
  then show ?thesis using w(1,2)
    by (simp add: map_pages_def Let_def map_pages_loop.simps[of u st] present_def)
qed

text \<open>The permissions of mapped pages.\<close>

lemma set_perm_turn:
  assumes "uses st" "pd_wf (kmem st) f" "pte_of (kmem st) f a = Some e" "unat a mod 4096 = 0"
  obtains st' where "\<And>lst. set_perm_loop u st (f + KERN_BASE) a lst flags =
      (if a = lst then Some (st', 0) else set_perm_loop u st' (f + KERN_BASE) (a + 4096) lst flags)"
    "uses st'" "pd_wf (kmem st') f"
    "\<And>va. pte_of (kmem st') f va =
       (if unat a \<le> unat va \<and> unat va < unat a + 4096 then set_flags flags (pte_of (kmem st) f va)
        else pte_of (kmem st) f va)"
proof -
  have pres: "present (pde_at (kmem st) f a) \<or> can_alloc u (Suc 0) st f"
    using assms(3) by (auto simp: pte_of_def Let_def split: if_splits)
  from assms(1,2) pres obtain st' p where w: "walkpgdir u st (f + KERN_BASE) a True = Some (st', p)" "p \<noteq> 0"
    "pte_of (kmem st) f a = (if present (vload (kmem st') p) then Some (vload (kmem st') p) else None)"
    "\<And>v. uses (st'\<lparr>kmem := vstore (kmem st') p v\<rparr>)" "\<And>v. pd_wf (vstore (kmem st') p v) f"
    "\<And>v va'. pte_of (vstore (kmem st') p v) f va' =
       (if PGROUNDDOWN va' = PGROUNDDOWN a then if present v then Some v else None else pte_of (kmem st) f va')"
    by (rule walk_store) blast
  let ?v = "(vload (kmem st') p AND 0xfffff000) OR flags"
  have twice: "vstore (vstore (kmem st') p x) p (vload (vstore (kmem st') p x) p OR flags) = vstore (kmem st') p (x OR flags)" for x
    by (simp add: vstore_def vload_def load32_store32 store32_store32)
  show ?thesis
  proof (rule that[of "st'\<lparr>kmem := vstore (kmem st') p ?v\<rparr>"])
    show "set_perm_loop u st (f + KERN_BASE) a lst flags = (if a = lst then Some (st'\<lparr>kmem := vstore (kmem st') p ?v\<rparr>, 0)
      else set_perm_loop u (st'\<lparr>kmem := vstore (kmem st') p ?v\<rparr>) (f + KERN_BASE) (a + 4096) lst flags)" for lst
      using w(1,2) by (subst set_perm_loop.simps) (simp add: Let_def PGSIZE_def twice)
    have e: "vload (kmem st') p = e" using w(3) assms(3) by (auto split: if_splits)
    have "pte_of (kmem st) f va = Some e" if "PGROUNDDOWN va = PGROUNDDOWN a" for va
      using that same_page[of va a] assms(3) by (simp add: pte_of_def)
    then show "pte_of (kmem (st'\<lparr>kmem := vstore (kmem st') p ?v\<rparr>)) f va =
       (if unat a \<le> unat va \<and> unat va < unat a + 4096 then set_flags flags (pte_of (kmem st) f va)
        else pte_of (kmem st) f va)" for va
      using page_window[OF assms(4), of va] by (simp add: w(6) e set_flags_def)
  qed (use w(4,5) in auto)
qed

lemma set_perm_loop_sets:
  assumes "uses st" "pd_wf (kmem st) f"
    and "\<And>i. i \<le> n \<Longrightarrow> pte_of (kmem st) f (a + of_nat (4096 * i)) \<noteq> None"
    and "unat a mod 4096 = 0" "unat a + 4096 * n < 2 ^ 32"
  shows "\<exists>st'. set_perm_loop u st (f + KERN_BASE) a (a + of_nat (4096 * n)) flags = Some (st', 0) \<and>
    uses st' \<and> pd_wf (kmem st') f \<and>
    (\<forall>va. pte_of (kmem st') f va =
       (if unat a \<le> unat va \<and> unat va < unat a + 4096 * Suc n then set_flags flags (pte_of (kmem st) f va)
        else pte_of (kmem st) f va))"
  using assms
proof (induction n arbitrary: st a)
  case 0
  then obtain e where "pte_of (kmem st) f a = Some e" using "0.prems"(3)[of 0] by auto
  from "0.prems"(1,2) this "0.prems"(4) obtain st1 where "\<And>lst. set_perm_loop u st (f + KERN_BASE) a lst flags =
      (if a = lst then Some (st1, 0) else set_perm_loop u st1 (f + KERN_BASE) (a + 4096) lst flags)"
    "uses st1" "pd_wf (kmem st1) f"
    "\<And>va. pte_of (kmem st1) f va =
       (if unat a \<le> unat va \<and> unat va < unat a + 4096 then set_flags flags (pte_of (kmem st) f va)
        else pte_of (kmem st) f va)" by (rule set_perm_turn) blast
  then show ?case by (intro exI[of _ st1]) simp
next
  case (Suc n)
  then obtain e where "pte_of (kmem st) f a = Some e" using Suc.prems(3)[of 0] by auto
  from Suc.prems(1,2) this Suc.prems(4) obtain st1 where w: "\<And>lst. set_perm_loop u st (f + KERN_BASE) a lst flags =
      (if a = lst then Some (st1, 0) else set_perm_loop u st1 (f + KERN_BASE) (a + 4096) lst flags)"
    "uses st1" "pd_wf (kmem st1) f"
    "\<And>va. pte_of (kmem st1) f va =
       (if unat a \<le> unat va \<and> unat va < unat a + 4096 then set_flags flags (pte_of (kmem st) f va)
        else pte_of (kmem st) f va)" by (rule set_perm_turn) blast
  have ua: "unat (a + 4096) = unat a + 4096" using Suc.prems(5) by (subst unat_plus_small) simp_all
  have nxt: "a + 4096 + of_nat (4096 * i) = a + of_nat (4096 * Suc i)" for i by simp
  have ui: "unat (a + of_nat (4096 * Suc i)) = unat a + 4096 * Suc i" if "i \<le> n" for i
    using Suc.prems(5) that by (intro unat_add_of_nat) simp
  have ne: "a \<noteq> a + 4096 + of_nat (4096 * n)" using ui[of n] unfolding nxt by auto
  have "\<exists>st'. set_perm_loop u st1 (f + KERN_BASE) (a + 4096) (a + 4096 + of_nat (4096 * n)) flags = Some (st', 0) \<and>
    uses st' \<and> pd_wf (kmem st') f \<and>
    (\<forall>va. pte_of (kmem st') f va = (if unat (a + 4096) \<le> unat va \<and> unat va < unat (a + 4096) + 4096 * Suc n
        then set_flags flags (pte_of (kmem st1) f va) else pte_of (kmem st1) f va))"
  proof (rule Suc.IH)
    show "pte_of (kmem st1) f (a + 4096 + of_nat (4096 * i)) \<noteq> None" if "i \<le> n" for i
      unfolding nxt using ui[OF that] Suc.prems(3)[of "Suc i"] that by (simp only: w(4)) simp
  qed (use w(2,3) Suc.prems ua in auto)
  then show ?case unfolding ua nxt[symmetric] using w(1,4) ne by auto
qed

lemma set_pages_perm_sets:
  assumes "uses st" "pd_wf (kmem st) f" "0 < unat sz" "unat vaddr + unat sz \<le> 2 ^ 32"
    and a: "a = PGROUNDDOWN vaddr" and n: "n = (unat vaddr + unat sz - 1) div 4096 - unat vaddr div 4096"
    and "\<And>i. i \<le> n \<Longrightarrow> pte_of (kmem st) f (a + of_nat (4096 * i)) \<noteq> None"
  shows "\<exists>st'. set_pages_perm u st (f + KERN_BASE) vaddr sz flags = Some (st', 0) \<and>
    uses st' \<and> pd_wf (kmem st') f \<and>
    (\<forall>va. pte_of (kmem st') f va =
       (if unat a \<le> unat va \<and> unat va < unat a + 4096 * Suc n then set_flags flags (pte_of (kmem st) f va)
        else pte_of (kmem st) f va))"
proof -
  note r = round_range[OF assms(3,4) a n]
  from set_perm_loop_sets[OF assms(1,2,7) r(2,3)] show ?thesis
    by (simp add: set_pages_perm_def Let_def r(1) a[symmetric])
qed

text \<open>A new index is empty.\<close>

lemma init_pgindex_empty:
  assumes "uses st" "has_pages palloc u (Suc n) (pa_state st)"
  obtains st' f where "init_pgindex u st = Some (st', f + KERN_BASE)" "uses st'" "pd_wf (kmem st') f"
    "\<And>va. pte_of (kmem st') f va = None" "can_alloc u n st' f"
  using assms(1)
proof (cases rule: pgalloc_frame[of _ u])
  case (Failed st')
  then show ?thesis using has_pages_succeeds[OF assms] by auto
next
  case (Frame st1 a)
  define f where "f = (ucast a :: u32)"
  have uf: "unat f = unat a" using Frame(6) by (simp add: f_def unsigned_ucast_eq take_bit_nat_eq_self)
  have f: "page_ok f" using Frame(4-6) uf by (auto simp: page_ok_def)
  let ?m = "memset (kmem st) (f + KERN_BASE) 0 4096"
  have "postmap_addr (f + KERN_BASE) = f + KERN_BASE" using postmap_pw[OF f, of 0] by (simp add: pw_def)
  then have run: "init_pgindex u st = Some (st1\<lparr>kmem := ?m\<rparr>, f + KERN_BASE)"
    using Frame(1,3) by (simp add: init_pgindex_def Let_def f_def[symmetric] vclear_page_def P2V_def PGSIZE_def)
  have pde: "pde_at ?m f va = 0" for va using f by (simp add: load_clear_pw)
  show ?thesis
  proof (rule that[OF run])
    show "pd_wf (kmem (st1\<lparr>kmem := ?m\<rparr>)) f" using f by (simp add: pd_wf_def pde present_def)
    show "pte_of (kmem (st1\<lparr>kmem := ?m\<rparr>)) f va = None" for va by (simp add: pte_of_def pde present_def)
    have "has_pages palloc u n (pa_state st1)" using pgalloc_state[OF Frame(1)] assms by (auto simp: uses_def)
    moreover have "in_blocks (pblocks (pa_state st1)) f" using Frame(9) uf by (simp add: in_blocks_def)
    ultimately show "can_alloc u n (st1\<lparr>kmem := ?m\<rparr>) f"
      by (simp add: can_alloc_def pd_owned_def pde) (simp add: present_def)
  qed (use Frame(2) in \<open>simp add: uses_def\<close>)
qed

end

section \<open>Clearing an index\<close>

lemma pgfree_page:
  assumes "\<And>s p. pa_free (uu_allocator st) s p \<noteq> None" "page_ok t"
  obtains st' where "pgfree st (ucast t) = Some st'" "kmem st' = memset (kmem st) (t + KERN_BASE) JUNKBYTE 4096"
    "uu_allocator st' = uu_allocator st"
proof -
  let ?p = "\<lparr>paddr = ucast t, psize = PAGE_SIZE, pflags = 0\<rparr>"
  have "ucast (ucast t :: u64) = t" by (rule bit_word_eqI) (simp add: bit_simps)
  then have m: "pmemset (kmem st) (ucast t) JUNKBYTE 4096 = Some (memset (kmem st) (t + KERN_BASE) JUNKBYTE 4096)"
    by (simp add: pmemset.simps[of "kmem st"] pmemset.simps[of "memset m p b n" for m p b n] pa2kva_def)
  obtain s' p' where "pa_free (uu_allocator st) (pa_state st) ?p = Some (s', p')"
    using assms(1)[of "pa_state st" ?p] by auto
  then show ?thesis using m that by (simp add: pgfree_def free_pages_def Let_def)
qed

lemma clear_loop_zeroes:
  assumes "\<And>s p. pa_free (uu_allocator st) s p \<noteq> None" "page_ok f"
    and "\<And>k. k < 1024 \<Longrightarrow> present (load32 (kmem st) (pw f (of_nat k))) \<Longrightarrow>
      page_ok (PTE_ADDR (load32 (kmem st) (pw f (of_nat k)))) \<and> PTE_ADDR (load32 (kmem st) (pw f (of_nat k))) \<noteq> f"
    and "i + n \<le> 1024"
  shows "\<exists>st'. index_clear_loop n i st (f + KERN_BASE) = Some st' \<and> uu_allocator st' = uu_allocator st \<and>
    (\<forall>k<1024. load32 (kmem st') (pw f (of_nat k)) =
       (if i \<le> k \<and> k < i + n then 0 else load32 (kmem st) (pw f (of_nat k))))"
  using assms
proof (induction n arbitrary: i st)
  case (Suc n)
  let ?p = "pw f (of_nat i)" and ?v = "load32 (kmem st) (pw f (of_nat i))"
  have small: "unat (of_nat k :: u32) = k" "unat (of_nat k :: u32) < 1024" if "k < 1024" for k
    using that by (simp_all add: unat_word_of_nat_small)
  have inj: "(of_nat k :: u32) = of_nat k' \<longleftrightarrow> k = k'" if "k < 1024" "k' < 1024" for k k'
    using small(1)[OF that(1)] small(1)[OF that(2)] by metis
  have i: "i < 1024" using Suc.prems(4) by simp
  have "(0xfffff000 :: u32) = NOT 0xFFF" by simp
  then have addr: "?v AND 0xfffff000 = PTE_ADDR ?v" by (simp only: PTE_ADDR_def)
  obtain st1 where st1: "(if ?v AND PTE_P \<noteq> 0 \<and> ?v AND PTE_PS = 0 then pgfree st (ucast (?v AND 0xfffff000)) else Some st) = Some st1"
    "uu_allocator st1 = uu_allocator st"
    "\<And>k. k < 1024 \<Longrightarrow> load32 (kmem st1) (pw f (of_nat k)) = load32 (kmem st) (pw f (of_nat k))"
  proof (cases "?v AND PTE_P \<noteq> 0 \<and> ?v AND PTE_PS = 0")
    case True
    then have t: "page_ok (PTE_ADDR ?v)" "PTE_ADDR ?v \<noteq> f" using Suc.prems(3)[OF i] by (auto simp: present_def)
    obtain st' where "pgfree st (ucast (PTE_ADDR ?v)) = Some st'" "uu_allocator st' = uu_allocator st"
      "kmem st' = memset (kmem st) (PTE_ADDR ?v + KERN_BASE) JUNKBYTE 4096"
      using pgfree_page[OF Suc.prems(1) t(1)] by blast
    then show ?thesis using that[of st'] True t small(2) Suc.prems(2) by (simp add: addr load_memset_pw)
  qed (use that[of st] in auto)
  let ?st = "st1\<lparr>kmem := store32 (kmem st1) ?p 0\<rparr>"
  have upd: "load32 (store32 (kmem st1) ?p 0) (pw f (of_nat k)) = (if k = i then 0 else load32 (kmem st) (pw f (of_nat k)))" if "k < 1024" for k
    using that i Suc.prems(2) by (auto simp: load_store_pw small inj st1(3))
  have run: "index_clear_loop (Suc n) i st (f + KERN_BASE) = index_clear_loop n (Suc i) ?st (f + KERN_BASE)"
  proof -
    have "vload (kmem st) (f + KERN_BASE + 4 * of_nat i) = ?v" "vstore m (f + KERN_BASE + 4 * of_nat i) 0 = store32 m ?p 0" for m
      using postmap_pw[OF Suc.prems(2) small(2)[OF i]] by (simp_all add: vload_def vstore_def pw_def)
    then show ?thesis by (simp only: index_clear_loop.simps Let_def st1(1) option.case)
  qed
  have "\<exists>st'. index_clear_loop n (Suc i) ?st (f + KERN_BASE) = Some st' \<and> uu_allocator st' = uu_allocator ?st \<and>
    (\<forall>k<1024. load32 (kmem st') (pw f (of_nat k)) =
       (if Suc i \<le> k \<and> k < Suc i + n then 0 else load32 (kmem ?st) (pw f (of_nat k))))"
    by (rule Suc.IH) (use Suc.prems st1(2) in \<open>auto simp: upd present_def split: if_splits\<close>)
  then show ?case unfolding run using st1(2) by (auto simp: upd)
qed auto

lemma page_index_clear_empty:
  assumes "\<And>s p. pa_free (uu_allocator st) s p \<noteq> None" "pd_wf (kmem st) f"
  shows "\<exists>st'. page_index_clear st (f + KERN_BASE) = Some st' \<and> pd_wf (kmem st') f \<and> (\<forall>va. pte_of (kmem st') f va = None)"
proof -
  have f: "page_ok f" using assms(2) by (simp add: pd_wf_def)
  have "page_ok (PTE_ADDR (load32 (kmem st) (pw f (of_nat k)))) \<and> PTE_ADDR (load32 (kmem st) (pw f (of_nat k))) \<noteq> f"
    if "k < 1024" "present (load32 (kmem st) (pw f (of_nat k)))" for k
  proof -
    have "unat (of_nat k :: u32) = k" using that(1) by (intro unat_word_of_nat_small) simp
    then obtain va where "PDX va = of_nat k" using PDX_onto[of "of_nat k"] \<open>k < 1024\<close> by auto
    then show ?thesis using that(2) assms(2) by (metis pd_wf_def)
  qed
  from clear_loop_zeroes[OF assms(1) f this, of 0 1024] obtain st' where
    st': "page_index_clear st (f + KERN_BASE) = Some st'" "\<And>k. k < 1024 \<Longrightarrow> load32 (kmem st') (pw f (of_nat k)) = 0"
    by (auto simp: page_index_clear_def)
  have "pde_at (kmem st') f va = 0" for va using st'(2)[of "unat (PDX va)"] by simp
  then show ?thesis using st'(1) f by (auto simp: pd_wf_def pte_of_def present_def)
qed

section \<open>Control registers\<close>

text \<open>\<^verbatim>\<open>get_pgindex\<close> subtracts the offset again instead of adding it; with the kernel in the upper half this is the same.\<close>

lemma get_switch_pgindex: "get_pgindex (snd (switch_pgindex p s)) = p"
  by (simp add: get_pgindex_def switch_pgindex_def V2P_def KERN_BASE_def)

end
