(* ===== verification/SimpleAlloc.thy ===== *)
theory SimpleAlloc
  imports ArchMmu
begin

text \<open>
  The kernel heap of \<^verbatim>\<open>kern/mm/vmm/simple_alloc.c\<close>: size classes, pages that are cut into
  blocks of one class, and the free lists that run through the blocks themselves. The
  descriptors and headers are words of the memory of the page manager. \<open>None\<close> is a call
  without a defined result: an index outside \<^verbatim>\<open>sizes\<close> or a walk that does not end.
\<close>

section \<open>Data\<close>

definition MF_USED :: u32 where "MF_USED = 0xffaa0055"
definition MF_FREE :: u32 where "MF_FREE = 0x0055ffaa"
definition PAGE_MASK :: u32 where "PAGE_MASK = 0xfffff000"
definition MAX_KMALLOC_K :: u32 where "MAX_KMALLOC_K = 4"
definition MAX_GET_FREE_PAGE_TRIES :: nat where "MAX_GET_FREE_PAGE_TRIES = 4"

definition sizeof_block_header :: u32 where "sizeof_block_header = 8"
definition sizeof_page_descriptor :: u32 where "sizeof_page_descriptor = 16"

text \<open>\<^verbatim>\<open>struct block_header\<close>: the second word is the length of a used and the link of a free block.\<close>

definition bh_flags :: "u32 \<Rightarrow> u32" where "bh_flags p = p"
definition bh_vp :: "u32 \<Rightarrow> u32" where "bh_vp p = p + 4"

text \<open>\<^verbatim>\<open>struct page_descriptor\<close>.\<close>

definition pd_next :: "u32 \<Rightarrow> u32" where "pd_next p = p"
definition pd_firstfree :: "u32 \<Rightarrow> u32" where "pd_firstfree p = p + 4"
definition pd_order :: "u32 \<Rightarrow> u32" where "pd_order p = p + 8"
definition pd_nfree :: "u32 \<Rightarrow> u32" where "pd_nfree p = p + 12"

definition PAGE_DESC :: "u32 \<Rightarrow> u32" where "PAGE_DESC p = p AND PAGE_MASK"

record size_descriptor =
  firstfree :: u32
  sd_size :: int
  nblocks :: int
  nmallocs :: u32
  nfrees :: u32
  nbytesmalloced :: u32
  npages :: u32

definition size_class :: "int \<Rightarrow> int \<Rightarrow> size_descriptor" where
  "size_class s n = \<lparr>firstfree = 0, sd_size = s, nblocks = n, nmallocs = 0, nfrees = 0, nbytesmalloced = 0, npages = 0\<rparr>"

definition initial_sizes :: "size_descriptor list" where
  "initial_sizes = [size_class 32 127, size_class 64 63, size_class 128 31, size_class 252 16,
     size_class 508 8, size_class 1020 4, size_class 2040 2, size_class 4080 1, size_class 0 0]"

text \<open>The messages of \<^verbatim>\<open>kprintf\<close>.\<close>

datatype kmsg = Refuse u32 | Too_Large u32 | Not_Free u32 | No_Page
  | Not_Kmalloced u32 | Already_On_List u32 | Not_On_List u32

record 's heap =
  is_page_alloc_on :: bool
  tmp_mem_pt :: u32
  sizes :: "size_descriptor list"
  hpmm :: "'s pmm"
  klog :: "kmsg list"

abbreviation NBLOCKS :: "'s heap \<Rightarrow> nat \<Rightarrow> int" where "NBLOCKS h order \<equiv> nblocks (sizes h ! order)"
abbreviation BLOCKSIZE :: "'s heap \<Rightarrow> nat \<Rightarrow> int" where "BLOCKSIZE h order \<equiv> sd_size (sizes h ! order)"

abbreviation hload :: "'s heap \<Rightarrow> u32 \<Rightarrow> u32" where "hload h a \<equiv> vload (kmem (hpmm h)) a"

definition hstore :: "'s heap \<Rightarrow> u32 \<Rightarrow> u32 \<Rightarrow> 's heap" where
  "hstore h a v = h\<lparr>hpmm := (hpmm h)\<lparr>kmem := vstore (kmem (hpmm h)) a v\<rparr>\<rparr>"

definition set_sizes :: "'s heap \<Rightarrow> nat \<Rightarrow> (size_descriptor \<Rightarrow> size_descriptor) \<Rightarrow> 's heap" where
  "set_sizes h order f = h\<lparr>sizes := (sizes h)[order := f (sizes h ! order)]\<rparr>"

definition kprintf_msg :: "kmsg \<Rightarrow> 's heap \<Rightarrow> 's heap" where
  "kprintf_msg msg h = h\<lparr>klog := klog h @ [msg]\<rparr>"

section \<open>Initialisation\<close>

text \<open>The check of the classes from \<open>cs\<close> on; the table ends with a class of size 0.\<close>

fun bootstrap_check :: "size_descriptor list \<Rightarrow> unit outcome option" where
  "bootstrap_check [] = None"
| "bootstrap_check (c # cs) =
     (if sd_size c = 0 then Some (Done ())
      else if nblocks c * sd_size c + 16 > 4096 then Some Panic
      else bootstrap_check cs)"

definition simple_allocator_bootstrap :: "u32 \<Rightarrow> u32 \<Rightarrow> 's heap \<Rightarrow> ('s heap \<times> int) outcome option" where
  "simple_allocator_bootstrap pt sz h =
     (let h = h\<lparr>is_page_alloc_on := False, tmp_mem_pt := pt\<rparr>
      in case bootstrap_check (sizes h) of
           None \<Rightarrow> None
         | Some Panic \<Rightarrow> Some Panic
         | Some (Done _) \<Rightarrow> Some (Done (h, 0)))"

definition simple_allocator_init :: "'s heap \<Rightarrow> 's heap \<times> int" where
  "simple_allocator_init h = (h\<lparr>is_page_alloc_on := True\<rparr>, 0)"

section \<open>Allocation\<close>

fun get_order_loop :: "size_descriptor list \<Rightarrow> int \<Rightarrow> int \<Rightarrow> int option" where
  "get_order_loop [] order sz = None"
| "get_order_loop (c # cs) order sz =
     (if sd_size c = 0 then Some (-1) else if sz \<le> sd_size c then Some order else get_order_loop cs (order + 1) sz)"

definition get_order :: "'s heap \<Rightarrow> int \<Rightarrow> int option" where
  "get_order h sz = get_order_loop (sizes h) 0 (sz + uint sizeof_block_header)"

text \<open>The block \<open>p\<close> at the head of the free list of \<open>page\<close>.\<close>

definition take_block :: "nat \<Rightarrow> u32 \<Rightarrow> u32 \<Rightarrow> u32 \<Rightarrow> 's heap \<Rightarrow> 's heap \<times> u32" where
  "take_block order sz page p h =
     (if hload h (bh_flags p) = MF_FREE
      then let h = hstore h (pd_firstfree page) (hload h (bh_vp p));
               h = hstore h (pd_nfree page) (hload h (pd_nfree page) - 1);
               h = (if hload h (pd_nfree page) = 0
                    then let nxt = hload h (pd_next page);
                             h = set_sizes h order (\<lambda>c. c\<lparr>firstfree := nxt\<rparr>)
                         in hstore h (pd_next page) 0
                    else h);
               h = set_sizes h order (\<lambda>c. c\<lparr>nmallocs := nmallocs c + 1, nbytesmalloced := nbytesmalloced c + sz\<rparr>);
               h = hstore h (bh_flags p) MF_USED;
               h = hstore h (bh_vp p) sz
           in (h, p + sizeof_block_header)
      else (kprintf_msg (Not_Free p) h, 0))"

definition get_page :: "u64 \<Rightarrow> 's heap \<Rightarrow> ('s heap \<times> u32) option" where
  "get_page u h =
     (if \<not> is_page_alloc_on h then Some (h, tmp_mem_pt h)
      else case pgalloc u (hpmm h) of
             None \<Rightarrow> None
           | Some (st, pa) \<Rightarrow> Some (h\<lparr>hpmm := st\<rparr>, ucast pa))"

primrec cut_loop :: "nat \<Rightarrow> u32 \<Rightarrow> int \<Rightarrow> 's heap \<Rightarrow> 's heap \<times> u32" where
  "cut_loop 0 p sz h = (h, p)"
| "cut_loop (Suc n) p sz h =
     (let h = hstore h (bh_flags p) MF_FREE;
          h = hstore h (bh_vp p) (p + of_int sz)
      in cut_loop n (hload h (bh_vp p)) sz h)"

definition add_page :: "nat \<Rightarrow> u32 \<Rightarrow> 's heap \<Rightarrow> 's heap" where
  "add_page order page h =
     (let sz = BLOCKSIZE h order;
          h = set_sizes h order (\<lambda>c. c\<lparr>npages := npages c + 1\<rparr>);
          (h, p) = cut_loop (nat (NBLOCKS h order - 1)) (page + sizeof_page_descriptor) sz h;
          h = hstore h (bh_flags p) MF_FREE;
          h = hstore h (bh_vp p) 0;
          h = hstore h (pd_order page) (of_nat order);
          h = hstore h (pd_nfree page) (of_int (NBLOCKS h order));
          h = hstore h (pd_firstfree page) (page + sizeof_page_descriptor);
          h = hstore h (pd_next page) (firstfree (sizes h ! order))
      in set_sizes h order (\<lambda>c. c\<lparr>firstfree := page\<rparr>))"

primrec alloc_tries :: "nat \<Rightarrow> u64 \<Rightarrow> nat \<Rightarrow> u32 \<Rightarrow> 's heap \<Rightarrow> ('s heap \<times> u32) outcome option" where
  "alloc_tries 0 u order sz h = Some Panic"
| "alloc_tries (Suc tries) u order sz h =
     (let page = firstfree (sizes h ! order); p = hload h (pd_firstfree page)
      in if page \<noteq> 0 \<and> p \<noteq> 0 then Some (Done (take_block order sz page p h))
         else case get_page u h of
                None \<Rightarrow> None
              | Some (h, page) \<Rightarrow>
                  if page = 0 then Some (Done (kprintf_msg No_Page h, 0))
                  else alloc_tries tries u order sz (add_page order page h))"

definition simple_alloc :: "u64 \<Rightarrow> u32 \<Rightarrow> u32 \<Rightarrow> 's heap \<Rightarrow> ('s heap \<times> u32) outcome option" where
  "simple_alloc u sz priority h =
     (if sz > MAX_KMALLOC_K * 1024 then Some (Done (kprintf_msg (Refuse sz) h, 0))
      else case get_order h (uint sz) of
             None \<Rightarrow> None
           | Some order \<Rightarrow>
               if order < 0 then Some (Done (kprintf_msg (Too_Large sz) h, 0))
               else alloc_tries MAX_GET_FREE_PAGE_TRIES u (nat order) sz h)"

section \<open>Release\<close>

partial_function (option) find_prev :: "'s heap \<Rightarrow> u32 \<Rightarrow> u32 \<Rightarrow> u32 option" where
  "find_prev h pg2 page =
     (if pg2 \<noteq> 0 \<and> hload h (pd_next pg2) \<noteq> page then find_prev h (hload h (pd_next pg2)) page else Some pg2)"

definition unlink_page :: "nat \<Rightarrow> u32 \<Rightarrow> 's heap \<Rightarrow> 's heap option" where
  "unlink_page order page h =
     (if firstfree (sizes h ! order) = page
      then Some (set_sizes h order (\<lambda>c. c\<lparr>firstfree := hload h (pd_next page)\<rparr>))
      else case find_prev h (firstfree (sizes h ! order)) page of
             None \<Rightarrow> None
           | Some pg2 \<Rightarrow>
               if pg2 \<noteq> 0 then Some (hstore h (pd_next pg2) (hload h (pd_next page)))
               else Some (kprintf_msg (Not_On_List page) h))"

definition put_block :: "nat \<Rightarrow> u32 \<Rightarrow> u32 \<Rightarrow> 's heap \<Rightarrow> 's heap" where
  "put_block order page p h =
     (let h = hstore h (bh_flags p) MF_FREE;
          h = hstore h (bh_vp p) (hload h (pd_firstfree page));
          h = hstore h (pd_firstfree page) p;
          h = hstore h (pd_nfree page) (hload h (pd_nfree page) + 1)
      in if hload h (pd_nfree page) = 1
         then if hload h (pd_next page) \<noteq> 0 then kprintf_msg (Already_On_List page) h
              else let h = hstore h (pd_next page) (firstfree (sizes h ! order))
                   in set_sizes h order (\<lambda>c. c\<lparr>firstfree := page\<rparr>)
         else h)"

definition release_page :: "nat \<Rightarrow> u32 \<Rightarrow> 's heap \<Rightarrow> 's heap option" where
  "release_page order page h =
     (case unlink_page order page h of
        None \<Rightarrow> None
      | Some h \<Rightarrow>
          (case pgfree (hpmm h) (scast page) of
             None \<Rightarrow> None
           | Some st \<Rightarrow> Some (h\<lparr>hpmm := st\<rparr>)))"

definition simple_free :: "u32 \<Rightarrow> 's heap \<Rightarrow> 's heap option" where
  "simple_free ptr h =
     (if \<not> is_page_alloc_on h then Some h
      else let p = ptr - sizeof_block_header;
               page = PAGE_DESC p;
               order = sint (hload h (pd_order page))
           in if order < 0 \<or> order > int (length (sizes h)) \<or> hload h (pd_next page) AND NOT PAGE_MASK \<noteq> 0 \<or>
                 hload h (bh_flags p) \<noteq> MF_USED
              then Some (kprintf_msg (Not_Kmalloced p) h)
              else if nat order \<ge> length (sizes h) then None
              else let order = nat order;
                       sz = hload h (bh_vp p);
                       h = put_block order page p h
                   in case (if sint (hload h (pd_nfree page)) = NBLOCKS h (nat (sint (hload h (pd_order page))))
                            then release_page order page h else Some h) of
                        None \<Rightarrow> None
                      | Some h \<Rightarrow> Some (set_sizes h order
                          (\<lambda>c. c\<lparr>nfrees := nfrees c + 1, nbytesmalloced := nbytesmalloced c - sz\<rparr>)))"

definition simple_size :: "'s heap \<Rightarrow> u32 \<Rightarrow> u32" where
  "simple_size h obj = hload h (bh_vp obj)"

section \<open>Words of a page\<close>

lemmas field_defs = bh_flags_def bh_vp_def pd_next_def pd_firstfree_def pd_order_def pd_nfree_def
  sizeof_block_header_def sizeof_page_descriptor_def

lemma heap_access [simp]:
  "kmem (hpmm (hstore h a v)) = vstore (kmem (hpmm h)) a v" "sizes (hstore h a v) = sizes h"
  "hpmm (set_sizes h i f) = hpmm h" "sizes (set_sizes h i f) = (sizes h)[i := f (sizes h ! i)]"
  "hpmm (kprintf_msg msg h) = hpmm h" "sizes (kprintf_msg msg h) = sizes h"
  "is_page_alloc_on (hstore h a v) = is_page_alloc_on h" "is_page_alloc_on (set_sizes h i f) = is_page_alloc_on h"
  "tmp_mem_pt (hstore h a v) = tmp_mem_pt h" "tmp_mem_pt (set_sizes h i f) = tmp_mem_pt h"
  "klog (hstore h a v) = klog h" "klog (set_sizes h i f) = klog h"
  "pa_state (hpmm (hstore h a v)) = pa_state (hpmm h)" "uu_allocator (hpmm (hstore h a v)) = uu_allocator (hpmm h)"
  by (simp_all add: hstore_def set_sizes_def kprintf_msg_def)

abbreviation aligned_page :: "u32 \<Rightarrow> bool" where "aligned_page pg \<equiv> unat pg mod 4096 = 0"

lemma page_offset:
  assumes "aligned_page pg" "o1 < 4096"
  shows "unat (pg + of_nat o1) = unat pg + o1"
proof -
  obtain q where q: "unat pg = 4096 * q" using assms(1) by auto
  have "unat pg < 2 ^ 32" using unsigned_less[of pg, where 'a = nat] by simp
  then have "q < 1048576" using q by simp
  then have "unat pg + o1 < 2 ^ 32" using q assms(2) by simp
  then show ?thesis by (intro unat_add_of_nat) simp
qed

lemma postmap_offset:
  assumes "aligned_page pg" "o1 < 4096"
  shows "postmap_addr (pg + of_nat o1) = postmap_addr pg + of_nat o1"
proof -
  obtain q where q: "unat pg = 4096 * q" using assms(1) by auto
  have "KERN_BASE \<le> pg + of_nat o1 \<longleftrightarrow> KERN_BASE \<le> pg"
    unfolding word_le_nat_alt page_offset[OF assms] using q assms(2) by (simp add: KERN_BASE_def) linarith
  then show ?thesis by (simp add: postmap_addr_def uu_postmap_addr_def)
qed

lemma page_words:
  assumes pg: "aligned_page pg" and o1: "o1 < 4096" "o1 mod 4 = 0" and o2: "o2 < 4096" "o2 mod 4 = 0"
  shows "vload (vstore m (pg + of_nat o1) v) (pg + of_nat o2) = (if o1 = o2 then v else vload m (pg + of_nat o2))"
proof -
  let ?b = "postmap_addr pg"
  have b: "aligned_page ?b"
  proof (cases "KERN_BASE \<le> pg")
    case False
    then have "unat (pg + KERN_BASE) = unat pg + 2 ^ 31"
      by (subst unat_plus_small) (simp_all add: KERN_BASE_def word_le_nat_alt)
    moreover have "(unat pg + 2 ^ 31) mod 4096 = 0" using pg by (subst mod_add_eq[symmetric]) simp
    ultimately show ?thesis using False by (simp add: postmap_addr_def uu_postmap_addr_def)
  qed (simp add: postmap_addr_def pg)
  have four: "(x + y) mod 4 = 0" if "x mod 4096 = 0" "y mod 4 = 0" for x y :: nat
    using that by (auto elim!: dvdE)
  have "pg + of_nat o1 = pg + of_nat o2 \<longleftrightarrow> o1 = o2"
    using page_offset[OF pg o1(1)] page_offset[OF pg o2(1)] by (metis add_left_cancel)
  moreover have "unat (?b + of_nat o1) mod 4 = 0" "unat (?b + of_nat o2) mod 4 = 0"
    using page_offset[OF b o1(1)] page_offset[OF b o2(1)] four[OF b o1(2)] four[OF b o2(2)] by simp_all
  ultimately show ?thesis
    using load32_store32_other[of "?b + of_nat o1" "?b + of_nat o2"]
    by (auto simp: vload_def vstore_def postmap_offset[OF pg o1(1)] postmap_offset[OF pg o2(1)])
qed

text \<open>The word at the offset \<open>i\<close>, and the fields of the descriptor and of the headers as such words.\<close>

definition wd :: "u32 \<Rightarrow> nat \<Rightarrow> u32" where
  "wd pg i = pg + of_nat i"

lemma desc_wd: "pd_next pg = wd pg 0" "pd_firstfree pg = wd pg 4" "pd_order pg = wd pg 8" "pd_nfree pg = wd pg 12"
  by (simp_all add: field_defs wd_def)

lemma wd_words:
  "aligned_page pg \<Longrightarrow> i < 4096 \<Longrightarrow> i mod 4 = 0 \<Longrightarrow> j < 4096 \<Longrightarrow> j mod 4 = 0 \<Longrightarrow>
    vload (vstore m (wd pg i) v) (wd pg j) = (if i = j then v else vload m (wd pg j))"
  unfolding wd_def by (rule page_words)

section \<open>The free list of a page\<close>

text \<open>Block \<open>k\<close> of a page that is cut into blocks of \<open>sz\<close> bytes.\<close>

definition slot :: "u32 \<Rightarrow> nat \<Rightarrow> nat \<Rightarrow> u32" where
  "slot pg sz k = wd pg (16 + k * sz)"

lemma slot_wd: "bh_flags (slot pg sz k) = wd pg (16 + k * sz)" "bh_vp (slot pg sz k) = wd pg (20 + k * sz)"
  by (simp_all add: field_defs wd_def slot_def)

fun chain :: "vmem \<Rightarrow> u32 \<Rightarrow> nat \<Rightarrow> u32 \<Rightarrow> nat list \<Rightarrow> bool" where
  "chain m pg sz p [] \<longleftrightarrow> p = 0"
| "chain m pg sz p (k # ks) \<longleftrightarrow>
     p = slot pg sz k \<and> vload m (bh_flags p) = MF_FREE \<and> chain m pg sz (vload m (bh_vp p)) ks"

text \<open>The page \<open>pg\<close> of a class has the free blocks \<open>ks\<close>, in the order of its list.\<close>

definition slab :: "vmem \<Rightarrow> u32 \<Rightarrow> nat \<Rightarrow> nat \<Rightarrow> nat list \<Rightarrow> bool" where
  "slab m pg order sz ks \<longleftrightarrow> distinct ks \<and> chain m pg sz (vload m (pd_firstfree pg)) ks \<and>
     vload m (pd_order pg) = of_nat order \<and> vload m (pd_nfree pg) = of_nat (length ks)"

definition class_ok :: "nat \<Rightarrow> nat \<Rightarrow> bool" where
  "class_ok sz nb \<longleftrightarrow> 8 \<le> sz \<and> sz mod 4 = 0 \<and> 0 < nb \<and> 16 + nb * sz \<le> 4096"

lemma slot_offset:
  assumes "class_ok sz nb" "k < nb"
  shows "16 + k * sz < 4096" "20 + k * sz < 4096" "24 + k * sz \<le> 4096"
    "(16 + k * sz) mod 4 = 0" "(20 + k * sz) mod 4 = 0"
proof -
  have "Suc k * sz \<le> nb * sz" using assms(2) by (intro mult_le_mono1) simp
  then show "16 + k * sz < 4096" "20 + k * sz < 4096" "24 + k * sz \<le> 4096" using assms(1) by (auto simp: class_ok_def)
  obtain q where "sz = 4 * q" using assms(1) by (auto simp: class_ok_def elim!: dvdE)
  then have "16 + k * sz = 4 * (4 + k * q)" "20 + k * sz = 4 * (5 + k * q)" by simp_all
  then show "(16 + k * sz) mod 4 = 0" "(20 + k * sz) mod 4 = 0" by (simp_all only: mod_mult_self1_is_0)
qed

lemma slot_apart:
  assumes "class_ok sz nb" "k \<noteq> k'"
  shows "16 + k * sz \<noteq> 20 + k' * sz" "k * sz \<noteq> k' * sz"
proof -
  have sz: "8 \<le> sz" using assms(1) by (simp add: class_ok_def)
  have "Suc a * sz \<le> b * sz" if "a < b" for a b using that by (intro mult_le_mono1) simp
  from this[of k k'] this[of k' k] show "16 + k * sz \<noteq> 20 + k' * sz" "k * sz \<noteq> k' * sz"
    using assms(2) sz by (auto simp: neq_iff)
qed

lemma chain_store:
  assumes "aligned_page pg" "class_ok sz nb" "set ks \<subseteq> {..<nb}" "i < 4096" "i mod 4 = 0"
    and "\<And>k. k \<in> set ks \<Longrightarrow> i \<noteq> 16 + k * sz \<and> i \<noteq> 20 + k * sz"
  shows "chain (vstore m (wd pg i) v) pg sz p ks = chain m pg sz p ks"
  using assms(3,6)
proof (induction ks arbitrary: p)
  case (Cons k ks)
  then have "k < nb" by simp
  note o = slot_offset[OF assms(2) this]
  have ih: "chain (vstore m (wd pg i) v) pg sz p ks = chain m pg sz p ks" for p using Cons by simp
  have i: "i \<noteq> 16 + k * sz" "i \<noteq> 20 + k * sz" using Cons.prems(2)[of k] by auto
  show ?case
  proof (cases "p = slot pg sz k")
    case True
    have "vload (vstore m (wd pg i) v) (wd pg (16 + k * sz)) = vload m (wd pg (16 + k * sz))"
      "vload (vstore m (wd pg i) v) (wd pg (20 + k * sz)) = vload m (wd pg (20 + k * sz))"
      using wd_words[OF assms(1,4,5) o(1,4)] wd_words[OF assms(1,4,5) o(2,5)] i by (simp_all only: if_False)
    then show ?thesis unfolding True chain.simps slot_wd ih by (simp only:)
  qed simp
qed simp

lemma slot_not_0:
  assumes "aligned_page pg" "class_ok sz nb" "k < nb"
  shows "slot pg sz k \<noteq> 0"
proof -
  have "unat (slot pg sz k) = unat pg + (16 + k * sz)"
    unfolding slot_def wd_def using slot_offset(1)[OF assms(2,3)] by (rule page_offset[OF assms(1)])
  then show ?thesis by auto
qed

text \<open>Taking a block removes the head of the list, putting one back adds it in front.\<close>

lemma class_blocks: "class_ok sz nb \<Longrightarrow> nb < 4096"
proof -
  assume c: "class_ok sz nb"
  then have "nb * 8 \<le> nb * sz" by (intro mult_le_mono2) (simp add: class_ok_def)
  then show ?thesis using c unfolding class_ok_def by linarith
qed

lemma chain_other_block:
  assumes "aligned_page pg" "class_ok sz nb" "set ks \<subseteq> {..<nb}" "k < nb" "k \<notin> set ks"
  shows "chain (vstore m (wd pg (16 + k * sz)) v) pg sz p ks = chain m pg sz p ks"
    "chain (vstore m (wd pg (20 + k * sz)) v) pg sz p ks = chain m pg sz p ks"
proof -
  note o = slot_offset[OF assms(2,4)]
  have ne: "16 + k * sz \<noteq> 16 + k' * sz" "16 + k * sz \<noteq> 20 + k' * sz" "20 + k * sz \<noteq> 16 + k' * sz" "20 + k * sz \<noteq> 20 + k' * sz"
    if "k' \<in> set ks" for k'
  proof -
    have "k \<noteq> k'" using that assms(5) by auto
    then show "16 + k * sz \<noteq> 16 + k' * sz" "16 + k * sz \<noteq> 20 + k' * sz" "20 + k * sz \<noteq> 16 + k' * sz" "20 + k * sz \<noteq> 20 + k' * sz"
      using slot_apart[OF assms(2), of k k'] slot_apart[OF assms(2), of k' k] by auto
  qed
  show "chain (vstore m (wd pg (16 + k * sz)) v) pg sz p ks = chain m pg sz p ks"
    by (rule chain_store[OF assms(1-3) o(1,4)]) (use ne in blast)
  show "chain (vstore m (wd pg (20 + k * sz)) v) pg sz p ks = chain m pg sz p ks"
    by (rule chain_store[OF assms(1-3) o(2,5)]) (use ne in blast)
qed

lemma chain_descriptor:
  assumes "aligned_page pg" "class_ok sz nb" "set ks \<subseteq> {..<nb}" "i \<in> {0, 4, 8, 12}"
  shows "chain (vstore m (wd pg i) v) pg sz p ks = chain m pg sz p ks"
  by (rule chain_store[OF assms(1-3)]) (use assms(4) in auto)

lemma take_block_pops:
  assumes pg: "aligned_page pg" and cl: "class_ok sz nb" and ks: "set (k # ks) \<subseteq> {..<nb}"
    and slab: "slab (kmem (hpmm h)) pg order sz (k # ks)" and p: "p = hload h (pd_firstfree pg)"
    and order: "order < length (sizes h)"
  shows "snd (take_block order n pg p h) = slot pg sz k + 8"
    "slab (kmem (hpmm (fst (take_block order n pg p h)))) pg order sz ks"
    "hload (fst (take_block order n pg p h)) (bh_flags (slot pg sz k)) = MF_USED"
    "hload (fst (take_block order n pg p h)) (bh_vp (slot pg sz k)) = n"
    "firstfree (sizes (fst (take_block order n pg p h)) ! order) =
       (if ks = [] then hload h (pd_next pg) else firstfree (sizes h ! order))"
proof -
  have k: "k < nb" "k \<notin> set ks" "distinct ks" "set ks \<subseteq> {..<nb}" using ks slab by (auto simp: slab_def)
  note o = slot_offset[OF cl k(1)]
  let ?m = "kmem (hpmm h)" and ?f = "wd pg (16 + k * sz)" and ?v = "wd pg (20 + k * sz)"
  have head: "p = slot pg sz k" "vload ?m ?f = MF_FREE" "chain ?m pg sz (vload ?m ?v) ks"
    using slab p by (auto simp: slab_def slot_wd)
  have nf: "vload ?m (wd pg 12) - 1 = of_nat (length ks)" "vload ?m (wd pg 8) = of_nat order"
    using slab by (simp_all add: slab_def desc_wd)
  have "length (k # ks) \<le> nb" using card_mono[OF _ ks] k by (simp add: distinct_card)
  then have "length ks < 4096" using class_blocks[OF cl] by simp
  then have nf0: "of_nat (length ks) = (0 :: u32) \<longleftrightarrow> ks = []" by (simp add: word_unat_eq_iff unat_word_of_nat_small)
  have nf1: "vload ?m (wd pg 12) = 1 \<longleftrightarrow> ks = []" unfolding nf0[symmetric] nf(1)[symmetric] by simp
  define m where "m = vstore (vstore (let m = vstore (vstore ?m (wd pg 4) (vload ?m ?v)) (wd pg 12) (of_nat (length ks))
     in if ks = [] then vstore m (wd pg 0) 0 else m) ?f MF_USED) ?v n"
  note r = take_block_def Let_def head(1) slot_wd desc_wd wd_words[OF pg] o head(2) nf nf0 nf1
  have m: "kmem (hpmm (fst (take_block order n pg p h))) = m" by (simp add: r m_def)
  show "snd (take_block order n pg p h) = slot pg sz k + 8"
    by (simp add: take_block_def Let_def head(1) slot_wd head(2) sizeof_block_header_def)
  show "hload (fst (take_block order n pg p h)) (bh_flags (slot pg sz k)) = MF_USED"
    unfolding m by (simp add: m_def slot_wd wd_words[OF pg] o)
  show "hload (fst (take_block order n pg p h)) (bh_vp (slot pg sz k)) = n"
    unfolding m by (simp add: m_def slot_wd wd_words[OF pg] o)
  have "chain m pg sz p' ks = chain ?m pg sz p' ks" for p'
    by (simp add: m_def Let_def chain_other_block[OF pg cl k(4,1,2)] chain_descriptor[OF pg cl k(4)])
  moreover have "vload m (wd pg 4) = vload ?m ?v" "vload m (wd pg 8) = of_nat order" "vload m (wd pg 12) = of_nat (length ks)"
    by (simp_all add: m_def Let_def wd_words[OF pg] o nf)
  ultimately show "slab (kmem (hpmm (fst (take_block order n pg p h)))) pg order sz ks"
    unfolding m slab_def desc_wd using k(3) head(3) by simp
  show "firstfree (sizes (fst (take_block order n pg p h)) ! order) =
       (if ks = [] then hload h (pd_next pg) else firstfree (sizes h ! order))"
    using order by (simp add: r)
qed

lemma put_block_pushes:
  assumes pg: "aligned_page pg" and cl: "class_ok sz nb" and ks: "set (k # ks) \<subseteq> {..<nb}" "k \<notin> set ks"
    and slab: "slab (kmem (hpmm h)) pg order sz ks" and order: "order < length (sizes h)"
  shows "slab (kmem (hpmm (put_block order pg (slot pg sz k) h))) pg order sz (k # ks)"
    "firstfree (sizes (put_block order pg (slot pg sz k) h) ! order) =
       (if ks = [] \<and> hload h (pd_next pg) = 0 then pg else firstfree (sizes h ! order))"
    "is_page_alloc_on (put_block order pg (slot pg sz k) h) = is_page_alloc_on h"
    "length (sizes (put_block order pg (slot pg sz k) h)) = length (sizes h)"
    "sd_size (sizes (put_block order pg (slot pg sz k) h) ! order) = sd_size (sizes h ! order)"
    "nblocks (sizes (put_block order pg (slot pg sz k) h) ! order) = nblocks (sizes h ! order)"
proof -
  have k: "k < nb" "set ks \<subseteq> {..<nb}" "distinct ks" using ks slab by (auto simp: slab_def)
  note o = slot_offset[OF cl k(1)]
  let ?m = "kmem (hpmm h)" and ?f = "wd pg (16 + k * sz)" and ?v = "wd pg (20 + k * sz)" and ?h = "put_block order pg (slot pg sz k) h"
  have ch: "chain ?m pg sz (vload ?m (wd pg 4)) ks" and od: "vload ?m (wd pg 8) = of_nat order"
    and nf: "vload ?m (wd pg 12) + 1 = of_nat (length (k # ks))"
    using slab by (simp_all add: slab_def desc_wd)
  have "length (k # ks) \<le> nb" using card_mono[OF _ ks(1)] k ks(2) by (simp add: distinct_card)
  then have "length (k # ks) < 4096" using class_blocks[OF cl] by simp
  then have nf1: "of_nat (length (k # ks)) = (1 :: u32) \<longleftrightarrow> ks = []"
    by (simp add: word_unat_eq_iff unat_word_of_nat_small del: of_nat_Suc)
  then have nf0: "vload ?m (wd pg 12) = 0 \<longleftrightarrow> ks = []" unfolding nf[symmetric] by simp
  define m where "m = (let m = vstore (vstore (vstore (vstore ?m ?f MF_FREE) ?v (vload ?m (wd pg 4))) (wd pg 4) (slot pg sz k))
       (wd pg 12) (of_nat (length (k # ks)))
     in if ks = [] \<and> vload ?m (wd pg 0) = 0 then vstore m (wd pg 0) (firstfree (sizes h ! order)) else m)"
  note r = put_block_def Let_def slot_wd desc_wd wd_words[OF pg] o nf nf0 nf1
  have m: "kmem (hpmm ?h) = m" by (simp add: r m_def)
  have "chain m pg sz p' ks = chain ?m pg sz p' ks" for p'
    by (simp add: m_def Let_def chain_other_block[OF pg cl k(2,1) ks(2)] chain_descriptor[OF pg cl k(2)])
  moreover have "vload m (wd pg 4) = slot pg sz k" "vload m (wd pg 8) = of_nat order" "vload m (wd pg 12) = of_nat (length (k # ks))"
    "vload m ?f = MF_FREE" "vload m ?v = vload ?m (wd pg 4)"
    by (simp_all add: m_def Let_def wd_words[OF pg] o od)
  ultimately show "slab (kmem (hpmm ?h)) pg order sz (k # ks)"
    unfolding m slab_def desc_wd using k(3) ks(2) ch by (simp add: slot_wd)
  show "firstfree (sizes ?h ! order) = (if ks = [] \<and> hload h (pd_next pg) = 0 then pg else firstfree (sizes h ! order))"
    "is_page_alloc_on ?h = is_page_alloc_on h" "length (sizes ?h) = length (sizes h)"
    "sd_size (sizes ?h ! order) = sd_size (sizes h ! order)" "nblocks (sizes ?h ! order) = nblocks (sizes h ! order)"
    using order by (auto simp: r kprintf_msg_def)
qed

section \<open>A new page\<close>

lemma cut_loop_cuts:
  assumes pg: "aligned_page pg" and cl: "class_ok sz nb" and "j + n < nb"
  shows "\<exists>h'. cut_loop n (slot pg sz j) (int sz) h = (h', slot pg sz (j + n)) \<and> sizes h' = sizes h \<and>
    (\<forall>t\<in>{j..<j + n}. hload h' (wd pg (16 + t * sz)) = MF_FREE \<and> hload h' (wd pg (20 + t * sz)) = slot pg sz (Suc t)) \<and>
    (\<forall>i<16 + j * sz. i mod 4 = 0 \<longrightarrow> hload h' (wd pg i) = hload h (wd pg i))"
  using assms(3)
proof (induction n arbitrary: j h)
  case (Suc n)
  let ?f = "wd pg (16 + j * sz)" and ?v = "wd pg (20 + j * sz)"
  have j: "j < nb" using Suc.prems by simp
  note o = slot_offset[OF cl j]
  have sz: "8 \<le> sz" using cl by (simp add: class_ok_def)
  have nxt: "slot pg sz j + of_int (int sz) = slot pg sz (Suc j)" by (simp add: slot_def wd_def)
  let ?h = "hstore (hstore h ?f MF_FREE) ?v (slot pg sz (Suc j))"
  have run: "cut_loop (Suc n) (slot pg sz j) (int sz) h = cut_loop n (slot pg sz (Suc j)) (int sz) ?h"
    unfolding cut_loop.simps Let_def slot_wd nxt by (simp add: wd_words[OF pg] o)
  have here: "hload ?h ?f = MF_FREE" "hload ?h ?v = slot pg sz (Suc j)" by (simp_all add: wd_words[OF pg] o)
  have n: "Suc j + n < nb" using Suc.prems by simp
  obtain h' where h': "cut_loop n (slot pg sz (Suc j)) (int sz) ?h = (h', slot pg sz (Suc j + n))" "sizes h' = sizes h"
    "\<And>t. t \<in> {Suc j..<Suc j + n} \<Longrightarrow> hload h' (wd pg (16 + t * sz)) = MF_FREE \<and> hload h' (wd pg (20 + t * sz)) = slot pg sz (Suc t)"
    "\<And>i. i < 16 + Suc j * sz \<Longrightarrow> i mod 4 = 0 \<Longrightarrow> hload h' (wd pg i) = hload ?h (wd pg i)"
    using Suc.IH[OF n, of ?h] by auto
  have below: "16 + j * sz < 16 + Suc j * sz" "20 + j * sz < 16 + Suc j * sz" using sz by simp_all
  have "hload h' (wd pg (16 + t * sz)) = MF_FREE \<and> hload h' (wd pg (20 + t * sz)) = slot pg sz (Suc t)"
    if "t \<in> {j..<j + Suc n}" for t
    using h'(3)[of t] h'(4)[OF below(1) o(4)] h'(4)[OF below(2) o(5)] here that by (cases "t = j") auto
  moreover have "hload h' (wd pg i) = hload h (wd pg i)" if "i < 16 + j * sz" "i mod 4 = 0" for i
  proof -
    have "i < 4096" "i \<noteq> 16 + j * sz" "i \<noteq> 20 + j * sz" using that o by auto
    then show ?thesis using h'(4)[of i] that by (simp add: wd_words[OF pg] o)
  qed
  ultimately show ?case unfolding run using h'(1,2) by (intro exI[of _ h']) simp
qed simp

lemma chain_all:
  assumes "\<And>t. j \<le> t \<Longrightarrow> t < nb \<Longrightarrow> vload m (wd pg (16 + t * sz)) = MF_FREE"
    and "\<And>t. j \<le> t \<Longrightarrow> t < nb \<Longrightarrow> vload m (wd pg (20 + t * sz)) = (if Suc t < nb then slot pg sz (Suc t) else 0)"
    and "j < nb"
  shows "chain m pg sz (slot pg sz j) [j..<nb]"
  using assms
proof (induction "nb - j" arbitrary: j)
  case (Suc d)
  have "[j..<nb] = j # [Suc j..<nb]" using Suc.prems(3) by (rule upt_conv_Cons)
  moreover have "chain m pg sz (if Suc j < nb then slot pg sz (Suc j) else 0) [Suc j..<nb]"
    using Suc.hyps(1)[of "Suc j"] Suc.hyps(2) Suc.prems by auto
  ultimately show ?case using Suc.prems by (simp add: slot_wd)
qed simp

lemma add_page_slab:
  assumes pg: "aligned_page pg" and cl: "class_ok sz nb" and order: "order < length (sizes h)"
    and c: "sd_size (sizes h ! order) = int sz" "nblocks (sizes h ! order) = int nb"
  shows "slab (kmem (hpmm (add_page order pg h))) pg order sz [0..<nb]"
    "hload (add_page order pg h) (pd_next pg) = firstfree (sizes h ! order)"
    "firstfree (sizes (add_page order pg h) ! order) = pg" "length (sizes (add_page order pg h)) = length (sizes h)"
proof -
  obtain l where nb: "nb = Suc l" using cl by (auto simp: class_ok_def gr0_conv_Suc)
  define h0 where "h0 = set_sizes h order (\<lambda>c. c\<lparr>npages := npages c + 1\<rparr>)"
  have n: "0 + l < nb" "nat (int nb - 1) = l" using nb by auto
  obtain h1 where h1: "cut_loop l (slot pg sz 0) (int sz) h0 = (h1, slot pg sz l)" "sizes h1 = sizes h0"
    "\<And>t. t < l \<Longrightarrow> hload h1 (wd pg (16 + t * sz)) = MF_FREE \<and> hload h1 (wd pg (20 + t * sz)) = slot pg sz (Suc t)"
    using cut_loop_cuts[OF pg cl n(1), of h0] by auto
  have l: "l < nb" by (simp add: nb)
  note o = slot_offset[OF cl l]
  let ?f = "wd pg (16 + l * sz)" and ?v = "wd pg (20 + l * sz)"
  define m where "m = vstore (vstore (vstore (vstore (vstore (vstore (kmem (hpmm h1)) ?f MF_FREE) ?v 0)
     (wd pg 8) (of_nat order)) (wd pg 12) (of_nat nb)) (wd pg 4) (slot pg sz 0)) (wd pg 0) (firstfree (sizes h ! order))"
  have h0: "sizes h0 ! order = (sizes h ! order)\<lparr>npages := npages (sizes h ! order) + 1\<rparr>" "length (sizes h0) = length (sizes h)"
    using order by (simp_all add: h0_def)
  have first: "pg + 16 = slot pg sz 0" by (simp add: slot_def wd_def)
  have run: "add_page order pg h = set_sizes (hstore (hstore (hstore (hstore (hstore (hstore h1 ?f MF_FREE) ?v 0)
     (wd pg 8) (of_nat order)) (wd pg 12) (of_nat nb)) (wd pg 4) (slot pg sz 0)) (wd pg 0) (firstfree (sizes h ! order)))
     order (\<lambda>c. c\<lparr>firstfree := pg\<rparr>)"
    unfolding add_page_def h0_def[symmetric] Let_def sizeof_page_descriptor_def first
    using h1(1,2) by (simp add: c h0 n(2) slot_wd desc_wd)
  then have m: "kmem (hpmm (add_page order pg h)) = m" by (simp add: m_def)
  have free: "vload m (wd pg (16 + t * sz)) = MF_FREE" "vload m (wd pg (20 + t * sz)) = (if Suc t < nb then slot pg sz (Suc t) else 0)"
    if "t < nb" for t
  proof -
    note ot = slot_offset[OF cl that]
    show "vload m (wd pg (16 + t * sz)) = MF_FREE"
      using h1(3)[of t] that slot_apart[OF cl, of t "l"] ot
      by (cases "t = l") (auto simp: m_def wd_words[OF pg] o nb)
    show "vload m (wd pg (20 + t * sz)) = (if Suc t < nb then slot pg sz (Suc t) else 0)"
      using h1(3)[of t] that slot_apart[OF cl, of "l" t] ot
      by (cases "t = l") (auto simp: m_def wd_words[OF pg] o nb)
  qed
  have "vload m (wd pg 4) = slot pg sz 0" "vload m (wd pg 8) = of_nat order" "vload m (wd pg 12) = of_nat nb"
    by (simp_all add: m_def wd_words[OF pg] o)
  then show "slab (kmem (hpmm (add_page order pg h))) pg order sz [0..<nb]"
    using chain_all[of 0 nb m pg sz] free nb unfolding m slab_def desc_wd by simp
  show "hload (add_page order pg h) (pd_next pg) = firstfree (sizes h ! order)"
    unfolding m desc_wd by (simp add: m_def wd_words[OF pg] o)
  show "firstfree (sizes (add_page order pg h) ! order) = pg" "length (sizes (add_page order pg h)) = length (sizes h)"
    unfolding run using order h1(2) h0(2) by simp_all
qed

section \<open>The size classes\<close>

text \<open>The operations change the counters and the lists of the table, not its classes.\<close>

definition classes :: "'s heap \<Rightarrow> (int \<times> int) list" where
  "classes h = map (\<lambda>c. (sd_size c, nblocks c)) (sizes h)"

definition classes_ok :: "'s heap \<Rightarrow> bool" where
  "classes_ok h \<longleftrightarrow> classes h = map (\<lambda>c. (sd_size c, nblocks c)) initial_sizes"

definition class_size :: "nat \<Rightarrow> nat" where
  "class_size order = [32, 64, 128, 252, 508, 1020, 2040, 4080] ! order"

definition class_blocks_of :: "nat \<Rightarrow> nat" where
  "class_blocks_of order = [127, 63, 31, 16, 8, 4, 2, 1] ! order"

lemma get_order_loop_classes:
  "map sd_size cs = map sd_size cs' \<Longrightarrow> get_order_loop cs i s = get_order_loop cs' i s"
proof (induction cs arbitrary: cs' i)
  case (Cons c cs)
  then obtain c' cs'' where "cs' = c' # cs''" "sd_size c = sd_size c'" "map sd_size cs = map sd_size cs''" by auto
  then show ?case using Cons.IH[of cs''] by simp
qed simp

lemma bootstrap_check_classes:
  "map (\<lambda>c. (sd_size c, nblocks c)) cs = map (\<lambda>c. (sd_size c, nblocks c)) cs' \<Longrightarrow> bootstrap_check cs = bootstrap_check cs'"
proof (induction cs arbitrary: cs')
  case (Cons c cs)
  then obtain c' cs'' where "cs' = c' # cs''" "sd_size c = sd_size c'" "nblocks c = nblocks c'"
    "map (\<lambda>c. (sd_size c, nblocks c)) cs = map (\<lambda>c. (sd_size c, nblocks c)) cs''" by auto
  then show ?case using Cons.IH[of cs''] by simp
qed simp

lemma bootstrap_accepts:
  assumes "classes_ok h"
  shows "simple_allocator_bootstrap pt sz h = Some (Done (h\<lparr>is_page_alloc_on := False, tmp_mem_pt := pt\<rparr>, 0))"
proof -
  have "bootstrap_check (sizes h) = bootstrap_check initial_sizes"
    using assms by (intro bootstrap_check_classes) (simp add: classes_ok_def classes_def)
  also have "\<dots> = Some (Done ())" by (simp add: initial_sizes_def size_class_def)
  finally show ?thesis by (simp add: simple_allocator_bootstrap_def)
qed

lemma same_order:
  assumes "classes_ok h" "classes_ok h'"
  shows "get_order h n = get_order h' n"
proof -
  have "map fst (classes h) = map fst (classes h')" using assms by (simp add: classes_ok_def)
  then have "map sd_size (sizes h) = map sd_size (sizes h')" by (simp add: classes_def o_def)
  then show ?thesis unfolding get_order_def by (intro get_order_loop_classes)
qed

lemma less_8: "(n :: nat) < 8 \<longleftrightarrow> n \<in> {0, 1, 2, 3, 4, 5, 6, 7}"
  by auto

lemma all_classes: "order < 8 \<Longrightarrow> class_ok (class_size order) (class_blocks_of order)"
  by (auto simp: less_8 class_ok_def class_size_def class_blocks_of_def)

lemma classes_nth:
  assumes "classes_ok h"
  shows "length (sizes h) = 9" "order < 8 \<Longrightarrow> sd_size (sizes h ! order) = int (class_size order)"
    "order < 8 \<Longrightarrow> nblocks (sizes h ! order) = int (class_blocks_of order)"
proof -
  show len: "length (sizes h) = 9"
    using arg_cong[OF assms[unfolded classes_ok_def classes_def], of length] by (simp add: initial_sizes_def)
  have "(sd_size (sizes h ! order), nblocks (sizes h ! order)) =
      map (\<lambda>c. (sd_size c, nblocks c)) initial_sizes ! order" if "order < 9" for order
    using assms that len unfolding classes_ok_def classes_def by (metis (no_types, lifting) nth_map)
  from this[of order]
  show "order < 8 \<Longrightarrow> sd_size (sizes h ! order) = int (class_size order)"
    "order < 8 \<Longrightarrow> nblocks (sizes h ! order) = int (class_blocks_of order)"
    by (auto simp: less_8 initial_sizes_def size_class_def class_size_def class_blocks_of_def)
qed

text \<open>The smallest class that holds the block with its header.\<close>

lemma get_order_fits:
  assumes "classes_ok h"
  obtains (None) "4072 < n" "get_order h n = Some (-1)"
  | (Class) order where "n \<le> 4072" "order < 8" "get_order h n = Some (int order)" "n + 8 \<le> int (class_size order)"
      "\<And>i. i < order \<Longrightarrow> int (class_size i) < n + 8"
proof -
  have "map sd_size (sizes h) = map sd_size initial_sizes"
    using arg_cong[OF assms[unfolded classes_ok_def classes_def], of "map fst"] by (simp add: o_def)
  from get_order_loop_classes[OF this] have run: "get_order h n = get_order_loop initial_sizes 0 (n + 8)"
    by (simp add: get_order_def sizeof_block_header_def)
  have steps: "get_order h n = Some (if n + 8 \<le> 32 then 0 else if n + 8 \<le> 64 then 1 else if n + 8 \<le> 128 then 2
      else if n + 8 \<le> 252 then 3 else if n + 8 \<le> 508 then 4 else if n + 8 \<le> 1020 then 5
      else if n + 8 \<le> 2040 then 6 else if n + 8 \<le> 4080 then 7 else -1)"
    unfolding run by (simp add: initial_sizes_def size_class_def)
  have cls: "class_size 0 = 32" "class_size 1 = 64" "class_size 2 = 128" "class_size 3 = 252" "class_size 4 = 508"
    "class_size 5 = 1020" "class_size 6 = 2040" "class_size 7 = 4080" by (simp_all add: class_size_def)
  show thesis
  proof (cases "4072 < n")
    case True
    then show ?thesis using that(1) steps by simp
  next
    case False
    then have top: "n + 8 \<le> int (class_size 7)" by (simp add: cls)
    define j where "j = (LEAST i. n + 8 \<le> int (class_size i))"
    have j: "n + 8 \<le> int (class_size j)" "j \<le> 7" unfolding j_def using top by (rule LeastI, rule Least_le)
    have below: "int (class_size i) < n + 8" if "i < j" for i
      using not_less_Least[OF that[unfolded j_def]] by simp
    have "get_order h n = Some (int j)"
    proof -
      have "j \<in> {0, 1, 2, 3, 4, 5, 6, 7}" using j(2) less_8[of j] by simp
      then show ?thesis unfolding steps using j(1) below[of "j - 1"] by (auto simp: class_size_def)
    qed
    then show ?thesis using that(2) False j below by simp
  qed
qed

section \<open>Allocation and release at work\<close>

lemma small_request: "uint sz \<le> 4072 \<Longrightarrow> \<not> sz > MAX_KMALLOC_K * 1024"
  by (simp add: MAX_KMALLOC_K_def word_less_def)

lemma simple_alloc_tries:
  assumes "classes_ok h" "uint sz \<le> 4072"
  obtains order where "order < 8" "uint sz + 8 \<le> int (class_size order)" "\<And>i. i < order \<Longrightarrow> int (class_size i) < uint sz + 8"
    "get_order h (uint sz) = Some (int order)"
    "\<And>u pr. simple_alloc u sz pr h = alloc_tries 4 u order sz h"
  using assms(1)
proof (cases rule: get_order_fits[where n = "uint sz"])
  case (Class order)
  then show ?thesis using that[of order] small_request[OF assms(2)]
    by (simp add: simple_alloc_def MAX_GET_FREE_PAGE_TRIES_def)
qed (use assms in simp)

lemma simple_alloc_refuses:
  assumes "classes_ok h" "4072 < uint sz"
  shows "\<exists>msg. simple_alloc u sz pr h = Some (Done (kprintf_msg msg h, 0))"
  using assms(1)
proof (cases rule: get_order_fits[where n = "uint sz"])
  case None
  then show ?thesis by (auto simp: simple_alloc_def)
qed (use assms in simp)

text \<open>The list of the class is not empty.\<close>

lemma alloc_hit:
  assumes "firstfree (sizes h ! order) = pg" "pg \<noteq> 0" "aligned_page pg" "class_ok sz nb" "set (k # ks) \<subseteq> {..<nb}"
    and "slab (kmem (hpmm h)) pg order sz (k # ks)"
  shows "alloc_tries (Suc t) u order n h = Some (Done (take_block order n pg (hload h (pd_firstfree pg)) h))"
proof -
  have "hload h (pd_firstfree pg) = slot pg sz k" using assms(6) by (simp add: slab_def)
  moreover have "slot pg sz k \<noteq> 0" using assms(5) by (intro slot_not_0[OF assms(3,4)]) simp
  ultimately show ?thesis using assms(1,2) by (simp add: Let_def)
qed

lemma classes_set_sizes:
  assumes "\<And>c. sd_size (f c) = sd_size c \<and> nblocks (f c) = nblocks c"
  shows "classes (set_sizes h i f) = classes h"
proof (cases "i < length (sizes h)")
  case True
  then have "(sd_size (sizes h ! i), nblocks (sizes h ! i)) = map (\<lambda>c. (sd_size c, nblocks c)) (sizes h) ! i" by simp
  then show ?thesis using assms by (simp add: classes_def map_update)
qed (simp add: classes_def list_update_beyond)

lemma classes_steps [simp]: "classes (hstore h a v) = classes h" "classes (kprintf_msg msg h) = classes h"
  by (simp_all add: classes_def)

lemma classes_take_block: "classes (fst (take_block order n pg p h)) = classes h"
  by (simp add: take_block_def Let_def classes_set_sizes)

lemma take_block_others:
  "j \<noteq> order \<Longrightarrow> sizes (fst (take_block order n pg p h)) ! j = sizes h ! j"
  "is_page_alloc_on (fst (take_block order n pg p h)) = is_page_alloc_on h"
  "tmp_mem_pt (fst (take_block order n pg p h)) = tmp_mem_pt h"
  by (simp_all add: take_block_def Let_def kprintf_msg_def)

lemma cut_loop_others:
  "sizes (fst (cut_loop n p sz h)) = sizes h" "is_page_alloc_on (fst (cut_loop n p sz h)) = is_page_alloc_on h"
  "tmp_mem_pt (fst (cut_loop n p sz h)) = tmp_mem_pt h"
  by (induction n arbitrary: p h) (simp_all add: Let_def)

lemma add_page_others:
  "j \<noteq> order \<Longrightarrow> sizes (add_page order pg h) ! j = sizes h ! j" "classes (add_page order pg h) = classes h"
  "is_page_alloc_on (add_page order pg h) = is_page_alloc_on h" "tmp_mem_pt (add_page order pg h) = tmp_mem_pt h"
proof -
  let ?h = "set_sizes h order (\<lambda>c. c\<lparr>npages := npages c + 1\<rparr>)"
  obtain h1 p where run: "cut_loop (nat (NBLOCKS ?h order - 1)) (pg + sizeof_page_descriptor) (BLOCKSIZE h order) ?h = (h1, p)"
    by (cases "cut_loop (nat (NBLOCKS ?h order - 1)) (pg + sizeof_page_descriptor) (BLOCKSIZE h order) ?h")
  have h1: "sizes h1 = sizes ?h" "is_page_alloc_on h1 = is_page_alloc_on h" "tmp_mem_pt h1 = tmp_mem_pt h"
    using cut_loop_others[of "nat (NBLOCKS ?h order - 1)" "pg + sizeof_page_descriptor" "BLOCKSIZE h order" ?h] run by simp_all
  have "classes h1 = classes ?h" by (simp only: classes_def h1(1))
  then have "classes h1 = classes h" by (simp add: classes_set_sizes)
  then show "classes (add_page order pg h) = classes h"
    unfolding add_page_def Let_def run by (simp add: classes_set_sizes)
  show "j \<noteq> order \<Longrightarrow> sizes (add_page order pg h) ! j = sizes h ! j"
    "is_page_alloc_on (add_page order pg h) = is_page_alloc_on h" "tmp_mem_pt (add_page order pg h) = tmp_mem_pt h"
    unfolding add_page_def Let_def run by (simp_all add: h1)
qed

text \<open>The list is empty: a page is fetched, cut and used.\<close>

lemma alloc_miss:
  assumes cls: "classes_ok h" and order: "order < 8" and empty: "firstfree (sizes h ! order) = 0"
    and page: "get_page u h = Some (h', pg)" "pg \<noteq> 0" "aligned_page pg" "sizes h' = sizes h"
  shows "\<exists>h''. alloc_tries (Suc (Suc t)) u order n h = Some (Done (h'', pg + 24)) \<and>
    slab (kmem (hpmm h'')) pg order (class_size order) [1..<class_blocks_of order] \<and>
    hload h'' (bh_flags (pg + 16)) = MF_USED \<and> hload h'' (bh_vp (pg + 16)) = n \<and>
    firstfree (sizes h'' ! order) = (if class_blocks_of order = 1 then 0 else pg) \<and>
    (\<forall>j. j \<noteq> order \<longrightarrow> sizes h'' ! j = sizes h ! j) \<and> classes_ok h'' \<and>
    is_page_alloc_on h'' = is_page_alloc_on h' \<and> tmp_mem_pt h'' = tmp_mem_pt h'"
proof -
  let ?sz = "class_size order" and ?nb = "class_blocks_of order" and ?h = "add_page order pg h'"
  have len: "order < length (sizes h')" using classes_nth(1)[OF cls] order page(4) by simp
  have c: "sd_size (sizes h' ! order) = int ?sz" "nblocks (sizes h' ! order) = int ?nb"
    using classes_nth(2,3)[OF cls order] page(4) by simp_all
  note cl = all_classes[OF order]
  note a = add_page_slab[OF page(3) cl len c]
  have nb: "0 < ?nb" using cl by (simp add: class_ok_def)
  then have list: "[0..<?nb] = 0 # [1..<?nb]" by (simp add: upt_conv_Cons)
  have blocks: "set (0 # [1..<?nb]) \<subseteq> {..<?nb}" using nb by auto
  have slab: "slab (kmem (hpmm ?h)) pg order ?sz (0 # [1..<?nb])" using a(1) unfolding list .
  have run: "alloc_tries (Suc (Suc t)) u order n h = Some (Done (take_block order n pg (hload ?h (pd_firstfree pg)) ?h))"
    using alloc_hit[OF a(3) page(2,3) cl blocks slab, of t u n] page(1,2)
    by (subst alloc_tries.simps) (simp add: Let_def empty)
  have "order < length (sizes ?h)" using len a(4) by simp
  note t = take_block_pops[OF page(3) cl blocks slab refl this, of n]
  have first: "slot pg ?sz 0 = pg + 16" by (simp add: slot_def wd_def)
  show ?thesis
  proof (intro exI conjI)
    show "alloc_tries (Suc (Suc t)) u order n h =
        Some (Done (fst (take_block order n pg (hload ?h (pd_firstfree pg)) ?h), pg + 24))"
      unfolding run using t(1) by (simp add: first prod_eq_iff)
    show "firstfree (sizes (fst (take_block order n pg (hload ?h (pd_firstfree pg)) ?h)) ! order) =
        (if ?nb = 1 then 0 else pg)"
      using t(5) a(2,3) page(4) empty nb by auto
    have "classes h' = classes h" by (simp add: classes_def page(4))
    then show "classes_ok (fst (take_block order n pg (hload ?h (pd_firstfree pg)) ?h))"
      using cls by (simp add: classes_ok_def classes_take_block add_page_others)
  qed (use t(2-4) first page(4) in \<open>auto simp: take_block_others add_page_others\<close>)
qed

lemma PAGE_DESC_slot:
  assumes "aligned_page pg" "class_ok sz nb" "k < nb"
  shows "PAGE_DESC (slot pg sz k) = pg"
proof (rule unsigned_word_eqI[where 'a = nat])
  have "PAGE_MASK = NOT (mask 12)" by (simp add: PAGE_MASK_def mask_eq_exp_minus_1)
  then have "PAGE_DESC x = PGROUNDDOWN x" for x by (simp add: PAGE_DESC_def PGROUNDDOWN_eq)
  moreover have o: "16 + k * sz < 4096" by (rule slot_offset(1)[OF assms(2,3)])
  moreover have "unat (slot pg sz k) = unat pg + (16 + k * sz)" unfolding slot_def wd_def by (rule page_offset[OF assms(1) o])
  moreover obtain q where "unat pg = 4096 * q" using assms(1) by auto
  ultimately show "unat (PAGE_DESC (slot pg sz k)) = unat pg" by (simp add: unat_PGROUNDDOWN)
qed

lemma sint_of_nat_small: "n < 2 ^ 31 \<Longrightarrow> sint (of_nat n :: u32) = int n"
  by (simp add: signed_of_nat signed_take_bit_int_eq_self)

lemma simple_free_pushes:
  assumes on: "is_page_alloc_on h" and pg: "aligned_page pg" and cls: "classes_ok h" and order: "order < 8"
    and sz: "sz = class_size order" and k: "set (k # ks) \<subseteq> {..<class_blocks_of order}" "k \<notin> set ks"
    and slab: "slab (kmem (hpmm h)) pg order sz ks"
    and used: "hload h (bh_flags (slot pg sz k)) = MF_USED" and nxt: "hload h (pd_next pg) AND NOT PAGE_MASK = 0"
    and some_used: "Suc (length ks) < class_blocks_of order"
  shows "\<exists>h'. simple_free (slot pg sz k + 8) h = Some h' \<and> slab (kmem (hpmm h')) pg order sz (k # ks) \<and>
    firstfree (sizes h' ! order) = (if ks = [] \<and> hload h (pd_next pg) = 0 then pg else firstfree (sizes h ! order)) \<and>
    classes_ok h' \<and> is_page_alloc_on h'"
proof -
  note cl = all_classes[OF order, folded sz]
  have len: "length (sizes h) = 9" "order < length (sizes h)" using classes_nth(1)[OF cls] order by simp_all
  let ?h = "put_block order pg (slot pg sz k) h"
  note p = put_block_pushes[OF pg cl k slab len(2)]
  have "k < class_blocks_of order" using k by simp
  note desc = PAGE_DESC_slot[OF pg cl this]
  have order_word: "hload h (pd_order pg) = of_nat order" "hload ?h (pd_order pg) = of_nat order"
    "hload ?h (pd_nfree pg) = of_nat (Suc (length ks))" using slab p(1) by (simp_all add: slab_def)
  have order_int: "sint (of_nat order :: u32) = int order" using order by (intro sint_of_nat_small) simp
  have "class_blocks_of order < 4096" by (rule class_blocks[OF cl])
  then have nfree_int: "sint (of_nat (Suc (length ks)) :: u32) = int (Suc (length ks))"
    using some_used by (intro sint_of_nat_small) simp
  have cls': "classes ?h = classes h"
    by (simp add: put_block_def Let_def classes_set_sizes)
  have not_free: "int (Suc (length ks)) \<noteq> nblocks (sizes ?h ! order)" using p(6) classes_nth(3)[OF cls order] some_used by simp
  have run: "simple_free (slot pg sz k + 8) h = Some (set_sizes ?h order
      (\<lambda>c. c\<lparr>nfrees := nfrees c + 1, nbytesmalloced := nbytesmalloced c - hload h (bh_vp (slot pg sz k))\<rparr>))"
    using on desc used nxt len not_free order
    by (simp add: simple_free_def Let_def sizeof_block_header_def order_word order_int nfree_int del: of_nat_Suc)
  show ?thesis
    using run p(1,2,3,4) len cls cls' on by (auto simp: classes_ok_def classes_set_sizes)
qed

text \<open>A freed block is the next one of its class to be allocated.\<close>

lemma free_then_alloc:
  assumes on: "is_page_alloc_on h" and pg: "aligned_page pg" "pg \<noteq> 0" and cls: "classes_ok h"
    and req: "uint n \<le> 4072" "get_order h (uint n) = Some (int order)" "order < 8"
    and sz: "sz = class_size order" and k: "set (k # ks) \<subseteq> {..<class_blocks_of order}" "k \<notin> set ks"
    and slab: "slab (kmem (hpmm h)) pg order sz ks"
    and used: "hload h (bh_flags (slot pg sz k)) = MF_USED" and nxt: "hload h (pd_next pg) AND NOT PAGE_MASK = 0"
    and some_used: "Suc (length ks) < class_blocks_of order"
    and listed: "if ks = [] then hload h (pd_next pg) = 0 else firstfree (sizes h ! order) = pg"
  shows "\<exists>h' h''. simple_free (slot pg sz k + 8) h = Some h' \<and>
    simple_alloc u n pr h' = Some (Done (h'', slot pg sz k + 8)) \<and> slab (kmem (hpmm h'')) pg order sz ks"
proof -
  note cl = all_classes[OF req(3), folded sz]
  obtain h' where h': "simple_free (slot pg sz k + 8) h = Some h'" "slab (kmem (hpmm h')) pg order sz (k # ks)"
    "firstfree (sizes h' ! order) = pg" "classes_ok h'"
    using simple_free_pushes[OF on pg(1) cls req(3) sz k slab used nxt some_used] listed by (auto split: if_splits)
  obtain order' where order': "get_order h' (uint n) = Some (int order')" "simple_alloc u n pr h' = alloc_tries 4 u order' n h'"
    using simple_alloc_tries[OF h'(4) req(1)] by metis
  have "get_order h' (uint n) = get_order h (uint n)" by (rule same_order[OF h'(4) cls])
  then have run: "simple_alloc u n pr h' = alloc_tries (Suc 3) u order n h'" using order' req(2) by simp
  have len: "order < length (sizes h')" using classes_nth(1)[OF h'(4)] req(3) by simp
  note t = take_block_pops[OF pg(1) cl k(1) h'(2) refl len, of n]
  have "simple_alloc u n pr h' = Some (Done (fst (take_block order n pg (hload h' (pd_firstfree pg)) h'), slot pg sz k + 8))"
    unfolding run alloc_hit[OF h'(3) pg(2,1) cl k(1) h'(2)] using t(1) by (simp add: prod_eq_iff)
  then show ?thesis using h'(1) t(2) by blast
qed

text \<open>
  Before the page allocator is there the heap has one page, and every class cuts it anew: requests of
  two classes get the same address.
\<close>

lemma bootstrap_heap_overlap:
  assumes "classes_ok h" "\<not> is_page_alloc_on h" "tmp_mem_pt h = pg" "pg \<noteq> 0" "aligned_page pg"
    and "get_order h (uint n) = Some (int i)" "get_order h (uint n') = Some (int j)" "i < 8" "j < 8" "i \<noteq> j"
    and "firstfree (sizes h ! i) = 0" "firstfree (sizes h ! j) = 0"
    and small: "uint n \<le> 4072" "uint n' \<le> 4072"
  shows "\<exists>h1 h2. simple_alloc u n pr h = Some (Done (h1, pg + 24)) \<and> simple_alloc u n' pr h1 = Some (Done (h2, pg + 24))"
proof -
  have page: "get_page u h = Some (h, pg)" if "\<not> is_page_alloc_on h" "tmp_mem_pt h = pg" for h :: "'a heap"
    using that by (simp add: get_page_def)
  have run: "simple_alloc u n pr h = alloc_tries (Suc (Suc 2)) u i n h"
    if "classes_ok h" "get_order h (uint n) = Some (int i)" "uint n \<le> 4072" for h :: "'a heap" and n i
    using simple_alloc_tries[OF that(1,3)] that(2) by (metis add_2_eq_Suc numeral_Bit0 of_nat_eq_iff option.inject)
  obtain h1 where h1: "simple_alloc u n pr h = Some (Done (h1, pg + 24))" "\<And>k. k \<noteq> i \<Longrightarrow> sizes h1 ! k = sizes h ! k"
    "classes_ok h1" "\<not> is_page_alloc_on h1" "tmp_mem_pt h1 = pg"
    using alloc_miss[OF assms(1,8,11) page[OF assms(2,3)] assms(4,5), of 2 n] run[OF assms(1,6) small(1)] assms(2,3) by auto
  have "get_order h1 (uint n') = Some (int j)"
    using same_order[OF h1(3) assms(1)] assms(7) by simp
  moreover have "firstfree (sizes h1 ! j) = 0" using h1(2)[of j] assms(10,12) by auto
  ultimately show ?thesis
    using alloc_miss[OF h1(3) assms(9) _ page[OF h1(4,5)] assms(4,5), of 2 n'] run[OF h1(3) _ small(2)] h1(1) by auto
qed

end
