(* ===== verification/Vmm.thy ===== *)
theory Vmm
  imports SimpleAlloc
begin

text \<open>
  The allocator interfaces of \<^verbatim>\<open>kern/mm/vmm/vmm.c\<close> and \<^verbatim>\<open>include/aim/vmm.h\<close>: the registered
  simple allocator behind \<^verbatim>\<open>kmalloc\<close>, \<^verbatim>\<open>kfree\<close> and \<^verbatim>\<open>ksize\<close>, and the registered caching
  allocator behind the object caches. A null pointer argument is \<open>None\<close>.
\<close>

section \<open>The simple allocator\<close>

record 's simple_allocator =
  sa_alloc :: "u32 \<Rightarrow> u32 \<Rightarrow> 's heap \<Rightarrow> ('s heap \<times> u32) outcome option"
  sa_free :: "u32 \<Rightarrow> 's heap \<Rightarrow> 's heap option"
  sa_size :: "'s heap \<Rightarrow> u32 \<Rightarrow> u32"

definition uu_simple_alloc :: "u32 \<Rightarrow> u32 \<Rightarrow> 's heap \<Rightarrow> ('s heap \<times> u32) outcome option" where
  "uu_simple_alloc sz flags h = Some (Done (h, 0))"

definition uu_simple_free :: "u32 \<Rightarrow> 's heap \<Rightarrow> 's heap option" where
  "uu_simple_free obj h = Some h"

definition uu_simple_size :: "'s heap \<Rightarrow> u32 \<Rightarrow> u32" where
  "uu_simple_size h obj = 0"

definition uu_simple_allocator :: "'s simple_allocator" where
  "uu_simple_allocator = \<lparr>sa_alloc = uu_simple_alloc, sa_free = uu_simple_free, sa_size = uu_simple_size\<rparr>"

text \<open>The memory is zeroed also when the allocator has returned a null pointer.\<close>

definition vmemset :: "vmem \<Rightarrow> u32 \<Rightarrow> u8 \<Rightarrow> u32 \<Rightarrow> vmem" where
  "vmemset m p b n = memset m (postmap_addr p) b n"

definition hmemset :: "u32 \<Rightarrow> u8 \<Rightarrow> u32 \<Rightarrow> 's heap \<Rightarrow> 's heap" where
  "hmemset p b n h = h\<lparr>hpmm := (hpmm h)\<lparr>kmem := vmemset (kmem (hpmm h)) p b n\<rparr>\<rparr>"

definition kmalloc :: "'s simple_allocator \<Rightarrow> u32 \<Rightarrow> u32 \<Rightarrow> 's heap \<Rightarrow> ('s heap \<times> u32) outcome option" where
  "kmalloc sa sz flags h =
     (if sz > 4096 div 2 then Some Panic
      else case sa_alloc sa sz flags h of
             None \<Rightarrow> None
           | Some Panic \<Rightarrow> Some Panic
           | Some (Done (h, result)) \<Rightarrow>
               Some (Done (if flags AND GFP_ZERO \<noteq> 0 then hmemset result 0 sz h else h, result)))"

definition kcalloc :: "'s simple_allocator \<Rightarrow> u32 \<Rightarrow> u32 \<Rightarrow> u32 \<Rightarrow> 's heap \<Rightarrow> ('s heap \<times> u32) outcome option" where
  "kcalloc sa nmemb sz flags h =
     (case kmalloc sa (nmemb * sz) flags h of
        None \<Rightarrow> None
      | Some Panic \<Rightarrow> Some Panic
      | Some (Done (h, result)) \<Rightarrow> Some (Done (hmemset result 0 (nmemb * sz) h, result)))"

definition kfree :: "'s simple_allocator \<Rightarrow> u32 \<Rightarrow> 's heap \<Rightarrow> 's heap option" where
  "kfree sa obj h = (if obj \<noteq> 0 then sa_free sa obj h else Some h)"

definition ksize :: "'s simple_allocator \<Rightarrow> 's heap \<Rightarrow> u32 \<Rightarrow> u32" where
  "ksize sa h obj = (if obj \<noteq> 0 then sa_size sa h obj else 0)"

definition set_simple_allocator :: "'s simple_allocator option \<Rightarrow> 's simple_allocator \<Rightarrow> 's simple_allocator" where
  "set_simple_allocator allocator current = (case allocator of None \<Rightarrow> current | Some a \<Rightarrow> a)"

definition get_simple_allocator :: "'s simple_allocator option \<Rightarrow> 's simple_allocator \<Rightarrow> 's simple_allocator option" where
  "get_simple_allocator allocator current = (case allocator of None \<Rightarrow> None | Some _ \<Rightarrow> Some current)"

section \<open>The caching allocator\<close>

record allocator_cache =
  ac_head :: u32
  ac_size :: u32
  ac_align :: u32
  ac_flags :: u32
  create_obj :: u32
  destroy_obj :: u32

record 's caching_allocator =
  ca_create :: "allocator_cache \<Rightarrow> 's heap \<Rightarrow> allocator_cache \<times> 's heap \<times> int"
  ca_destroy :: "allocator_cache \<Rightarrow> 's heap \<Rightarrow> allocator_cache \<times> 's heap \<times> int"
  ca_alloc :: "allocator_cache \<Rightarrow> 's heap \<Rightarrow> allocator_cache \<times> 's heap \<times> u32"
  ca_free :: "allocator_cache \<Rightarrow> u32 \<Rightarrow> 's heap \<Rightarrow> allocator_cache \<times> 's heap \<times> int"
  ca_trim :: "allocator_cache \<Rightarrow> 's heap \<Rightarrow> allocator_cache \<times> 's heap"

definition uu_caching_create :: "allocator_cache \<Rightarrow> 's heap \<Rightarrow> allocator_cache \<times> 's heap \<times> int" where
  "uu_caching_create cache h = (cache, h, EOF)"

definition uu_caching_destroy :: "allocator_cache \<Rightarrow> 's heap \<Rightarrow> allocator_cache \<times> 's heap \<times> int" where
  "uu_caching_destroy cache h = (cache, h, EOF)"

definition uu_caching_alloc :: "allocator_cache \<Rightarrow> 's heap \<Rightarrow> allocator_cache \<times> 's heap \<times> u32" where
  "uu_caching_alloc cache h = (cache, h, 0)"

definition uu_caching_free :: "allocator_cache \<Rightarrow> u32 \<Rightarrow> 's heap \<Rightarrow> allocator_cache \<times> 's heap \<times> int" where
  "uu_caching_free cache obj h = (cache, h, EOF)"

definition uu_caching_trim :: "allocator_cache \<Rightarrow> 's heap \<Rightarrow> allocator_cache \<times> 's heap" where
  "uu_caching_trim cache h = (cache, h)"

definition uu_caching_allocator :: "'s caching_allocator" where
  "uu_caching_allocator = \<lparr>ca_create = uu_caching_create, ca_destroy = uu_caching_destroy,
     ca_alloc = uu_caching_alloc, ca_free = uu_caching_free, ca_trim = uu_caching_trim\<rparr>"

definition set_caching_allocator :: "'s caching_allocator option \<Rightarrow> 's caching_allocator \<Rightarrow> 's caching_allocator" where
  "set_caching_allocator allocator current = (case allocator of None \<Rightarrow> current | Some a \<Rightarrow> a)"

definition cache_create :: "'s caching_allocator \<Rightarrow> allocator_cache option \<Rightarrow> 's heap \<Rightarrow> allocator_cache option \<times> 's heap \<times> int" where
  "cache_create ca cache h = (case cache of
     None \<Rightarrow> (None, h, EOF)
   | Some c \<Rightarrow> let (c, h, r) = ca_create ca c h in (Some c, h, r))"

definition cache_destroy :: "'s caching_allocator \<Rightarrow> allocator_cache option \<Rightarrow> 's heap \<Rightarrow> allocator_cache option \<times> 's heap \<times> int" where
  "cache_destroy ca cache h = (case cache of
     None \<Rightarrow> (None, h, EOF)
   | Some c \<Rightarrow> let (c, h, r) = ca_destroy ca c h in (Some c, h, r))"

definition cache_alloc :: "'s caching_allocator \<Rightarrow> allocator_cache option \<Rightarrow> 's heap \<Rightarrow> allocator_cache option \<times> 's heap \<times> u32" where
  "cache_alloc ca cache h = (case cache of
     None \<Rightarrow> (None, h, 0)
   | Some c \<Rightarrow>
       let (c, h, r) = ca_alloc ca c h
       in (Some c, if ac_flags c AND GFP_ZERO \<noteq> 0 then hmemset r 0 (ac_size c) h else h, r))"

definition cache_free :: "'s caching_allocator \<Rightarrow> allocator_cache option \<Rightarrow> u32 \<Rightarrow> 's heap \<Rightarrow> allocator_cache option \<times> 's heap \<times> int" where
  "cache_free ca cache obj h = (case cache of
     None \<Rightarrow> (None, h, EOF)
   | Some c \<Rightarrow>
       let h = (if ac_flags c AND GFP_UNSAFE = 0 then hmemset obj JUNKBYTE (ac_size c) h else h);
           (c, h, r) = ca_free ca c obj h
       in (Some c, h, r))"

definition cache_trim :: "'s caching_allocator \<Rightarrow> allocator_cache option \<Rightarrow> 's heap \<Rightarrow> allocator_cache option \<times> 's heap" where
  "cache_trim ca cache h = (case cache of
     None \<Rightarrow> (None, h)
   | Some c \<Rightarrow> let (c, h) = ca_trim ca c h in (Some c, h))"

section \<open>Properties\<close>

lemma kmalloc_too_large: "2048 < unat sz \<Longrightarrow> kmalloc sa sz flags h = Some Panic"
  by (simp add: kmalloc_def word_less_nat_alt)

lemma kmalloc_zeroes:
  assumes "kmalloc sa sz flags h = Some (Done (h', p))" "flags AND GFP_ZERO \<noteq> 0" "b - postmap_addr p < sz"
  shows "kmem (hpmm h') b = 0"
  using assms by (auto simp: kmalloc_def hmemset_def vmemset_def memset_window split: if_splits option.splits outcome.splits)

lemma kcalloc_zeroes:
  assumes "kcalloc sa nmemb sz flags h = Some (Done (h', p))" "b - postmap_addr p < nmemb * sz"
  shows "kmem (hpmm h') b = 0"
  using assms by (auto simp: kcalloc_def hmemset_def vmemset_def memset_window split: option.splits outcome.splits)

text \<open>The product may wrap: a request of \<open>2 ^ 16\<close> objects of \<open>2 ^ 16\<close> bytes is one of no bytes.\<close>

lemma kcalloc_wraps: "kcalloc sa 0x10000 0x10000 flags h = kcalloc sa 0 0 flags h"
proof -
  have "(0x10000 * 0x10000 :: u32) = 0" by (simp add: word_unat_eq_iff)
  then show ?thesis by (simp only: kcalloc_def mult_zero_left)
qed

lemma kmalloc_null_zeroes_low_memory:
  "sz \<le> 2048 \<Longrightarrow> flags AND GFP_ZERO \<noteq> 0 \<Longrightarrow> kmalloc uu_simple_allocator sz flags h = Some (Done (hmemset 0 0 sz h, 0))"
  by (simp add: kmalloc_def uu_simple_allocator_def uu_simple_alloc_def not_less word_le_nat_alt word_less_nat_alt)

end
