(* ===== verification/ListH.thy ===== *)
theory ListH
  imports AIM_Prelude
begin

text \<open>
  The circular doubly-linked lists of \<^verbatim>\<open>include/list.h\<close>. The heap holds the two links of
  every \<^verbatim>\<open>struct list_head\<close>; an operation is the sequence of stores of its C body, so
  that a node may be its own neighbour, as in an empty list. A list with sentry \<open>head\<close>
  represents the sequence of the addresses of its other nodes.
\<close>

record links =
  lnext :: "u32 \<Rightarrow> u32"
  lprev :: "u32 \<Rightarrow> u32"

abbreviation set_next :: "u32 \<Rightarrow> u32 \<Rightarrow> links \<Rightarrow> links" where
  "set_next a v h \<equiv> h\<lparr>lnext := (lnext h)(a := v)\<rparr>"

abbreviation set_prev :: "u32 \<Rightarrow> u32 \<Rightarrow> links \<Rightarrow> links" where
  "set_prev a v h \<equiv> h\<lparr>lprev := (lprev h)(a := v)\<rparr>"

section \<open>Operations\<close>

definition INIT_LIST_HEAD :: "links \<Rightarrow> u32 \<Rightarrow> links" where
  "INIT_LIST_HEAD h l = (let h = set_next l l h in set_prev l l h)"

definition uu_list_add :: "links \<Rightarrow> u32 \<Rightarrow> u32 \<Rightarrow> u32 \<Rightarrow> links" where
  "uu_list_add h new prev nxt =
     (let h = set_prev nxt new h;
          h = set_next new nxt h;
          h = set_prev new prev h
      in set_next prev new h)"

definition list_add :: "links \<Rightarrow> u32 \<Rightarrow> u32 \<Rightarrow> links" where
  "list_add h new head = uu_list_add h new head (lnext h head)"

definition list_add_tail :: "links \<Rightarrow> u32 \<Rightarrow> u32 \<Rightarrow> links" where
  "list_add_tail h new head = uu_list_add h new (lprev h head) head"

definition uu_list_del :: "links \<Rightarrow> u32 \<Rightarrow> u32 \<Rightarrow> links" where
  "uu_list_del h prev nxt = (let h = set_prev nxt prev h in set_next prev nxt h)"

definition list_del :: "links \<Rightarrow> u32 \<Rightarrow> links" where
  "list_del h entry = uu_list_del h (lprev h entry) (lnext h entry)"

definition list_del_init :: "links \<Rightarrow> u32 \<Rightarrow> links" where
  "list_del_init h entry = INIT_LIST_HEAD (uu_list_del h (lprev h entry) (lnext h entry)) entry"

definition list_is_first :: "links \<Rightarrow> u32 \<Rightarrow> u32 \<Rightarrow> bool" where
  "list_is_first h l head \<longleftrightarrow> lprev h l = head"

definition list_is_last :: "links \<Rightarrow> u32 \<Rightarrow> u32 \<Rightarrow> bool" where
  "list_is_last h l head \<longleftrightarrow> lnext h l = head"

definition list_empty :: "links \<Rightarrow> u32 \<Rightarrow> bool" where
  "list_empty h head \<longleftrightarrow> lnext h head = head"

definition list_is_singular :: "links \<Rightarrow> u32 \<Rightarrow> bool" where
  "list_is_singular h head \<longleftrightarrow> \<not> list_empty h head \<and> lnext h head = lprev h head"

text \<open>
  The positions that \<^verbatim>\<open>for_each\<close> and \<^verbatim>\<open>for_each_reverse\<close> visit. The loop only ends at the
  sentry, so it takes fuel; \<open>None\<close> is a walk that has not ended.
\<close>

fun for_each :: "nat \<Rightarrow> (u32 \<Rightarrow> u32) \<Rightarrow> u32 \<Rightarrow> u32 \<Rightarrow> u32 list option" where
  "for_each 0 step pos head = None"
| "for_each (Suc n) step pos head =
     (if pos = head then Some []
      else map_option ((#) pos) (for_each n step (step pos) head))"

definition list_nodes :: "nat \<Rightarrow> links \<Rightarrow> u32 \<Rightarrow> u32 list option" where
  "list_nodes n h head = for_each n (lnext h) (lnext h head) head"

definition list_nodes_reverse :: "nat \<Rightarrow> links \<Rightarrow> u32 \<Rightarrow> u32 list option" where
  "list_nodes_reverse n h head = for_each n (lprev h) (lprev h head) head"

section \<open>Represented sequences\<close>

text \<open>A doubly-linked segment from \<open>a\<close> over the nodes \<open>xs\<close> to \<open>b\<close>.\<close>

fun seg :: "(u32 \<Rightarrow> u32) \<Rightarrow> (u32 \<Rightarrow> u32) \<Rightarrow> u32 \<Rightarrow> u32 list \<Rightarrow> u32 \<Rightarrow> bool" where
  "seg nx pv a [] b \<longleftrightarrow> nx a = b \<and> pv b = a"
| "seg nx pv a (x # xs) b \<longleftrightarrow> nx a = x \<and> pv x = a \<and> seg nx pv x xs b"

abbreviation dll :: "links \<Rightarrow> u32 \<Rightarrow> u32 list \<Rightarrow> u32 \<Rightarrow> bool" where
  "dll h \<equiv> seg (lnext h) (lprev h)"

definition list_rep :: "links \<Rightarrow> u32 \<Rightarrow> u32 list \<Rightarrow> bool" where
  "list_rep h head xs \<longleftrightarrow> distinct (head # xs) \<and> dll h head xs head"

lemma seg_append [simp]: "seg nx pv a (xs @ y # ys) b \<longleftrightarrow> seg nx pv a xs y \<and> seg nx pv y ys b"
  by (induction xs arbitrary: a) auto

lemma seg_set_next [simp]: "x \<notin> set (a # xs) \<Longrightarrow> seg (nx(x := v)) pv a xs b = seg nx pv a xs b"
  by (induction xs arbitrary: a) auto

lemma seg_set_prev [simp]: "x \<notin> set (xs @ [b]) \<Longrightarrow> seg nx (pv(x := v)) a xs b = seg nx pv a xs b"
  by (induction xs arbitrary: a) auto

lemma dll_first: "dll h a xs b \<Longrightarrow> lnext h a = hd (xs @ [b])"
  by (cases xs) auto

lemma dll_last: "dll h a xs b \<Longrightarrow> lprev h b = last (a # xs)"
  by (induction xs arbitrary: a) auto

lemma dll_unique: "dll h a xs b \<Longrightarrow> dll h a ys b \<Longrightarrow> b \<notin> set xs \<Longrightarrow> b \<notin> set ys \<Longrightarrow> xs = ys"
proof (induction xs arbitrary: a ys)
  case Nil
  then show ?case by (cases ys) auto
next
  case (Cons x xs)
  then show ?case by (cases ys) auto
qed

lemma list_rep_unique: "list_rep h head xs \<Longrightarrow> list_rep h head ys \<Longrightarrow> xs = ys"
  by (auto simp: list_rep_def intro: dll_unique)

section \<open>Operations on represented sequences\<close>

lemma list_rep_init: "list_rep (INIT_LIST_HEAD h head) head []"
  by (simp add: list_rep_def INIT_LIST_HEAD_def Let_def)

lemma list_rep_insert:
  assumes rep: "list_rep h head (ys @ zs)" and new: "new \<notin> set (head # ys @ zs)"
  shows "list_rep (uu_list_add h new (last (head # ys)) (hd (zs @ [head]))) head (ys @ new # zs)"
proof -
  have dll: "dll h head (ys @ zs) head" and dist: "distinct (head # ys @ zs)"
    using rep by (auto simp: list_rep_def)
  have "dll (uu_list_add h new (last (head # ys)) (hd (zs @ [head]))) head (ys @ new # zs) head"
  proof (cases ys rule: rev_cases)
    case Nil
    then show ?thesis using dll dist new by (cases zs) (auto simp: uu_list_add_def Let_def)
  next
    case (snoc ys' p)
    then show ?thesis using dll dist new by (cases zs) (auto simp: uu_list_add_def Let_def)
  qed
  then show ?thesis using dist new by (auto simp: list_rep_def)
qed

lemma list_rep_add:
  assumes "list_rep h head xs" "new \<notin> set (head # xs)"
  shows "list_rep (list_add h new head) head (new # xs)"
  using list_rep_insert[of h head "[]" xs new] assms dll_first[of h head xs head]
  by (simp add: list_add_def list_rep_def)

lemma list_rep_add_tail:
  assumes "list_rep h head xs" "new \<notin> set (head # xs)"
  shows "list_rep (list_add_tail h new head) head (xs @ [new])"
  using list_rep_insert[of h head xs "[]" new] assms dll_last[of h head xs head]
  by (simp add: list_add_tail_def list_rep_def)

lemma list_rep_del:
  assumes "list_rep h head (ys @ x # zs)"
  shows "list_rep (list_del h x) head (ys @ zs)"
proof -
  have dll: "dll h head ys x" "dll h x zs head" and dist: "distinct (head # ys @ x # zs)"
    using assms by (auto simp: list_rep_def)
  have "lprev h x = last (head # ys)" "lnext h x = hd (zs @ [head])"
    using dll by (auto dest: dll_first dll_last)
  then have "dll (list_del h x) head (ys @ zs) head"
    using dll dist
    by (cases ys rule: rev_cases; cases zs) (auto simp: list_del_def uu_list_del_def Let_def)
  then show ?thesis using dist by (auto simp: list_rep_def)
qed

lemma list_rep_del_init:
  assumes "list_rep h head (ys @ x # zs)"
  shows "list_rep (list_del_init h x) head (ys @ zs)" "list_rep (list_del_init h x) x []"
proof -
  let ?h = "list_del h x"
  have rep: "list_rep ?h head (ys @ zs)" by (rule list_rep_del[OF assms])
  have x: "x \<notin> set (head # ys @ zs)" using assms by (auto simp: list_rep_def)
  have eq: "list_del_init h x = INIT_LIST_HEAD ?h x"
    by (simp add: list_del_init_def list_del_def)
  show "list_rep (list_del_init h x) x []" by (simp only: eq list_rep_init)
  show "list_rep (list_del_init h x) head (ys @ zs)"
    using rep x by (auto simp: eq INIT_LIST_HEAD_def Let_def list_rep_def)
qed

lemma list_rep_empty: "list_rep h head xs \<Longrightarrow> list_empty h head \<longleftrightarrow> xs = []"
  by (cases xs) (auto simp: list_rep_def list_empty_def)

lemma list_rep_first: "list_rep h head (x # xs) \<Longrightarrow> lnext h head = x"
  by (simp add: list_rep_def)

lemma list_rep_singular: "list_rep h head xs \<Longrightarrow> list_is_singular h head \<longleftrightarrow> length xs = 1"
proof (cases xs rule: rev_cases)
  case (snoc ys y)
  assume rep: "list_rep h head xs"
  show ?thesis
  proof (cases ys)
    case (Cons z zs)
    then show ?thesis using rep snoc by (auto simp: list_is_singular_def list_empty_def list_rep_def)
  qed (use rep snoc in \<open>auto simp: list_is_singular_def list_empty_def list_rep_def\<close>)
qed (auto simp: list_is_singular_def list_empty_def list_rep_def)

lemma list_rep_is_first_last:
  assumes "list_rep h head xs" "x \<in> set xs"
  shows "list_is_first h x head \<longleftrightarrow> x = hd xs" "list_is_last h x head \<longleftrightarrow> x = last xs"
proof -
  obtain ys zs where xs: "xs = ys @ x # zs" using assms(2) by (meson split_list)
  then have dll: "dll h head ys x" "dll h x zs head" and dist: "distinct (head # xs)"
    using assms by (auto simp: list_rep_def)
  show "list_is_first h x head \<longleftrightarrow> x = hd xs"
    using dll_last[OF dll(1)] dist by (cases ys) (auto simp: list_is_first_def xs split: if_splits)
  show "list_is_last h x head \<longleftrightarrow> x = last xs"
    using dll_first[OF dll(2)] dist by (cases zs) (auto simp: list_is_last_def xs)
qed

section \<open>Traversal\<close>

lemma for_each_forward:
  "dll h a xs head \<Longrightarrow> head \<notin> set xs \<Longrightarrow> length xs < n
   \<Longrightarrow> for_each n (lnext h) (lnext h a) head = Some xs"
proof (induction xs arbitrary: a n)
  case Nil
  then show ?case by (cases n) auto
next
  case (Cons x xs)
  then show ?case by (cases n) auto
qed

lemma list_nodes_rep:
  assumes "list_rep h head xs" "length xs < n"
  shows "list_nodes n h head = Some xs"
  using assms for_each_forward[of h head xs head n] by (auto simp: list_nodes_def list_rep_def)

lemma for_each_backward:
  "dll h head xs b \<Longrightarrow> head \<notin> set xs \<Longrightarrow> length xs < n
   \<Longrightarrow> for_each n (lprev h) (lprev h b) head = Some (rev xs)"
proof (induction xs arbitrary: b n rule: rev_induct)
  case Nil
  then show ?case by (cases n) auto
next
  case (snoc x xs)
  then show ?case by (cases n) auto
qed

lemma list_nodes_reverse_rep:
  assumes "list_rep h head xs" "length xs < n"
  shows "list_nodes_reverse n h head = Some (rev xs)"
  using assms for_each_backward[of h head xs head n] by (auto simp: list_nodes_reverse_def list_rep_def)

section \<open>The contract of a list\<close>

text \<open>
  What the users of \<^verbatim>\<open>list.h\<close> rely on: the lists behave as sequences of distinct nodes.
  The scheduler queue, the allocator lists and the list of memory areas are clients.
\<close>

locale node_list =
  fixes rep :: "'h \<Rightarrow> 'p \<Rightarrow> 'p list \<Rightarrow> bool"
    and init :: "'h \<Rightarrow> 'p \<Rightarrow> 'h"
    and add add_tail :: "'h \<Rightarrow> 'p \<Rightarrow> 'p \<Rightarrow> 'h"
    and del :: "'h \<Rightarrow> 'p \<Rightarrow> 'h"
    and first :: "'h \<Rightarrow> 'p \<Rightarrow> 'p"
  assumes rep_init: "rep (init h l) l []"
    and rep_add: "rep h l xs \<Longrightarrow> x \<notin> set (l # xs) \<Longrightarrow> rep (add h x l) l (x # xs)"
    and rep_add_tail: "rep h l xs \<Longrightarrow> x \<notin> set (l # xs) \<Longrightarrow> rep (add_tail h x l) l (xs @ [x])"
    and rep_del: "rep h l (xs @ x # ys) \<Longrightarrow> rep (del h x) l (xs @ ys)"
    and rep_first: "rep h l (x # xs) \<Longrightarrow> first h l = x"
    and rep_distinct: "rep h l xs \<Longrightarrow> distinct (l # xs)"
begin

lemma rep_del_first: "rep h l (x # xs) \<Longrightarrow> rep (del h (first h l)) l xs"
  using rep_del[of h l "[]" x xs] rep_first by fastforce

lemma rep_add_all:
  "rep h l xs \<Longrightarrow> distinct ys \<Longrightarrow> set ys \<inter> set (l # xs) = {}
   \<Longrightarrow> rep (fold (\<lambda>x h. add_tail h x l) ys h) l (xs @ ys)"
proof (induction ys arbitrary: h xs)
  case (Cons y ys)
  then have "rep (add_tail h y l) l (xs @ [y])" by (intro rep_add_tail) auto
  from Cons.IH[OF this] Cons.prems show ?case by auto
qed simp

text \<open>First in, first out: the nodes leave in the order in which they were appended.\<close>

lemma fifo:
  assumes "distinct (l # x # ys)"
  shows "first (fold (\<lambda>x h. add_tail h x l) (x # ys) (init h l)) l = x"
    and "rep (del (fold (\<lambda>x h. add_tail h x l) (x # ys) (init h l)) x) l ys"
proof -
  have rep: "rep (fold (\<lambda>x h. add_tail h x l) (x # ys) (init h l)) l (x # ys)"
    using rep_add_all[OF rep_init, of "x # ys" l h] assms by simp
  then show "first (fold (\<lambda>x h. add_tail h x l) (x # ys) (init h l)) l = x" by (rule rep_first)
  show "rep (del (fold (\<lambda>x h. add_tail h x l) (x # ys) (init h l)) x) l ys"
    using rep_del[of _ l "[]" x ys] rep by simp
qed

end

interpretation dl: node_list list_rep INIT_LIST_HEAD list_add list_add_tail list_del lnext
  by unfold_locales
    (auto intro: list_rep_init list_rep_add list_rep_add_tail list_rep_del simp: list_rep_first,
     auto simp: list_rep_def)

end
