(* ===== verification/Uvm.thy ===== *)
theory Uvm
  imports Vmm ListH Util
begin

text \<open>
  User memory of \<^verbatim>\<open>kern/mm/uvm.c\<close> and \<^verbatim>\<open>include/aim/uvm.h\<close>: memory descriptors, their
  lists of virtual memory areas, and the copies to and from user pages. The members of a
  structure are functions of its address, the list nodes are those of \<^verbatim>\<open>include/list.h\<close>, and
  the objects themselves come from \<^verbatim>\<open>kmalloc\<close>. A memory descriptor is known by its address,
  which is that of its list sentry.
\<close>

section \<open>Data\<close>

definition VMA_EXEC :: u32 where "VMA_EXEC = 0x01"
definition VMA_WRITE :: u32 where "VMA_WRITE = 0x02"
definition VMA_READ :: u32 where "VMA_READ = 0x04"
definition VMA_FILE :: u32 where "VMA_FILE = 0x100"

record 's uvm =
  mm_vma_count :: "u32 \<Rightarrow> u32"
  mm_pgindex :: "u32 \<Rightarrow> u32"
  vma_start :: "u32 \<Rightarrow> u32"
  vma_size :: "u32 \<Rightarrow> u32"
  vma_flags :: "u32 \<Rightarrow> u32"
  vma_mm :: "u32 \<Rightarrow> u32"
  vma_pages :: "u32 \<Rightarrow> u32"
  upages :: "u32 \<Rightarrow> pages"
  upages_refs :: "u32 \<Rightarrow> u32"
  vlinks :: links
  uheap :: "'s heap"
  kernel_mm :: u32
  current_mm :: "u32 option"
  umach :: mach

text \<open>The members that are list nodes, and the structure that contains one (\<^verbatim>\<open>list_entry\<close>).\<close>

definition vma_node :: "u32 \<Rightarrow> u32" where "vma_node vma = vma + 20"
definition vma_share_node :: "u32 \<Rightarrow> u32" where "vma_share_node vma = vma + 32"
definition vma_entry :: "u32 \<Rightarrow> u32" where "vma_entry n = n - 20"
definition upages_vma_head :: "u32 \<Rightarrow> u32" where "upages_vma_head p = p + 24"
definition mm_vma_head :: "u32 \<Rightarrow> u32" where "mm_vma_head mm = mm"

definition next_vma :: "'s uvm \<Rightarrow> u32 \<Rightarrow> u32" where
  "next_vma st vma = vma_entry (lnext (vlinks st) (vma_node vma))"

definition prev_vma :: "'s uvm \<Rightarrow> u32 \<Rightarrow> u32" where
  "prev_vma st vma = vma_entry (lprev (vlinks st) (vma_node vma))"

definition sizeof_mm :: u32 where "sizeof_mm = 24"
definition sizeof_vma :: u32 where "sizeof_vma = 44"
definition sizeof_upages :: u32 where "sizeof_upages = 36"

abbreviation upmm :: "'s uvm \<Rightarrow> 's pmm" where "upmm st \<equiv> hpmm (uheap st)"

definition set_upmm :: "'s uvm \<Rightarrow> 's pmm \<Rightarrow> 's uvm" where
  "set_upmm st p = st\<lparr>uheap := (uheap st)\<lparr>hpmm := p\<rparr>\<rparr>"

text \<open>Calls of the allocators in this state.\<close>

definition ukmalloc :: "'s simple_allocator \<Rightarrow> u32 \<Rightarrow> 's uvm \<Rightarrow> ('s uvm \<times> u32) run" where
  "ukmalloc sa n st = rbind (kmalloc sa n 0 (uheap st)) (\<lambda>(h, p). rret (st\<lparr>uheap := h\<rparr>, p))"

definition ukfree :: "'s simple_allocator \<Rightarrow> u32 \<Rightarrow> 's uvm \<Rightarrow> 's uvm run" where
  "ukfree sa p st = (case kfree sa p (uheap st) of None \<Rightarrow> None | Some h \<Rightarrow> rret (st\<lparr>uheap := h\<rparr>))"

definition ualloc_pages :: "u32 \<Rightarrow> 's uvm \<Rightarrow> ('s uvm \<times> int) run" where
  "ualloc_pages p st = (case alloc_pages (upmm st) (Some (upages st p)) of
     Some (pm, Some pgs, r) \<Rightarrow> rret ((set_upmm st pm)\<lparr>upages := (upages st)(p := pgs)\<rparr>, r)
   | _ \<Rightarrow> None)"

definition ufree_pages :: "u32 \<Rightarrow> 's uvm \<Rightarrow> 's uvm run" where
  "ufree_pages p st = (case free_pages (upmm st) (upages st p) of None \<Rightarrow> None | Some pm \<Rightarrow> rret (set_upmm st pm))"

definition umap_pages :: "u64 \<Rightarrow> u32 \<Rightarrow> u32 \<Rightarrow> u64 \<Rightarrow> u32 \<Rightarrow> u32 \<Rightarrow> 's uvm \<Rightarrow> ('s uvm \<times> int) run" where
  "umap_pages u mm va pa n flags st =
     rbind (map_pages u (upmm st) (mm_pgindex st mm) va pa n flags) (\<lambda>(pm, r). rret (set_upmm st pm, r))"

definition uunmap_pages :: "u32 \<Rightarrow> u32 \<Rightarrow> u32 \<Rightarrow> 's uvm \<Rightarrow> ('s uvm \<times> int \<times> u64) run" where
  "uunmap_pages mm va n st =
     rbind (Some (unmap_pages (upmm st) (mm_pgindex st mm) va n)) (\<lambda>(pm, r, pa). rret (set_upmm st pm, r, pa))"

section \<open>Memory descriptors\<close>

text \<open>\<open>u\<close> is the chance value that \<^verbatim>\<open>pgalloc\<close> starts from.\<close>

definition mm_new :: "'s simple_allocator \<Rightarrow> u64 \<Rightarrow> 's uvm \<Rightarrow> ('s uvm \<times> u32) run" where
  "mm_new sa u st = rbind (ukmalloc sa sizeof_mm st) (\<lambda>(st, mm).
     if mm \<noteq> 0
     then let st = st\<lparr>vlinks := INIT_LIST_HEAD (vlinks st) (mm_vma_head mm), mm_vma_count := (mm_vma_count st)(mm := 0)\<rparr>
          in case init_pgindex u (upmm st) of
               None \<Rightarrow> None
             | Some (pm, pgindex) \<Rightarrow>
                 let st = (set_upmm st pm)\<lparr>mm_pgindex := (mm_pgindex st)(mm := pgindex)\<rparr>
                 in if pgindex = 0 then rbind (ukfree sa mm st) (\<lambda>st. rret (st, 0)) else rret (st, mm)
     else rret (st, mm))"

definition uu_clean_vma :: "u32 \<Rightarrow> u32 \<Rightarrow> 's uvm \<Rightarrow> 's uvm run" where
  "uu_clean_vma mm vma st =
     rbind (rassert (ucast (vma_size st vma) = psize (upages st (vma_pages st vma)))) (\<lambda>_.
     rbind (uunmap_pages mm (vma_start st vma) (vma_size st vma) st) (\<lambda>(st, unmapped, pa).
     rbind (rassert (pa = paddr (upages st (vma_pages st vma)))) (\<lambda>_.
     rbind (rassert (unmapped = uint (vma_size st vma))) (\<lambda>_. rret st))))"

text \<open>The bodies of the atomic operations are empty on this architecture.\<close>

definition atomic_inc :: "u32 \<Rightarrow> u32" where "atomic_inc counter = counter"
definition atomic_dec :: "u32 \<Rightarrow> u32" where "atomic_dec counter = counter"

definition uu_ref_upages :: "u32 \<Rightarrow> 's uvm \<Rightarrow> 's uvm" where
  "uu_ref_upages p st = st\<lparr>upages_refs := (upages_refs st)(p := atomic_inc (upages_refs st p))\<rparr>"

definition uu_PAGES_FREED :: int where "uu_PAGES_FREED = 1"

definition uu_unref_and_free_upages :: "u32 \<Rightarrow> 's uvm \<Rightarrow> ('s uvm \<times> int) run" where
  "uu_unref_and_free_upages p st =
     (let st = st\<lparr>upages_refs := (upages_refs st)(p := atomic_dec (upages_refs st p))\<rparr>
      in if upages_refs st p = 0 then rbind (ufree_pages p st) (\<lambda>st. rret (st, uu_PAGES_FREED)) else rret (st, 0))"

definition drop_upages :: "'s simple_allocator \<Rightarrow> u32 \<Rightarrow> 's uvm \<Rightarrow> 's uvm run" where
  "drop_upages sa p st =
     rbind (uu_unref_and_free_upages p st) (\<lambda>(st, r). if r = uu_PAGES_FREED then ukfree sa p st else rret st)"

partial_function (option) mm_destroy_loop :: "'s simple_allocator \<Rightarrow> u32 \<Rightarrow> u32 \<Rightarrow> u32 \<Rightarrow> 's uvm \<Rightarrow> 's uvm run" where
  "mm_destroy_loop sa mm vma vma_next st =
     (if vma_node vma \<noteq> mm_vma_head mm
      then rbind (uu_clean_vma mm vma st) (\<lambda>st.
           rbind (drop_upages sa (vma_pages st vma) st) (\<lambda>st.
           rbind (ukfree sa vma st) (\<lambda>st.
             mm_destroy_loop sa mm vma_next (next_vma st vma_next) st)))
      else rret st)"

definition mm_destroy :: "'s simple_allocator \<Rightarrow> u32 \<Rightarrow> 's uvm \<Rightarrow> 's uvm run" where
  "mm_destroy sa mm st =
     (if mm = 0 \<or> mm = kernel_mm st then rret st
      else let vma = vma_entry (lnext (vlinks st) (mm_vma_head mm))
           in rbind (mm_destroy_loop sa mm vma (next_vma st vma) st) (\<lambda>st.
              case destroy_pgindex (upmm st) (mm_pgindex st mm) of
                None \<Rightarrow> None
              | Some pm \<Rightarrow> ukfree sa mm (set_upmm st pm)))"

section \<open>Finding areas\<close>

text \<open>The loop \<^verbatim>\<open>for_each_entry\<close> with a condition to break: the area where it stops, or the sentry.\<close>

partial_function (option) vma_search :: "(u32 \<Rightarrow> bool) \<Rightarrow> u32 \<Rightarrow> 's uvm \<Rightarrow> u32 \<Rightarrow> u32 option" where
  "vma_search stop mm st vma =
     (if vma_node vma \<noteq> mm_vma_head mm
      then if stop vma then Some vma else vma_search stop mm st (next_vma st vma)
      else Some vma)"

definition uu_find_vma_before :: "u32 \<Rightarrow> u32 \<Rightarrow> u32 \<Rightarrow> 's uvm \<Rightarrow> u32 option" where
  "uu_find_vma_before mm addr sz st =
     (if list_empty (vlinks st) (mm_vma_head mm) then Some (vma_entry (mm_vma_head mm))
      else case vma_search (\<lambda>vma. vma_start st vma \<ge> addr + sz) mm st (vma_entry (lnext (vlinks st) (mm_vma_head mm))) of
             None \<Rightarrow> None
           | Some vma \<Rightarrow>
               let vma_prev = prev_vma st vma
               in if addr < vma_start st vma_prev + vma_size st vma_prev then Some 0 else Some vma_prev)"

partial_function (option) continuous_loop :: "u32 \<Rightarrow> u32 \<Rightarrow> u32 \<Rightarrow> u32 \<Rightarrow> 's uvm \<Rightarrow> bool option" where
  "continuous_loop addr len i vma st =
     (if i < len
      then let vma = next_vma st vma
           in if vma_start st vma \<noteq> addr + i then Some False else continuous_loop addr len (i + 4096) vma st
      else Some True)"

definition uu_find_continuous_vma :: "u32 \<Rightarrow> u32 \<Rightarrow> u32 \<Rightarrow> 's uvm \<Rightarrow> u32 run" where
  "uu_find_continuous_vma mm addr len st =
     rbind (rassert (IS_ALIGNED addr 4096)) (\<lambda>_.
     rbind (rassert (IS_ALIGNED len 4096)) (\<lambda>_.
     case vma_search (\<lambda>vma. vma_start st vma = addr) mm st (vma_entry (lnext (vlinks st) (mm_vma_head mm))) of
       None \<Rightarrow> None
     | Some vma \<Rightarrow>
         if vma_node vma = mm_vma_head mm then rret 0
         else (case continuous_loop addr len 4096 vma st of
                 None \<Rightarrow> None
               | Some ok \<Rightarrow> rret (if ok then vma else 0))))"

section \<open>Removing and creating areas\<close>

partial_function (option) uu_unmap_and_free_vma ::
    "'s simple_allocator \<Rightarrow> u32 \<Rightarrow> u32 \<Rightarrow> u32 \<Rightarrow> u32 \<Rightarrow> 's uvm \<Rightarrow> 's uvm run" where
  "uu_unmap_and_free_vma sa mm vma_cur i sz st =
     (if i < sz
      then let vma = vma_cur;
               vma_cur = next_vma st vma_cur;
               vsize = vma_size st vma;
               st = st\<lparr>vlinks := list_del (vlinks st) (vma_node vma)\<rparr>;
               st = st\<lparr>vlinks := list_del (vlinks st) (vma_share_node vma)\<rparr>
           in rbind (uunmap_pages mm (vma_start st vma) (vma_size st vma) st) (\<lambda>(st, r, _).
              rbind (rassert (r = uint vsize)) (\<lambda>_.
              rbind (drop_upages sa (vma_pages st vma) st) (\<lambda>st.
              rbind (ukfree sa vma st) (\<lambda>st.
                uu_unmap_and_free_vma sa mm vma_cur (i + vsize) sz st))))
      else rret st)"

definition uu_vma_new :: "'s simple_allocator \<Rightarrow> u32 \<Rightarrow> u32 \<Rightarrow> u32 \<Rightarrow> u32 \<Rightarrow> 's uvm \<Rightarrow> ('s uvm \<times> u32) run" where
  "uu_vma_new sa mm addr sz flags st = rbind (ukmalloc sa sizeof_vma st) (\<lambda>(st, vma).
     if vma \<noteq> 0
     then rret (st\<lparr>vma_mm := (vma_mm st)(vma := mm), vma_start := (vma_start st)(vma := addr),
                  vma_size := (vma_size st)(vma := sz), vma_flags := (vma_flags st)(vma := flags),
                  vma_pages := (vma_pages st)(vma := 0),
                  vlinks := INIT_LIST_HEAD (INIT_LIST_HEAD (vlinks st) (vma_node vma)) (vma_share_node vma)\<rparr>, vma)
     else rret (st, vma))"

definition uu_upages_new :: "'s simple_allocator \<Rightarrow> u32 \<Rightarrow> u32 \<Rightarrow> 's uvm \<Rightarrow> ('s uvm \<times> u32) run" where
  "uu_upages_new sa sz flags st = rbind (ukmalloc sa sizeof_upages st) (\<lambda>(st, p).
     if p \<noteq> 0
     then rret (st\<lparr>upages := (upages st)(p := \<lparr>paddr = 0, psize = ucast sz, pflags = flags\<rparr>),
                  upages_refs := (upages_refs st)(p := 0),
                  vlinks := INIT_LIST_HEAD (vlinks st) (upages_vma_head p)\<rparr>, p)
     else rret (st, p))"

text \<open>The new area is hooked behind \<^verbatim>\<open>vma_cur\<close>.\<close>

definition link_vma :: "u32 \<Rightarrow> u32 \<Rightarrow> u32 \<Rightarrow> 's uvm \<Rightarrow> 's uvm" where
  "link_vma vma p vma_cur st =
     (let st = st\<lparr>vma_pages := (vma_pages st)(vma := p)\<rparr>;
          st = uu_ref_upages p st;
          st = st\<lparr>vlinks := list_add (vlinks st) (vma_node vma) (vma_node vma_cur)\<rparr>
      in st\<lparr>vlinks := list_add (vlinks st) (vma_share_node vma) (upages_vma_head p)\<rparr>)"

text \<open>
  The body of the loops of \<^verbatim>\<open>create_uvm\<close> and \<^verbatim>\<open>mm_clone\<close>: an area with pages of its own, which are
  filled by \<open>fill\<close>, or a negative code and what this round has allocated is given back.
\<close>

definition add_area :: "'s simple_allocator \<Rightarrow> u64 \<Rightarrow> u32 \<Rightarrow> u32 \<Rightarrow> u32 \<Rightarrow> u32 \<Rightarrow> u32 \<Rightarrow> u32 \<Rightarrow> u32 \<Rightarrow>
    (u64 \<Rightarrow> 's uvm \<Rightarrow> 's uvm) \<Rightarrow> 's uvm \<Rightarrow> ('s uvm \<times> int \<times> u32) run" where
  "add_area sa u mm start sz flags pg_size pg_flags vma_cur fill st =
     rbind (uu_vma_new sa mm start sz flags st) (\<lambda>(st, vma).
     if vma = 0 then rret (st, - ENOMEM, 0) else
     rbind (uu_upages_new sa pg_size pg_flags st) (\<lambda>(st, p).
     if p = 0 then rbind (ukfree sa vma st) (\<lambda>st. rret (st, - ENOMEM, 0)) else
     rbind (ualloc_pages p st) (\<lambda>(st, r).
     if r < 0 then rbind (ukfree sa p st) (\<lambda>st. rbind (ukfree sa vma st) (\<lambda>st. rret (st, - ENOMEM, 0))) else
     rbind (umap_pages u mm start (paddr (upages st p)) sz flags st) (\<lambda>(st, retcode).
     if retcode < 0
     then rbind (ufree_pages p st) (\<lambda>st. rbind (ukfree sa p st) (\<lambda>st. rbind (ukfree sa vma st) (\<lambda>st. rret (st, retcode, 0))))
     else rret (link_vma vma p vma_cur (fill (paddr (upages st p)) st), retcode, vma)))))"

partial_function (option) create_loop ::
    "'s simple_allocator \<Rightarrow> u64 \<Rightarrow> u32 \<Rightarrow> u32 \<Rightarrow> u32 \<Rightarrow> u32 \<Rightarrow> u32 \<Rightarrow> u32 \<Rightarrow> 's uvm \<Rightarrow> ('s uvm \<times> int \<times> u32) run" where
  "create_loop sa u mm len flags mapped vcur vma_cur st =
     (if mapped < len
      then rbind (add_area sa u mm vcur 4096 flags 4096 0 vma_cur (\<lambda>pa st. st) st) (\<lambda>(st, retcode, vma).
           if retcode < 0 then rret (st, retcode, mapped)
           else create_loop sa u mm len flags (mapped + 4096) (vcur + 4096) vma st)
      else rret (st, 0, mapped))"

definition create_uvm :: "'s simple_allocator \<Rightarrow> u64 \<Rightarrow> u32 \<Rightarrow> u32 \<Rightarrow> u32 \<Rightarrow> u32 \<Rightarrow> 's uvm \<Rightarrow> ('s uvm \<times> int) run" where
  "create_uvm sa u mm addr len flags st =
     (if \<not> IS_ALIGNED len 4096 \<or> mm = 0 \<or> \<not> IS_ALIGNED addr 4096 then rret (st, - EINVAL)
      else if len = 0 then rret (st, 0)
      else case uu_find_vma_before mm addr len st of
             None \<Rightarrow> None
           | Some vstart \<Rightarrow>
               if vstart = 0 then rret (st, - EFAULT)
               else rbind (create_loop sa u mm len flags 0 addr vstart st) (\<lambda>(st, retcode, mapped).
                    if retcode < 0
                    then rbind (uu_unmap_and_free_vma sa mm (next_vma st vstart) 0 mapped st) (\<lambda>st. rret (st, retcode))
                    else rret (st, 0)))"

definition destroy_uvm :: "'s simple_allocator \<Rightarrow> u32 \<Rightarrow> u32 \<Rightarrow> u32 \<Rightarrow> 's uvm \<Rightarrow> ('s uvm \<times> int) run" where
  "destroy_uvm sa mm addr len st =
     (if \<not> IS_ALIGNED len 4096 \<or> mm = 0 \<or> \<not> IS_ALIGNED addr 4096 then rret (st, - EINVAL)
      else rbind (uu_find_continuous_vma mm addr len st) (\<lambda>vma.
           if vma = 0 then rret (st, - EFAULT)
           else rbind (uu_unmap_and_free_vma sa mm vma 0 len st) (\<lambda>st. rret (st, 0))))"

text \<open>The area is not advanced: only the first one gets the new flags.\<close>

partial_function (option) set_perm_areas ::
    "u64 \<Rightarrow> u32 \<Rightarrow> u32 \<Rightarrow> u32 \<Rightarrow> u32 \<Rightarrow> u32 \<Rightarrow> u32 \<Rightarrow> 's uvm \<Rightarrow> ('s uvm \<times> int) option" where
  "set_perm_areas u mm vma i addr len flags st =
     (if i < len
      then let st = st\<lparr>vma_flags := (vma_flags st)(vma := flags)\<rparr>
           in case set_pages_perm u (upmm st) (mm_pgindex st mm) addr 4096 flags of
                None \<Rightarrow> None
              | Some (pm, r) \<Rightarrow>
                  let st = set_upmm st pm
                  in if r \<noteq> 0 then Some (st, - ENOENT)
                     else set_perm_areas u mm vma (i + 4096) (addr + 4096) len flags st
      else Some (st, 0))"

definition set_uvm_perm :: "u64 \<Rightarrow> u32 \<Rightarrow> u32 \<Rightarrow> u32 \<Rightarrow> u32 \<Rightarrow> 's uvm \<Rightarrow> ('s uvm \<times> int) run" where
  "set_uvm_perm u mm addr len flags st =
     (if \<not> IS_ALIGNED len 4096 \<or> mm = 0 \<or> \<not> IS_ALIGNED addr 4096 then rret (st, - EINVAL)
      else rbind (uu_find_continuous_vma mm addr len st) (\<lambda>vma.
           if vma = 0 then rret (st, - EFAULT)
           else case set_perm_areas u mm vma 0 addr len flags st of None \<Rightarrow> None | Some r \<Rightarrow> rret r))"

section \<open>Cloning\<close>

definition set_ukmem :: "'s uvm \<Rightarrow> vmem \<Rightarrow> 's uvm" where
  "set_ukmem st m = set_upmm st ((upmm st)\<lparr>kmem := m\<rparr>)"

partial_function (option) clone_loop ::
    "'s simple_allocator \<Rightarrow> u64 \<Rightarrow> u32 \<Rightarrow> u32 \<Rightarrow> u32 \<Rightarrow> u32 \<Rightarrow> u32 \<Rightarrow> 's uvm \<Rightarrow> ('s uvm \<times> int \<times> u32) run" where
  "clone_loop sa u dst src vma vma_cur cloned_size st =
     (if vma_node vma \<noteq> mm_vma_head src
      then let pgs = vma_pages st vma
           in rbind (add_area sa u dst (vma_start st vma) (vma_size st vma) (vma_flags st vma)
                (ucast (psize (upages st pgs))) (pflags (upages st pgs)) vma_cur
                (\<lambda>pa st. set_ukmem st (memmove (kmem (upmm st)) (pa2kva pa)
                   (pa2kva (paddr (upages st (vma_pages st vma)))) (vma_size st vma))) st)
              (\<lambda>(st, retcode, vma_new).
                 if retcode < 0 then rret (st, retcode, cloned_size)
                 else clone_loop sa u dst src (next_vma st vma) vma_new (cloned_size + vma_size st vma_new) st)
      else rret (st, 0, cloned_size))"

definition mm_clone :: "'s simple_allocator \<Rightarrow> u64 \<Rightarrow> u32 \<Rightarrow> u32 \<Rightarrow> 's uvm \<Rightarrow> ('s uvm \<times> int) run" where
  "mm_clone sa u dst src st =
     (let vstart = vma_entry (mm_vma_head dst)
      in rbind (clone_loop sa u dst src (vma_entry (lnext (vlinks st) (mm_vma_head src))) vstart 0 st)
           (\<lambda>(st, retcode, cloned_size).
              if retcode < 0
              then rbind (uu_unmap_and_free_vma sa dst (next_vma st vstart) 0 cloned_size st) (\<lambda>st. rret (st, retcode))
              else rret (st, 0)))"

section \<open>Copies to and from user memory\<close>

text \<open>Without a page table the null pointer that \<^verbatim>\<open>walkpgdir\<close> returns is read through.\<close>

definition uva2kva :: "u64 \<Rightarrow> u32 \<Rightarrow> u32 \<Rightarrow> 's uvm \<Rightarrow> u32 option" where
  "uva2kva u pgindex uva st =
     (case walkpgdir u (upmm st) pgindex uva False of
        None \<Rightarrow> None
      | Some (pm, pte) \<Rightarrow>
          let e = vload (kmem pm) pte
          in Some (if e AND PTE_P = 0 then 0 else if e AND PTE_U = 0 then 0 else postmap_addr (PTE_ADDR e)))"

text \<open>
  Access with the page index \<open>f\<close> loaded: where the byte at \<open>va\<close> is; \<open>None\<close> is a page fault, which
  the kernel does not handle here.
\<close>

definition mapped_byte :: "vmem \<Rightarrow> u32 \<Rightarrow> u32 \<Rightarrow> u32 option" where
  "mapped_byte m f va =
     (if KERN_BASE \<le> va then Some va
      else case pte_of m f va of None \<Rightarrow> None | Some e \<Rightarrow> Some (postmap_addr (PTE_ADDR e) + (va AND 0xFFF)))"

primrec mapped_read :: "nat \<Rightarrow> vmem \<Rightarrow> u32 \<Rightarrow> u32 \<Rightarrow> u8 list option" where
  "mapped_read 0 m f va = Some []"
| "mapped_read (Suc n) m f va =
     (case mapped_byte m f va of None \<Rightarrow> None | Some a \<Rightarrow> map_option ((#) (m a)) (mapped_read n m f (va + 1)))"

primrec mapped_write :: "u8 list \<Rightarrow> u32 \<Rightarrow> u32 \<Rightarrow> vmem \<Rightarrow> vmem option" where
  "mapped_write [] f va m = Some m"
| "mapped_write (b # bs) f va m =
     (case mapped_byte m f va of None \<Rightarrow> None | Some a \<Rightarrow> mapped_write bs f (va + 1) (m(a := b)))"

definition mapped_move :: "u32 \<Rightarrow> u32 \<Rightarrow> u32 \<Rightarrow> nat \<Rightarrow> vmem \<Rightarrow> vmem option" where
  "mapped_move f dst src n m =
     (case mapped_read n m f src of None \<Rightarrow> None | Some bs \<Rightarrow> mapped_write bs f dst m)"

definition kmove :: "u32 \<Rightarrow> u32 \<Rightarrow> u32 \<Rightarrow> vmem \<Rightarrow> vmem" where
  "kmove dst src n m = memmove m (postmap_addr dst) (postmap_addr src) n"

partial_function (option) copy_pages ::
    "u64 \<Rightarrow> u32 \<Rightarrow> u32 \<Rightarrow> u32 \<Rightarrow> u32 \<Rightarrow> u8 \<Rightarrow> bool \<Rightarrow> bool \<Rightarrow> 's uvm \<Rightarrow> ('s uvm \<times> int) option" where
  "copy_pages u mm start stop vaddr c fill touser st =
     (if start < stop
      then case uva2kva u (mm_pgindex st mm) start st of
             None \<Rightarrow> None
           | Some kuvaddr \<Rightarrow>
               let l = min (ALIGN_NEXT start 4096) stop - start
               in if kuvaddr = 0 then Some (st, - EACCES)
                  else let m = kmem (upmm st);
                           m = (if fill then vmemset m kuvaddr c l
                                else if \<not> touser then kmove vaddr kuvaddr l m
                                else kmove kuvaddr vaddr l m)
                       in copy_pages u mm (ALIGN_NEXT start 4096) stop (vaddr + l) c fill touser (set_ukmem st m)
      else Some (st, 0))"

definition uu_copy_fill_uvm ::
    "u64 \<Rightarrow> u32 \<Rightarrow> u32 \<Rightarrow> u32 \<Rightarrow> u8 \<Rightarrow> u32 \<Rightarrow> bool \<Rightarrow> bool \<Rightarrow> 's uvm \<Rightarrow> ('s uvm \<times> int) run" where
  "uu_copy_fill_uvm u mm uvaddr vaddr c len fill touser st =
     (let start_page = ALIGN_BELOW uvaddr 4096; end_page = ALIGN_ABOVE (uvaddr + len) 4096
      in rbind (uu_find_continuous_vma mm start_page (end_page - start_page) st) (\<lambda>vma.
         if vma = 0 then rret (st, - EFAULT)
         else if current_mm st = Some mm
         then rbind (rassert (mm_pgindex st mm = get_pgindex (umach st))) (\<lambda>_.
              let m = kmem (upmm st); f = V2P (mm_pgindex st mm)
              in case (if fill then mapped_write (replicate (unat len) c) f uvaddr m
                       else if \<not> touser then mapped_move f vaddr uvaddr (unat len) m
                       else mapped_move f uvaddr vaddr (unat len) m) of
                   None \<Rightarrow> None
                 | Some m \<Rightarrow> rret (set_ukmem st m, 0))
         else case copy_pages u mm uvaddr (uvaddr + len) vaddr c fill touser st of
                None \<Rightarrow> None
              | Some r \<Rightarrow> rret r))"

definition copy_to_uvm :: "u64 \<Rightarrow> u32 \<Rightarrow> u32 \<Rightarrow> u32 \<Rightarrow> u32 \<Rightarrow> 's uvm \<Rightarrow> ('s uvm \<times> int) run" where
  "copy_to_uvm u mm uvaddr vaddr len st = uu_copy_fill_uvm u mm uvaddr vaddr 0 len False True st"

definition copy_from_uvm :: "u64 \<Rightarrow> u32 \<Rightarrow> u32 \<Rightarrow> u32 \<Rightarrow> u32 \<Rightarrow> 's uvm \<Rightarrow> ('s uvm \<times> int) run" where
  "copy_from_uvm u mm uvaddr vaddr len st = uu_copy_fill_uvm u mm uvaddr vaddr 0 len False False st"

definition fill_uvm :: "u64 \<Rightarrow> u32 \<Rightarrow> u32 \<Rightarrow> u8 \<Rightarrow> u32 \<Rightarrow> 's uvm \<Rightarrow> ('s uvm \<times> int) run" where
  "fill_uvm u mm uvaddr c len st = uu_copy_fill_uvm u mm uvaddr 0 c len True True st"

definition mm_init :: "'s simple_allocator \<Rightarrow> u64 \<Rightarrow> 's uvm \<Rightarrow> 's uvm run" where
  "mm_init sa u st = rbind (mm_new sa u st) (\<lambda>(st, mm).
     rret (st\<lparr>kernel_mm := mm, umach := snd (switch_pgindex (mm_pgindex st mm) (umach st))\<rparr>))"

section \<open>The list of areas\<close>

lemma vma_entry_node [simp]: "vma_entry (vma_node v) = v" "vma_node (vma_entry n) = n"
  by (simp_all add: vma_entry_def vma_node_def)

lemma vma_node_eq [simp]: "vma_node v = vma_node w \<longleftrightarrow> v = w"
  by (simp add: vma_node_def)

definition areas :: "'s uvm \<Rightarrow> u32 \<Rightarrow> u32 list \<Rightarrow> bool" where
  "areas st mm vs \<longleftrightarrow> list_rep (vlinks st) (mm_vma_head mm) (map vma_node vs)"

abbreviation sentry :: "u32 \<Rightarrow> u32" where "sentry mm \<equiv> vma_entry (mm_vma_head mm)"

lemma vma_search_dll:
  assumes "dll (vlinks st) a (map vma_node vs) (mm_vma_head mm)" "mm_vma_head mm \<notin> set (map vma_node vs)"
  shows "vma_search stop mm st (vma_entry (lnext (vlinks st) a)) =
    Some (hd (dropWhile (\<lambda>v. \<not> stop v) vs @ [sentry mm]))"
  using assms
proof (induction vs arbitrary: a)
  case Nil
  then show ?case by (simp add: vma_search.simps[of stop mm st "sentry mm"])
next
  case (Cons v vs)
  have nx: "lnext (vlinks st) a = vma_node v" using Cons.prems by simp
  have ne: "vma_node v \<noteq> mm_vma_head mm" using Cons.prems by auto
  have tl: "dll (vlinks st) (vma_node v) (map vma_node vs) (mm_vma_head mm)" "mm_vma_head mm \<notin> set (map vma_node vs)"
    using Cons.prems by simp_all
  from Cons.IH[OF tl] show ?case
    by (simp add: nx vma_search.simps[of stop mm st v] ne next_vma_def)
qed

lemma vma_search_areas:
  "areas st mm vs \<Longrightarrow> vma_search stop mm st (vma_entry (lnext (vlinks st) (mm_vma_head mm))) =
    Some (hd (dropWhile (\<lambda>v. \<not> stop v) vs @ [sentry mm]))"
  by (rule vma_search_dll) (auto simp: areas_def list_rep_def)

lemma areas_prev:
  assumes "areas st mm (xs @ ys)"
  shows "prev_vma st (hd (ys @ [sentry mm])) = last (sentry mm # xs)"
proof -
  have "dll (vlinks st) (mm_vma_head mm) (map vma_node xs) (vma_node (hd (ys @ [sentry mm])))"
    using assms by (cases ys) (auto simp: areas_def list_rep_def)
  from dll_last[OF this] show ?thesis by (cases xs rule: rev_cases) (auto simp: prev_vma_def)
qed

text \<open>
  The search for a place: the areas \<open>xs\<close> that begin below the end of the range, and the last of
  them, or the sentry, which is then read as if it were an area.
\<close>

lemma find_vma_before_areas:
  assumes "areas st mm vs" and xs: "xs = takeWhile (\<lambda>v. vma_start st v < addr + sz) vs" and p: "p = last (sentry mm # xs)"
  shows "uu_find_vma_before mm addr sz st =
    (if vs = [] then Some (sentry mm) else Some (if addr < vma_start st p + vma_size st p then 0 else p))"
proof (cases vs)
  case Nil
  then show ?thesis using assms(1) list_rep_empty[of "vlinks st" "mm_vma_head mm" "[]"]
    by (simp add: uu_find_vma_before_def areas_def)
next
  case (Cons v ws)
  then have ne: "\<not> list_empty (vlinks st) (mm_vma_head mm)"
    using assms(1) list_rep_empty[of "vlinks st" "mm_vma_head mm" "map vma_node vs"] by (simp add: areas_def)
  let ?ys = "dropWhile (\<lambda>v. vma_start st v < addr + sz) vs"
  have vs: "vs = xs @ ?ys" by (simp add: xs)
  have "prev_vma st (hd (?ys @ [sentry mm])) = p" unfolding p using assms(1) vs by (intro areas_prev) simp
  then show ?thesis using ne Cons vma_search_areas[OF assms(1), of "\<lambda>v. addr + sz \<le> vma_start st v"]
    by (simp add: uu_find_vma_before_def not_le Let_def)
qed

section \<open>Order of the areas\<close>

text \<open>The areas are sorted by address and do not overlap.\<close>

definition areas_ok :: "'s uvm \<Rightarrow> u32 list \<Rightarrow> bool" where
  "areas_ok st vs \<longleftrightarrow> sorted_wrt (\<lambda>v w. unat (vma_start st v) + unat (vma_size st v) \<le> unat (vma_start st w)) vs \<and>
     (\<forall>v\<in>set vs. 0 < unat (vma_size st v) \<and> unat (vma_start st v) + unat (vma_size st v) < 2 ^ 32)"

lemma areas_ok_insert:
  assumes ok: "areas_ok st vs" and xs: "xs = takeWhile (\<lambda>v. vma_start st v < addr + sz) vs"
    and ys: "ys = dropWhile (\<lambda>v. vma_start st v < addr + sz) vs"
    and range: "0 < unat sz" "unat addr + unat sz < 2 ^ 32"
    and free: "xs \<noteq> [] \<longrightarrow> \<not> addr < vma_start st (last xs) + vma_size st (last xs)"
    and new: "vma_start st' v = addr" "vma_size st' v = sz"
    and old: "\<And>w. w \<in> set vs \<Longrightarrow> vma_start st' w = vma_start st w \<and> vma_size st' w = vma_size st w"
  shows "areas_ok st' (xs @ v # ys)"
proof -
  have vs: "vs = xs @ ys" by (simp add: xs ys)
  have sum: "unat (addr + sz) = unat addr + unat sz" using range(2) by (subst unat_plus_small) simp_all
  have before: "unat (vma_start st w) + unat (vma_size st w) \<le> unat addr" if "w \<in> set xs" for w
  proof -
    obtain zs l where l: "xs = zs @ [l]" using \<open>w \<in> set xs\<close> by (cases xs rule: rev_cases) auto
    have "unat (vma_start st l) + unat (vma_size st l) < 2 ^ 32" using ok l vs by (auto simp: areas_ok_def)
    then have "unat (vma_start st l + vma_size st l) = unat (vma_start st l) + unat (vma_size st l)"
      by (subst unat_plus_small) simp_all
    then have last: "unat (vma_start st l) + unat (vma_size st l) \<le> unat addr"
      using free l by (simp add: word_less_nat_alt)
    show ?thesis
    proof (cases "w = l")
      case False
      then have "unat (vma_start st w) + unat (vma_size st w) \<le> unat (vma_start st l)"
        using ok that l vs by (auto simp: areas_ok_def sorted_wrt_append)
      then show ?thesis using last by simp
    qed (use last in simp)
  qed
  have after: "unat addr + unat sz \<le> unat (vma_start st w)" if "w \<in> set ys" for w
  proof -
    obtain y zs where y: "ys = y # zs" using \<open>w \<in> set ys\<close> by (cases ys) auto
    have "\<not> vma_start st y < addr + sz" using hd_dropWhile[of _ vs] y ys by (metis list.sel(1) list.distinct(1))
    then have "unat addr + unat sz \<le> unat (vma_start st y)" by (simp add: word_less_nat_alt sum)
    moreover have "unat (vma_start st y) \<le> unat (vma_start st w)"
      using ok vs y that by (fastforce simp: areas_ok_def sorted_wrt_append)
    ultimately show ?thesis by simp
  qed
  have "sorted_wrt (\<lambda>v w. unat (vma_start st' v) + unat (vma_size st' v) \<le> unat (vma_start st' w)) (xs @ ys)"
    using ok old unfolding areas_ok_def vs by (auto elim!: sorted_wrt_mono_rel[rotated])
  then show ?thesis using ok old new range before after unfolding areas_ok_def vs by (auto simp: sorted_wrt_append)
qed

text \<open>Hooking in a new area behind the place that was found.\<close>

lemma list_rep_frame:
  assumes "list_rep h l xs" "{new, p, n} \<inter> set (l # xs) = {}"
  shows "list_rep (uu_list_add h new p n) l xs"
  using assms by (auto simp: list_rep_def uu_list_add_def Let_def)

lemma link_vma_areas:
  assumes rep: "areas st mm (xs @ ys)" and pl: "list_rep (vlinks st) (upages_vma_head p) []"
    and new: "vma_node v \<notin> set (mm_vma_head mm # map vma_node (xs @ ys))"
    and apart: "{vma_share_node v, upages_vma_head p} \<inter> set (mm_vma_head mm # map vma_node (xs @ v # ys)) = {}"
  shows "areas (link_vma v p (last (sentry mm # xs)) st) mm (xs @ v # ys)"
proof -
  let ?l = "mm_vma_head mm" and ?h = "vlinks st"
  let ?p = "vma_node (last (sentry mm # xs))"
  have p: "?p = last (?l # map vma_node xs)" by (cases xs rule: rev_cases) simp_all
  have rep': "list_rep ?h ?l (map vma_node xs @ map vma_node ys)" using rep by (simp add: areas_def)
  have nxt: "lnext ?h ?p = hd (map vma_node ys @ [?l])"
  proof -
    have "dll ?h ?p (map vma_node ys) ?l" using rep' unfolding p
      by (cases xs rule: rev_cases) (auto simp: list_rep_def)
    then show ?thesis by (rule dll_first)
  qed
  let ?h1 = "list_add ?h (vma_node v) ?p"
  have h1: "list_rep ?h1 ?l (map vma_node (xs @ v # ys))"
    using list_rep_insert[OF rep', of "vma_node v"] new by (simp only: list_add_def nxt) (auto simp: last_map split: if_splits)
  have "lnext ?h1 (upages_vma_head p) = upages_vma_head p"
  proof -
    have "upages_vma_head p \<noteq> vma_node v" "upages_vma_head p \<noteq> ?p" unfolding p
      using apart by (cases xs rule: rev_cases, auto)+
    then show ?thesis using pl by (simp add: list_add_def uu_list_add_def Let_def list_rep_def)
  qed
  then have "list_rep (list_add ?h1 (vma_share_node v) (upages_vma_head p)) ?l (map vma_node (xs @ v # ys))"
    unfolding list_add_def[of ?h1] by (intro list_rep_frame[OF h1]) (use apart in auto)
  then show ?thesis by (simp add: areas_def link_vma_def Let_def uu_ref_upages_def)
qed

section \<open>Nothing can be unmapped\<close>

lemma unmap_panics [simp]: "uunmap_pages mm va n st = Some Panic"
  by (simp add: uunmap_pages_def unmap_pages_def)

lemma unmap_and_free_panics: "i < n \<Longrightarrow> uu_unmap_and_free_vma sa mm v i n st = Some Panic"
  by (simp add: uu_unmap_and_free_vma.simps[of sa mm v i n st] Let_def)

lemma clean_vma_panics [simp]: "uu_clean_vma mm vma st = Some Panic"
  by (simp add: uu_clean_vma_def rassert_def)

lemma mm_destroy_panics:
  assumes "areas st mm (v # vs)" "mm \<noteq> 0" "mm \<noteq> kernel_mm st"
  shows "mm_destroy sa mm st = Some Panic"
proof -
  have "lnext (vlinks st) (mm_vma_head mm) = vma_node v" "vma_node v \<noteq> mm_vma_head mm"
    using assms(1) by (auto simp: areas_def list_rep_def)
  then show ?thesis using assms(2,3) by (simp add: mm_destroy_def Let_def mm_destroy_loop.simps[of sa mm v])
qed

lemma destroy_uvm_cases:
  assumes "destroy_uvm sa mm addr len st = rret (st', r)" "0 < len"
  shows "st' = st \<and> (r = - EINVAL \<or> r = - EFAULT)"
  using assms unmap_and_free_panics[of 0 len sa mm _ st]
  by (auto simp: destroy_uvm_def rbind_eq_ret split: if_splits)

section \<open>Copies\<close>

lemma align_next_page:
  assumes "unat start + 4096 < 2 ^ 32"
  shows "unat (ALIGN_NEXT start (4096 :: u32)) = (unat start div 4096 + 1) * 4096"
proof -
  have "unat (start + 1) = unat start + 1" using assms by (subst unat_plus_small) simp_all
  then have "unat (ALIGN_ABOVE (start + 1) (2 ^ 12)) = (unat start + 4096) div 4096 * 4096"
    using unat_align_above[of "start + 1" 12] div_times_less_eq_dividend[of "unat start + 4096" 4096] assms by simp
  moreover have "(unat start + 4096) div 4096 = unat start div 4096 + 1" by (rule div_add_self2) simp
  ultimately show ?thesis by (simp add: ALIGN_NEXT_def)
qed

lemma copy_pages_ends:
  assumes "unat stop + 4096 < 2 ^ 32"
  shows "\<exists>r. copy_pages u mm start stop vaddr c fill touser st = Some r"
proof (induction "unat stop - unat start" arbitrary: start vaddr st rule: less_induct)
  case less
  show ?case
  proof (cases "start < stop")
    case True
    have "walkpgdir u (upmm st) (mm_pgindex st mm) start False \<noteq> None" by (simp add: walkpgdir_def Let_def)
    then obtain pm pte where w: "walkpgdir u (upmm st) (mm_pgindex st mm) start False = Some (pm, pte)" by auto
    have "unat start < unat stop" using True by (simp add: word_less_nat_alt)
    then have "unat start < unat (ALIGN_NEXT start 4096)" using align_next_page[of start] assms by simp
    then have dec: "unat stop - unat (ALIGN_NEXT start 4096) < unat stop - unat start"
      using \<open>unat start < unat stop\<close> by simp
    show ?thesis using True w less[OF dec]
      by (subst copy_pages.simps) (auto simp: uva2kva_def Let_def)
  qed (simp add: copy_pages.simps[of u mm start])
qed

text \<open>
  A page of user memory is reached at its kernel address, but without the offset of the access:
  a fill that begins inside the page is stored at the beginning of the page.
\<close>

lemma uva2kva_page:
  assumes "pd_wf (kmem (upmm st)) f" "pte_of (kmem (upmm st)) f va = Some e" "e AND PTE_U \<noteq> 0"
  shows "uva2kva u (f + KERN_BASE) va st = Some (postmap_addr (PTE_ADDR e))"
proof -
  let ?m = "kmem (upmm st)" and ?pde = "pde_at (kmem (upmm st)) f va"
  have p: "present ?pde" "present e" "load32 ?m (pw (PTE_ADDR ?pde) (PTX va)) = e"
    using assms(2) by (auto simp: pte_of_def Let_def split: if_splits)
  have ok: "page_ok f" "page_ok (PTE_ADDR ?pde)" using assms(1) p(1) by (auto simp: pd_wf_def)
  have "walkpgdir u (upmm st) (f + KERN_BASE) va False = Some (upmm st, pw (PTE_ADDR ?pde) (PTX va))"
    using p(1) ok by (simp add: walkpgdir_def Let_def vload_def present_def postmap_page[OF ok(2)] pw_def[symmetric])
  then show ?thesis using p ok assms(3) by (simp add: uva2kva_def Let_def vload_def present_def)
qed

lemma fill_misses_offset:
  assumes "pd_wf (kmem (upmm st)) f" "mm_pgindex st mm = f + KERN_BASE"
    and "pte_of (kmem (upmm st)) f start = Some e" "e AND PTE_U \<noteq> 0" "postmap_addr (PTE_ADDR e) \<noteq> 0"
    and page: "unat start < unat stop" "unat stop \<le> (unat start div 4096 + 1) * 4096" "unat start + 4096 < 2 ^ 32"
  shows "copy_pages u mm start stop vaddr c True touser st =
    Some (set_ukmem st (vmemset (kmem (upmm st)) (postmap_addr (PTE_ADDR e)) c (stop - start)), 0)"
proof -
  note n = align_next_page[OF page(3)]
  have lt: "start < stop" "\<not> ALIGN_NEXT start 4096 < stop" using page(1,2) n by (simp_all add: word_less_nat_alt)
  have "min (ALIGN_NEXT start 4096) stop = stop" using lt(2) by (simp add: min_def)
  then show ?thesis
    using lt uva2kva_page[OF assms(1,3,4), of u]
    by (subst copy_pages.simps) (simp add: assms(2,5) Let_def copy_pages.simps[of u mm "ALIGN_NEXT start 4096"])
qed

end
