(* ===== verification/Proc.thy ===== *)
theory Proc
  imports Uvm Sync Bitmap_Search
begin

text \<open>
  Processes: \<^verbatim>\<open>include/aim/proc.h\<close>, \<^verbatim>\<open>kern/proc/proc.c\<close>, \<^verbatim>\<open>proctree.c\<close>, \<^verbatim>\<open>namespace.c\<close>,
  \<^verbatim>\<open>initproc.c\<close> and the i386 part in \<^verbatim>\<open>kern/arch/i386/proc.c\<close> with the register switch of
  \<^verbatim>\<open>switch.S\<close>. The processes and trap frames are functions of their addresses; a CPU is known
  by its number.
\<close>

section \<open>Data\<close>

record cpu_context =
  c_edi :: u32
  c_esi :: u32
  c_ebx :: u32
  c_ebp :: u32
  c_eip :: u32

definition zero_context :: cpu_context where
  "zero_context = \<lparr>c_edi = 0, c_esi = 0, c_ebx = 0, c_ebp = 0, c_eip = 0\<rparr>"

record trapframe =
  tf_edi :: u32
  tf_esi :: u32
  tf_ebp :: u32
  tf_oesp :: u32
  tf_ebx :: u32
  tf_edx :: u32
  tf_ecx :: u32
  tf_eax :: u32
  tf_gs :: u16
  tf_fs :: u16
  tf_es :: u16
  tf_ds :: u16
  tf_trapno :: u32
  tf_err :: u32
  tf_eip :: u32
  tf_cs :: u16
  tf_eflags :: u32
  tf_esp :: u32
  tf_ss :: u16

definition sizeof_trapframe :: u32 where "sizeof_trapframe = 76"

definition PS_EMBRYO :: u32 where "PS_EMBRYO = 1"
definition PS_RUNNABLE :: u32 where "PS_RUNNABLE = 2"
definition PS_SLEEPING :: u32 where "PS_SLEEPING = 3"
definition PS_ZOMBIE :: u32 where "PS_ZOMBIE = 4"
definition PS_ONPROC :: u32 where "PS_ONPROC = 5"
definition CPU_NONE :: int where "CPU_NONE = -1"
definition PROC_NAME_LEN_MAX :: nat where "PROC_NAME_LEN_MAX = 256"
definition MAX_PROCESSES :: u32 where "MAX_PROCESSES = 65536"

record proc =
  proc_sz :: u32
  proc_tf :: u32
  kstack :: u32
  kstack_size :: u32
  tid :: u32
  pid :: u32
  kpid :: u32
  state :: u32
  exit_code :: u32
  exit_signal :: u32
  proc_flags :: u32
  oncpu :: int
  bed :: u32
  namespace :: u32
  proc_mm :: u32
  context_of :: cpu_context
  heapsize :: u32
  heapbase :: u32
  pname :: "u8 list"
  groupleader :: u32
  sessionleader :: u32
  tty :: u32
  mainthread :: u32
  parent :: u32
  first_child :: u32
  next_sibling :: u32
  prev_sibling :: u32
  proc_scheduler :: u32

definition sizeof_proc :: u32 where "sizeof_proc = 392"
definition sched_node :: "u32 \<Rightarrow> u32" where "sched_node p = p + 380"

text \<open>The kernel state that processes and scheduling work on; \<open>node_p\<close> is the member \<^verbatim>\<open>p\<close> of a list node.\<close>

record 's sys =
  ust :: "'s uvm"
  procs :: "u32 \<Rightarrow> proc"
  frames :: "u32 \<Rightarrow> trapframe"
  freekpid :: wmem
  current_proc :: "nat \<Rightarrow> u32"
  idleproc :: "nat \<Rightarrow> u32"
  regs :: cpu_context
  scheduler :: u32
  slinks :: links
  node_p :: "u32 \<Rightarrow> u32"
  sched_lock :: lock
  sched_intrflags :: u32
  initproc :: u32

definition set_proc :: "u32 \<Rightarrow> (proc \<Rightarrow> proc) \<Rightarrow> 's sys \<Rightarrow> 's sys" where
  "set_proc p f st = st\<lparr>procs := (procs st)(p := f (procs st p))\<rparr>"

definition set_spmm :: "'s sys \<Rightarrow> 's pmm \<Rightarrow> 's sys" where
  "set_spmm st pm = st\<lparr>ust := set_upmm (ust st) pm\<rparr>"

definition kstacktop :: "proc \<Rightarrow> u32" where
  "kstacktop proc = kstack proc + kstack_size proc"

section \<open>Kernel stacks and process numbers\<close>

definition alloc_kstack :: "u64 \<Rightarrow> 's sys \<Rightarrow> ('s sys \<times> u32) option" where
  "alloc_kstack u st = (case pgalloc u (upmm (ust st)) of
     None \<Rightarrow> None
   | Some (pm, pa) \<Rightarrow> Some (set_spmm st pm, if pa = -1 then 0 else pa2kva pa))"

definition free_kstack :: "u32 \<Rightarrow> 's sys \<Rightarrow> 's sys option" where
  "free_kstack ks st = (case pgfree (upmm (ust st)) (ucast (kva2pa ks)) of None \<Rightarrow> None | Some pm \<Rightarrow> Some (set_spmm st pm))"

definition alloc_kstack_size :: "u32 \<Rightarrow> 's sys \<Rightarrow> ('s sys \<times> u32) run" where
  "alloc_kstack_size sz st = Some Panic"

text \<open>The bodies of the atomic operations on bits are empty.\<close>

definition atomic_set_bit :: "u32 \<Rightarrow> wmem \<Rightarrow> wmem" where "atomic_set_bit nr m = m"
definition atomic_clear_bit :: "u32 \<Rightarrow> wmem \<Rightarrow> wmem" where "atomic_clear_bit nr m = m"

definition kpid_new :: "'s sys \<Rightarrow> 's sys \<times> u32" where
  "kpid_new st =
     (let k = bitmap_find_first_zero_bit (freekpid st) 0 MAX_PROCESSES
      in (st\<lparr>freekpid := atomic_set_bit k (freekpid st)\<rparr>, k))"

definition kpid_recycle :: "u32 \<Rightarrow> 's sys \<Rightarrow> 's sys" where
  "kpid_recycle k st = st\<lparr>freekpid := atomic_clear_bit k (freekpid st)\<rparr>"

definition pid_new :: "u32 \<Rightarrow> u32 \<Rightarrow> u32" where "pid_new k ns = k"
definition pid_recycle :: "u32 \<Rightarrow> u32 \<Rightarrow> 's sys \<Rightarrow> 's sys" where "pid_recycle p ns st = st"

section \<open>Creation and destruction\<close>

definition skmalloc :: "'s simple_allocator \<Rightarrow> u32 \<Rightarrow> 's sys \<Rightarrow> ('s sys \<times> u32) run" where
  "skmalloc sa n st = rbind (ukmalloc sa n (ust st)) (\<lambda>(s, p). rret (st\<lparr>ust := s\<rparr>, p))"

definition skfree :: "'s simple_allocator \<Rightarrow> u32 \<Rightarrow> 's sys \<Rightarrow> 's sys run" where
  "skfree sa p st = rbind (ukfree sa p (ust st)) (\<lambda>s. rret (st\<lparr>ust := s\<rparr>))"

text \<open>What \<^verbatim>\<open>proc_new\<close> writes into a process besides its stack and numbers.\<close>

definition fresh_proc :: "u32 \<Rightarrow> u32 \<Rightarrow> proc \<Rightarrow> proc" where
  "fresh_proc ns sched p =
     p\<lparr>state := PS_EMBRYO, exit_code := 0, exit_signal := 0, proc_flags := 0, oncpu := CPU_NONE, bed := 0,
       namespace := ns, proc_mm := 0, context_of := zero_context, heapsize := 0, heapbase := 0,
       pname := replicate PROC_NAME_LEN_MAX 0, tty := 0, mainthread := 0, groupleader := 0, sessionleader := 0,
       parent := 0, first_child := 0, next_sibling := 0, prev_sibling := 0, proc_scheduler := sched\<rparr>"

definition proc_new :: "'s simple_allocator \<Rightarrow> u64 \<Rightarrow> u32 \<Rightarrow> 's sys \<Rightarrow> ('s sys \<times> u32) run" where
  "proc_new sa u ns st = rbind (skmalloc sa sizeof_proc st) (\<lambda>(st, p).
     if p = 0 then rret (st, 0)
     else case alloc_kstack u st of
            None \<Rightarrow> None
          | Some (st, ks) \<Rightarrow>
              let st = set_proc p (\<lambda>q. q\<lparr>kstack := ks\<rparr>) st
              in if ks = 0 then rbind (skfree sa p st) (\<lambda>st. rret (st, 0))
                 else let st = set_proc p (\<lambda>q. q\<lparr>kstack_size := 4096\<rparr>) st;
                          (st, k) = kpid_new st;
                          st = set_proc p (\<lambda>q. q\<lparr>kpid := k, pid := pid_new k ns, tid := k\<rparr>) st;
                          st = set_proc p (fresh_proc ns (scheduler st)) st;
                          st = st\<lparr>slinks := INIT_LIST_HEAD (slinks st) (sched_node p), node_p := (node_p st)(sched_node p := p)\<rparr>
                      in rret (st, p))"

definition proc_destroy :: "'s simple_allocator \<Rightarrow> u32 \<Rightarrow> 's sys \<Rightarrow> 's sys run" where
  "proc_destroy sa p st =
     (let st = pid_recycle (pid (procs st p)) (namespace (procs st p)) st;
          st = kpid_recycle (kpid (procs st p)) st
      in case free_kstack (kstack (procs st p)) st of
           None \<Rightarrow> None
         | Some st \<Rightarrow> skfree sa p st)"

section \<open>Architecture part\<close>

definition uu_proc_trapframe :: "proc \<Rightarrow> u32" where
  "uu_proc_trapframe proc = kstacktop proc - sizeof_trapframe"

text \<open>These routines have no body yet.\<close>

definition uu_bootstrap_trapframe :: "u32 \<Rightarrow> u32 \<Rightarrow> u32 \<Rightarrow> u32 \<Rightarrow> 's sys \<Rightarrow> 's sys" where
  "uu_bootstrap_trapframe tf entry stacktop args st = st"

definition uu_bootstrap_context :: "u32 \<Rightarrow> u32 \<Rightarrow> 's sys \<Rightarrow> 's sys" where
  "uu_bootstrap_context p tf st = st"

definition uu_bootstrap_user :: "u32 \<Rightarrow> 's sys \<Rightarrow> 's sys" where
  "uu_bootstrap_user tf st = st"

definition uu_proc_ksetup :: "u32 \<Rightarrow> u32 \<Rightarrow> u32 \<Rightarrow> 's sys \<Rightarrow> 's sys" where
  "uu_proc_ksetup p entry args st =
     (let tf = uu_proc_trapframe (procs st p);
          st = uu_bootstrap_trapframe tf entry (kstacktop (procs st p)) args st
      in uu_bootstrap_context p tf st)"

definition uu_proc_usetup :: "u32 \<Rightarrow> u32 \<Rightarrow> u32 \<Rightarrow> u32 \<Rightarrow> 's sys \<Rightarrow> 's sys" where
  "uu_proc_usetup p entry stacktop args st =
     (let tf = uu_proc_trapframe (procs st p);
          st = uu_bootstrap_trapframe tf entry stacktop args st;
          st = uu_bootstrap_context p tf st
      in uu_bootstrap_user tf st)"

definition uu_arch_fork :: "u32 \<Rightarrow> u32 \<Rightarrow> 's sys \<Rightarrow> 's sys" where
  "uu_arch_fork child par st =
     (let tf_child = uu_proc_trapframe (procs st child);
          tf_parent = uu_proc_trapframe (procs st par);
          st = st\<lparr>frames := (frames st)(tf_child := frames st tf_parent)\<rparr>
      in uu_bootstrap_context child tf_child st)"

text \<open>The registers that \<^verbatim>\<open>switch.S\<close> exchanges: neither the stack nor the program counter.\<close>

definition switch_regs :: "cpu_context \<Rightarrow> cpu_context \<Rightarrow> cpu_context \<Rightarrow> cpu_context \<times> cpu_context" where
  "switch_regs r old new =
     (old\<lparr>c_edi := c_edi r, c_esi := c_esi r, c_ebx := c_ebx r, c_ebp := c_ebp r\<rparr>,
      r\<lparr>c_edi := c_edi new, c_esi := c_esi new, c_ebx := c_ebx new, c_ebp := c_ebp new\<rparr>)"

definition switch_context :: "nat \<Rightarrow> u32 \<Rightarrow> 's sys \<Rightarrow> 's sys" where
  "switch_context c p st =
     (let cur = current_proc st c;
          st = st\<lparr>current_proc := (current_proc st)(c := p)\<rparr>;
          u = ust st;
          st = st\<lparr>ust := u\<lparr>umach := snd (switch_pgindex (mm_pgindex u (proc_mm (procs st p))) (umach u))\<rparr>\<rparr>;
          old = context_of (procs st cur);
          st = set_proc cur (\<lambda>q. q\<lparr>context_of := fst (switch_regs (regs st) old (context_of (procs st p)))\<rparr>) st
      in st\<lparr>regs := snd (switch_regs (regs st) old (context_of (procs st p)))\<rparr>)"

section \<open>Setup\<close>

definition proc_ksetup :: "u32 \<Rightarrow> u32 \<Rightarrow> u32 \<Rightarrow> 's sys \<Rightarrow> 's sys" where
  "proc_ksetup p entry args st =
     (let st = set_proc p (\<lambda>q. q\<lparr>proc_mm := kernel_mm (ust st)\<rparr>) st in uu_proc_ksetup p entry args st)"

definition proc_usetup :: "u32 \<Rightarrow> u32 \<Rightarrow> u32 \<Rightarrow> u32 \<Rightarrow> 's sys \<Rightarrow> 's sys" where
  "proc_usetup p entry stacktop args st = uu_proc_usetup p entry stacktop args st"

definition proc_init :: "'s sys \<Rightarrow> 's sys" where "proc_init st = st"

definition idle_init :: "nat \<Rightarrow> 's sys \<Rightarrow> 's sys" where
  "idle_init c st =
     (let st = st\<lparr>current_proc := (current_proc st)(c := idleproc st c)\<rparr>
      in set_proc (idleproc st c) (\<lambda>q. q\<lparr>state := PS_RUNNABLE, proc_mm := kernel_mm (ust st), kpid := 0\<rparr>) st)"

definition proctree_add_child :: "u32 \<Rightarrow> u32 \<Rightarrow> 's sys \<Rightarrow> 's sys" where
  "proctree_add_child child par st =
     (let st = set_proc child (\<lambda>q. q\<lparr>parent := par\<rparr>) st;
          st = set_proc child (\<lambda>q. q\<lparr>next_sibling := first_child (procs st par)\<rparr>) st;
          st = (if first_child (procs st par) \<noteq> 0
                then set_proc (first_child (procs st par)) (\<lambda>q. q\<lparr>prev_sibling := child\<rparr>) st else st)
      in set_proc par (\<lambda>q. q\<lparr>first_child := child\<rparr>) st)"

text \<open>A null result of \<^verbatim>\<open>proc_new\<close> is written through all the same.\<close>

definition spawn_initproc :: "'s simple_allocator \<Rightarrow> u64 \<Rightarrow> u32 \<Rightarrow> 's sys \<Rightarrow> 's sys run" where
  "spawn_initproc sa u entry st = rbind (proc_new sa u 0 st) (\<lambda>(st, p).
     let st = st\<lparr>initproc := p\<rparr>;
         st = proc_ksetup p entry 0 st
     in rret (set_proc p (\<lambda>q. q\<lparr>state := PS_RUNNABLE, groupleader := p, sessionleader := p, mainthread := p\<rparr>) st))"

section \<open>Properties\<close>

text \<open>A number is not marked as used: the next process gets the same one.\<close>

lemma kpid_new_first:
  "unat (snd (kpid_new st)) = next_elem ({..<65536} - bits_of (freekpid st) 0 65536) 0"
  using bitmap_find_next_zero_bit_correct[of "freekpid st" 0 MAX_PROCESSES 1]
  by (simp add: kpid_new_def Let_def bitmap_find_first_zero_bit_next MAX_PROCESSES_def)

lemma kpid_new_repeats: "kpid_new (fst (kpid_new st)) = kpid_new st"
  by (simp add: kpid_new_def Let_def atomic_set_bit_def)

text \<open>The children of a process, from the youngest to the oldest.\<close>

fun siblings :: "(u32 \<Rightarrow> proc) \<Rightarrow> u32 \<Rightarrow> u32 list \<Rightarrow> bool" where
  "siblings P c [] \<longleftrightarrow> c = 0"
| "siblings P c (x # xs) \<longleftrightarrow> c = x \<and> x \<noteq> 0 \<and> siblings P (next_sibling (P x)) xs \<and>
     (case xs of [] \<Rightarrow> True | y # _ \<Rightarrow> prev_sibling (P y) = x)"

definition children :: "'s sys \<Rightarrow> u32 \<Rightarrow> u32 list \<Rightarrow> bool" where
  "children st par xs \<longleftrightarrow> distinct xs \<and> siblings (procs st) (first_child (procs st par)) xs \<and> (\<forall>x\<in>set xs. parent (procs st x) = par)"

lemma siblings_cong:
  assumes "\<And>x. x \<in> set xs \<Longrightarrow> next_sibling (P' x) = next_sibling (P x) \<and> prev_sibling (P' x) = prev_sibling (P x)"
  shows "siblings P' c xs = siblings P c xs"
  using assms by (induction xs arbitrary: c) (auto split: list.splits)

lemma siblings_not_0: "siblings P c xs \<Longrightarrow> 0 \<notin> set xs"
  by (induction xs arbitrary: c) auto

lemma proctree_add_child_children:
  assumes ch: "children st par xs" and new: "child \<noteq> 0" "child \<notin> set xs" "child \<noteq> par" "par \<notin> set xs"
  shows "children (proctree_add_child child par st) par (child # xs)"
proof -
  let ?P = "procs st" and ?P' = "procs (proctree_add_child child par st)"
  have fc: "first_child (?P par) = hd (xs @ [0])" using ch by (cases xs) (auto simp: children_def)
  have first: "first_child (?P' par) = child"
    by (simp add: proctree_add_child_def set_proc_def Let_def)
  have nxt: "next_sibling (?P' child) = hd (xs @ [0])" "parent (?P' child) = par"
    using new ch fc by (auto simp: proctree_add_child_def set_proc_def Let_def children_def split: list.splits)
  have old: "next_sibling (?P' x) = next_sibling (?P x) \<and> parent (?P' x) = parent (?P x) \<and>
      prev_sibling (?P' x) = (if x = hd (xs @ [0]) then child else prev_sibling (?P x))" if "x \<in> set xs" for x
    using that new fc siblings_not_0[of ?P _ xs] ch
    by (auto simp: proctree_add_child_def set_proc_def Let_def children_def)
  have "siblings ?P' (hd (xs @ [0])) xs"
  proof (cases xs)
    case (Cons y ys)
    have "y \<notin> set ys" using ch Cons by (auto simp: children_def)
    then have "siblings ?P' c' ys = siblings ?P c' ys" for c'
      by (intro siblings_cong) (use old Cons in auto)
    then show ?thesis using ch Cons old[of y] fc old[of "hd ys"] \<open>y \<notin> set ys\<close>
      by (cases ys) (auto simp: children_def)
  qed simp
  then show ?thesis using ch new first nxt old by (auto simp: children_def split: list.splits)
qed

text \<open>Switching to a process loads its page index and its registers.\<close>

lemma switch_context_to:
  "current_proc (switch_context c p st) c = p"
  "get_pgindex (umach (ust (switch_context c p st))) = mm_pgindex (ust st) (proc_mm (procs st p))"
  by (simp_all add: switch_context_def Let_def set_proc_def get_switch_pgindex)

lemma switch_context_back:
  assumes "current_proc st c = p" "p \<noteq> q"
  shows "regs (switch_context c p (switch_context c q st)) = regs st"
  using assms by (cases "regs st") (simp add: switch_context_def switch_regs_def Let_def set_proc_def)

end
