(* ===== verification/Trap.thy ===== *)
theory Trap
  imports Percpu Proc
begin

text \<open>
  Panics (\<^verbatim>\<open>kern/panic/panic.c\<close>), the interrupt descriptor table
  (\<^verbatim>\<open>kern/arch/i386/arch_trap.c\<close>) with the entry points of \<^verbatim>\<open>do_irq.S\<close>, and the
  handling of interrupts and system calls (\<^verbatim>\<open>kern/trap/trap.c\<close>). Without \<^verbatim>\<open>DEBUG\<close> the macro
  \<^verbatim>\<open>kpdebug\<close> is empty.
\<close>

section \<open>Panics\<close>

text \<open>The result of a function that does not return is the state in which the CPU halts.\<close>

definition uu_local_panic :: "nat \<Rightarrow> smp \<times> kern \<Rightarrow> (smp \<times> kern) run" where
  "uu_local_panic c = (\<lambda>(x, k). case cpuid c x of
     None \<Rightarrow> None
   | Some n \<Rightarrow> rbind (kprintf c (\<lambda>_. of_int n) (\<lambda>_. []) (''CUP %d local panic!'' @ nl) k) (\<lambda>(_, k). rret (x, k)))"

definition panic_other_cpus :: "smp \<times> kern \<Rightarrow> smp \<times> kern" where
  "panic_other_cpus = (\<lambda>(x, k). (x, k\<lparr>km := broadcast_ipi_ex (lapic x) (T_IRQ0 + PANIC_INTERRUPT_NUM) (km k)\<rparr>))"

definition panic :: "nat \<Rightarrow> (nat \<Rightarrow> u32) \<Rightarrow> (u32 \<Rightarrow> char list) \<Rightarrow> char list \<Rightarrow> smp \<times> kern \<Rightarrow> (smp \<times> kern) run" where
  "panic c ap strs fmt = (\<lambda>(x, k).
     let k = k\<lparr>km := local_irq_disable (km k)\<rparr>;
         (x, k) = panic_other_cpus (x, k)
     in case vsnprintf BUFSIZ ap strs fmt of
          None \<Rightarrow> None
        | Some (buf, result) \<Rightarrow>
            rbind (kputs c (cstr (''----- KERNEL PANIC -----'' @ nl)) k) (\<lambda>(_, k).
            rbind (if result \<ge> BUFSIZ then kputs c (cstr ''PANIC: message is truncated.'') k else rret (0, k)) (\<lambda>(_, k).
            rbind (kputs c buf k) (\<lambda>(_, k).
            uu_local_panic c (x, k)))))"

section \<open>The descriptor table\<close>

definition INTERRUPT_GATE_32 :: "4 word" where "INTERRUPT_GATE_32 = 0xE"
definition TRAP_GATE_32 :: "4 word" where "TRAP_GATE_32 = 0xF"
definition NR_IRQ :: nat where "NR_IRQ = 256"
definition DPL_KERNEL :: u32 where "DPL_KERNEL = 0"

definition set_intr :: "gatedesc \<Rightarrow> u32 \<Rightarrow> u32 \<Rightarrow> u32 \<Rightarrow> gatedesc" where
  "set_intr ptr selector offset dpl =
     ptr\<lparr>off_15_0 := ucast (offset AND 0xFFFF), gate_cs := ucast selector, gate_args := 0, gate_type := INTERRUPT_GATE_32,
       gate_s := 0, gate_dpl := ucast dpl, gate_p := 1, off_31_16 := ucast (drop_bit 16 offset AND 0xFFFF)\<rparr>"

definition set_trap :: "gatedesc \<Rightarrow> u32 \<Rightarrow> u32 \<Rightarrow> u32 \<Rightarrow> gatedesc" where
  "set_trap ptr selector offset dpl =
     ptr\<lparr>off_15_0 := ucast (offset AND 0xFFFF), gate_cs := ucast selector, gate_args := 0, gate_type := TRAP_GATE_32,
       gate_s := 0, gate_dpl := ucast dpl, gate_p := 1, off_31_16 := ucast (drop_bit 16 offset AND 0xFFFF)\<rparr>"

text \<open>The entry points of \<^verbatim>\<open>do_irq.S\<close>, and the number that each pushes as \<^verbatim>\<open>trapno\<close>.\<close>

datatype entry_point = Vec nat | Vecsys | Irq0 | Irq1 | Irq14 | Irq38 | Irq_Empty

fun pushed_trapno :: "entry_point \<Rightarrow> u32" where
  "pushed_trapno (Vec n) = of_nat n"
| "pushed_trapno Vecsys = 0x80"
| "pushed_trapno Irq0 = 32"
| "pushed_trapno Irq1 = 33"
| "pushed_trapno Irq14 = 46"
| "pushed_trapno Irq38 = 70"
| "pushed_trapno Irq_Empty = -1"

text \<open>\<open>addr\<close> gives the addresses of the entry points, \<open>idt_addr\<close> that of the table; the loop over all the gates is followed by the single ones.\<close>

abbreviation KCODE_SELECTOR :: u32 where "KCODE_SELECTOR \<equiv> push_bit 3 (of_nat SEG_KCODE)"

definition idt_init :: "(entry_point \<Rightarrow> u32) \<Rightarrow> u32 \<Rightarrow> (nat \<Rightarrow> gatedesc) \<times> mach \<Rightarrow> (nat \<Rightarrow> gatedesc) \<times> mach" where
  "idt_init addr idt_addr = (\<lambda>(idt, s).
     let trap = (\<lambda>i e dpl idt. idt(i := set_trap (idt i) KCODE_SELECTOR (addr e) dpl));
         intr = (\<lambda>i e dpl idt. idt(i := set_intr (idt i) KCODE_SELECTOR (addr e) dpl));
         idt = for_loop 0 NR_IRQ (\<lambda>i. trap i Irq_Empty DPL_KERNEL) idt;
         idt = for_loop 0 15 (\<lambda>i. trap i (Vec i) DPL_KERNEL) idt;
         idt = trap 0x80 Vecsys DPL_USER idt;
         idt = intr (32 + 0) Irq0 DPL_KERNEL idt;
         idt = intr (32 + 1) Irq1 DPL_KERNEL idt;
         idt = intr (32 + 14) Irq14 DPL_KERNEL idt;
         idt = intr (32 + 38) Irq38 DPL_KERNEL idt
     in (idt, write_idtr idt_addr (of_nat NR_IRQ * 8) s))"

definition trap_init :: "(entry_point \<Rightarrow> u32) \<Rightarrow> u32 \<Rightarrow> (nat \<Rightarrow> gatedesc) \<times> mach \<Rightarrow> (nat \<Rightarrow> gatedesc) \<times> mach" where
  "trap_init addr idt_addr = (\<lambda>(idt, s). idt_init addr idt_addr (idt, cli s))"

section \<open>Handling\<close>

definition handle_syscall :: "u32 \<Rightarrow> u32 list \<Rightarrow> u32" where
  "handle_syscall num args = 0"

text \<open>Whether the handler returns or the CPU halts.\<close>

datatype 'a handled = Returns 'a | Halts "smp \<times> kern"

definition handle_interrupt :: "nat \<Rightarrow> int \<Rightarrow> smp \<times> kern \<Rightarrow> (smp \<times> kern) handled run" where
  "handle_interrupt c irq = (\<lambda>(x, k).
     if irq = uint (T_IRQ0 + IRQ_TIMER) then rret (Returns (x, k\<lparr>km := lapiceoi (lapic x) (km k)\<rparr>))
     else if irq = uint (T_IRQ0 + PANIC_INTERRUPT_NUM) then rbind (uu_local_panic c (x, k)) (\<lambda>st. rret (Halts st))
     else rret (Returns (x, k\<lparr>km := lapiceoi (lapic x) (km k)\<rparr>)))"

definition irq_handle :: "nat \<Rightarrow> trapframe \<Rightarrow> smp \<times> kern \<Rightarrow> (trapframe \<times> smp \<times> kern) handled run" where
  "irq_handle c tf st =
     (let irq = sint (tf_trapno tf)
      in if irq < 0 then rbind (panic c (\<lambda>_. 0) (\<lambda>_. []) (''Unhandled exception!'' @ nl) st) (\<lambda>st. rret (Halts st))
         else if irq = 0x80
         then rret (Returns (tf\<lparr>tf_eax := handle_syscall (tf_eax tf) [tf_ebx tf, tf_ecx tf, tf_edx tf, tf_esi tf, tf_edi tf, tf_ebp tf]\<rparr>, st))
         else rbind (handle_interrupt c irq st) (\<lambda>h. rret (case h of Returns st \<Rightarrow> Returns (tf, st) | Halts st \<Rightarrow> Halts st)))"

section \<open>The table\<close>

text \<open>The entry point of each vector, and its gate.\<close>

definition entry_of :: "nat \<Rightarrow> entry_point" where
  "entry_of v = (if v < 15 then Vec v else if v = 0x80 then Vecsys else if v = 32 then Irq0 else if v = 33 then Irq1
     else if v = 46 then Irq14 else if v = 70 then Irq38 else Irq_Empty)"

lemma gate_offset_set [simp]:
  "gate_offset (set_trap g sel off d) = off" "gate_offset (set_intr g sel off d) = off"
  unfolding set_trap_def set_intr_def gate_offset_def mask_constants by (rule bit_word_eqI, auto simp: bit_simps)+

text \<open>The gates are filled as by \<^verbatim>\<open>SETGATE\<close>, except for the reserved bits.\<close>

lemma set_trap_SETGATE: "set_trap g sel off d = (SETGATE g True sel off d)\<lparr>gate_rsv1 := gate_rsv1 g\<rparr>"
  and set_intr_SETGATE: "set_intr g sel off d = (SETGATE g False sel off d)\<lparr>gate_rsv1 := gate_rsv1 g\<rparr>"
proof -
  have "(ucast (drop_bit 16 off AND 0xFFFF) :: u16) = ucast (drop_bit 16 off)"
    unfolding mask_constants by (rule bit_word_eqI) (auto simp: bit_simps)
  then show "set_trap g sel off d = (SETGATE g True sel off d)\<lparr>gate_rsv1 := gate_rsv1 g\<rparr>"
    "set_intr g sel off d = (SETGATE g False sel off d)\<lparr>gate_rsv1 := gate_rsv1 g\<rparr>"
    by (simp_all add: set_trap_def set_intr_def SETGATE_def TRAP_GATE_32_def INTERRUPT_GATE_32_def STS_TG32_def STS_IG32_def)
qed

lemma for_loop_update:
  "for_loop 0 n (\<lambda>i f. f(i := g i (f i))) f = (\<lambda>j. if j < n then g j (f j) else f j)"
proof (induction n)
  case (Suc n)
  then show ?case by (auto simp: for_loop_Suc fun_eq_iff less_Suc_eq)
qed simp

definition gate_ok :: "(entry_point \<Rightarrow> u32) \<Rightarrow> nat \<Rightarrow> gatedesc \<Rightarrow> bool" where
  "gate_ok addr v g \<longleftrightarrow> gate_offset g = addr (entry_of v) \<and> gate_cs g = ucast KCODE_SELECTOR \<and> gate_p g = 1 \<and> gate_s g = 0 \<and>
     gate_args g = 0 \<and> gate_dpl g = (if v = 0x80 then 3 else 0) \<and>
     gate_type g = (if v \<in> {32, 33, 46, 70} then INTERRUPT_GATE_32 else TRAP_GATE_32)"

lemma gate_ok_set:
  "v \<notin> {32, 33, 46, 70} \<Longrightarrow> d = (if v = 0x80 then DPL_USER else DPL_KERNEL) \<Longrightarrow> gate_ok addr v (set_trap g KCODE_SELECTOR (addr (entry_of v)) d)"
  "v \<in> {32, 33, 46, 70} \<Longrightarrow> gate_ok addr v (set_intr g KCODE_SELECTOR (addr (entry_of v)) DPL_KERNEL)"
  by (auto simp: gate_ok_def) (auto simp: set_trap_def set_intr_def DPL_USER_def DPL_KERNEL_def)

lemma idt_init_gates:
  assumes "idt_init addr idt_addr (idt, s) = (idt', s')" "v < 256"
  shows "gate_ok addr v (idt' v)"
proof -
  define empty where "empty = (\<lambda>j. if j < 256 then set_trap (idt j) KCODE_SELECTOR (addr Irq_Empty) DPL_KERNEL else idt j)"
  define vecs where "vecs = (\<lambda>j. if j < 15 then set_trap (empty j) KCODE_SELECTOR (addr (Vec j)) DPL_KERNEL else empty j)"
  have i: "idt' = vecs(0x80 := set_trap (vecs 0x80) KCODE_SELECTOR (addr Vecsys) DPL_USER,
      32 := set_intr (vecs 32) KCODE_SELECTOR (addr Irq0) DPL_KERNEL, 33 := set_intr (vecs 33) KCODE_SELECTOR (addr Irq1) DPL_KERNEL,
      46 := set_intr (vecs 46) KCODE_SELECTOR (addr Irq14) DPL_KERNEL, 70 := set_intr (vecs 70) KCODE_SELECTOR (addr Irq38) DPL_KERNEL)"
    using assms(1) for_loop_update[of 256 "\<lambda>i g. set_trap g KCODE_SELECTOR (addr Irq_Empty) DPL_KERNEL" idt]
      for_loop_update[of 15 "\<lambda>i g. set_trap g KCODE_SELECTOR (addr (Vec i)) DPL_KERNEL" empty]
    by (simp add: idt_init_def NR_IRQ_def Let_def empty_def[symmetric] vecs_def[symmetric])
  consider "v < 15" | "v = 0x80" | "v \<in> {32, 33, 46, 70}" | "15 \<le> v" "v \<notin> {0x80, 32, 33, 46, 70}" by fastforce
  then show ?thesis
  proof cases
    case 1
    then have "idt' v = set_trap (empty v) KCODE_SELECTOR (addr (entry_of v)) DPL_KERNEL" by (simp add: i vecs_def entry_of_def)
    then show ?thesis using 1 gate_ok_set(1)[of v DPL_KERNEL] by simp
  next
    case 2
    then have "idt' v = set_trap (vecs v) KCODE_SELECTOR (addr (entry_of v)) DPL_USER" by (simp add: i entry_of_def)
    then show ?thesis using 2 gate_ok_set(1)[of v DPL_USER] by simp
  next
    case 3
    then have "idt' v = set_intr (vecs v) KCODE_SELECTOR (addr (entry_of v)) DPL_KERNEL" by (auto simp: i entry_of_def)
    then show ?thesis using 3 gate_ok_set(2)[of v] by simp
  next
    case 4
    then have "idt' v = set_trap (idt v) KCODE_SELECTOR (addr (entry_of v)) DPL_KERNEL"
      using assms(2) by (simp add: i vecs_def empty_def entry_of_def)
    then show ?thesis using 4 gate_ok_set(1)[of v DPL_KERNEL] by simp
  qed
qed

lemma write_idtr_table: "idtr (snd (idt_init addr idt_addr (idt, s))) = (0x7ff, idt_addr)"
proof -
  have "ucast (ucast a :: u16) OR push_bit 16 (ucast (ucast (drop_bit 16 a) :: u16)) = a" for a :: u32
    by (rule bit_word_eqI) (auto simp: bit_simps)
  then show ?thesis by (simp add: idt_init_def Let_def write_idtr_def load_descriptor_def pseudo_descriptor_def NR_IRQ_def)
qed

section \<open>Dispatch\<close>

text \<open>What becomes of each vector, through its entry point.\<close>

lemma irq_handle_dispatch:
  assumes "v < 256" "tf_trapno tf = pushed_trapno (entry_of v)"
  shows "irq_handle c tf (x, k) =
    (if v = 0x80 then rret (Returns (tf\<lparr>tf_eax := 0\<rparr>, x, k))
     else if v < 15 \<or> v \<in> {32, 33, 46} then rret (Returns (tf, x, k\<lparr>km := lapiceoi (lapic x) (km k)\<rparr>))
     else if v = 70 then rbind (uu_local_panic c (x, k)) (\<lambda>st. rret (Halts st))
     else rbind (panic c (\<lambda>_. 0) (\<lambda>_. []) (''Unhandled exception!'' @ nl) (x, k)) (\<lambda>st. rret (Halts st)))"
proof -
  have s: "sint (pushed_trapno (entry_of v)) = (if entry_of v = Irq_Empty then -1 else int v)"
    if "v < 15 \<or> v = 0x80 \<or> v \<in> {32, 33, 46, 70} \<or> entry_of v = Irq_Empty"
  proof -
    have "sint (of_nat v :: u32) = int v" if "v < 15"
      using that by (simp add: signed_of_nat signed_take_bit_int_eq_self)
    then show ?thesis by (auto simp: entry_of_def)
  qed
  show ?thesis
    using s assms
    by (auto simp: irq_handle_def handle_interrupt_def handle_syscall_def vector_defs entry_of_def rbind_assoc split: if_splits)
qed

section \<open>What a panic prints\<close>

lemma cstr_parts [simp]: "CHR 0x00 \<in> set (cstr s)" "CHR 0x00 \<notin> set s \<Longrightarrow> takeWhile (\<lambda>c. c \<noteq> CHR 0x00) (cstr s) = s"
  by (simp add: cstr_def) (induction s, auto simp: cstr_def)

lemma vsnprintf_terminated:
  assumes "vsnprintf BUFSIZ ap strs fmt = Some (buf, n)"
  shows "CHR 0x00 \<in> set buf"
proof -
  have "buf \<noteq> []" "last buf = CHR 0x00"
    using fmt_run_bounded[OF assms[unfolded vsnprintf_def]] by (simp_all add: BUFSIZ_def)
  then show ?thesis using last_in_set by metis
qed

lemma local_panic_halts:
  assumes "console_ready port k" "cpuid c x = Some n"
  shows "\<exists>k' t. uu_local_panic c (x, k) = rret (x, k') \<and> printed port k' = printed port k @ t \<and> eflags (km k') = eflags (km k)"
proof -
  have "fmt_closed False (''CUP %d local panic!'' @ nl)" by (simp add: nl_def is_digit_def)
  from kprintf_ready[OF assms(1) this, of "\<lambda>_. of_int n" "\<lambda>_. []" c] show ?thesis
    using assms(2) by (auto simp: uu_local_panic_def)
qed

lemma broadcast_frame [simp]:
  "devices (broadcast_ipi_ex l v s) = devices s" "eflags (broadcast_ipi_ex l v s) = eflags s"
  "outputs port (trace (broadcast_ipi_ex l v s)) = outputs port (trace s)"
  by (simp_all add: broadcast_ipi_ex_def lapicw_def lapic_read_def mmio_read_def mmio_write_def log_io_def Let_def)

text \<open>
  A panic with the console ready prints the banner and the message, cut to the buffer, and halts with interrupts off.
\<close>

lemma panic_halts:
  assumes "console_ready port k" "cpuid c x = Some n" "fmt_closed False fmt"
  shows "\<exists>k' buf r t. panic c ap strs fmt (x, k) = rret (x, k') \<and> vsnprintf BUFSIZ ap strs fmt = Some (buf, r) \<and>
    printed port k' = printed port k @ crlf (''----- KERNEL PANIC -----'' @ nl) @
      (if BUFSIZ \<le> r then crlf ''PANIC: message is truncated.'' else []) @ crlf (takeWhile (\<lambda>c. c \<noteq> CHR 0x00) buf) @ t \<and>
    eflags (km k') AND FL_IF = 0"
proof -
  obtain buf r where v: "vsnprintf BUFSIZ ap strs fmt = Some (buf, r)"
    using fmt_run_returns[OF assms(3)] by (metis vsnprintf_def surj_pair)
  define k1 where "k1 = k\<lparr>km := broadcast_ipi_ex (lapic x) (T_IRQ0 + PANIC_INTERRUPT_NUM) (local_irq_disable (km k))\<rparr>"
  have k1: "console_ready port k1" "printed port k1 = printed port k" "eflags (km k1) AND FL_IF = 0"
    using assms(1) by (auto simp: k1_def console_ready_def prints_on_def local_irq_disable_def cli_def and.assoc split: option.splits putchar_fp.splits)
  have n1: "CHR 0x00 \<notin> set (''----- KERNEL PANIC -----'' @ nl)" by (simp add: nl_def)
  obtain k2 where k2: "kputs c (cstr (''----- KERNEL PANIC -----'' @ nl)) k1 = rret (0, k2)" "console_ready port k2"
    "printed port k2 = printed port k1 @ crlf (''----- KERNEL PANIC -----'' @ nl)" "eflags (km k2) = eflags (km k1)"
    using kputs_ready[OF k1(1), of "cstr (''----- KERNEL PANIC -----'' @ nl)" c] unfolding cstr_parts(2)[OF n1] by (auto simp del: crlf_simps)
  obtain k3 where k3: "(if r \<ge> BUFSIZ then kputs c (cstr ''PANIC: message is truncated.'') k2 else rret (0, k2)) = rret (0, k3)" "console_ready port k3"
    "printed port k3 = printed port k2 @ (if BUFSIZ \<le> r then crlf ''PANIC: message is truncated.'' else [])" "eflags (km k3) = eflags (km k2)"
    using kputs_ready[OF k2(2), of "cstr ''PANIC: message is truncated.''" c] k2(2)
    by (cases "BUFSIZ \<le> r") (auto simp del: crlf_simps)
  obtain k4 where k4: "kputs c buf k3 = rret (0, k4)" "console_ready port k4"
    "printed port k4 = printed port k3 @ crlf (takeWhile (\<lambda>c. c \<noteq> CHR 0x00) buf)" "eflags (km k4) = eflags (km k3)"
    using kputs_ready[OF k3(2) vsnprintf_terminated[OF v], of c] by blast
  obtain k5 t where k5: "uu_local_panic c (x, k4) = rret (x, k5)" "printed port k5 = printed port k4 @ t" "eflags (km k5) = eflags (km k4)"
    using local_panic_halts[OF k4(2) assms(2)] by blast
  have "panic c ap strs fmt (x, k) = rret (x, k5)"
    using k2(1) k3(1) k4(1) k5(1) v by (simp add: panic_def panic_other_cpus_def k1_def Let_def)
  then show ?thesis using v k1 k2 k3 k4 k5 by (auto simp del: crlf_simps)
qed

end
