(* ===== verification/Mp.thy ===== *)
theory Mp
  imports Trap
begin

text \<open>
  The search for the multiprocessor tables of the firmware and their evaluation
  (\<^verbatim>\<open>kern/arch/i386/mp.c\<close> with \<^verbatim>\<open>include/arch/i386/mp.h\<close>), and the start of another CPU. The memory is that
  of the machine.
\<close>

section \<open>The tables\<close>

definition sizeof_mp :: u32 where "sizeof_mp = 16"
definition mp_physaddr :: "vmem \<Rightarrow> u32 \<Rightarrow> u32" where "mp_physaddr m mp = load32 m (mp + 4)"
definition mp_imcrp :: "vmem \<Rightarrow> u32 \<Rightarrow> u8" where "mp_imcrp m mp = m (mp + 12)"

definition sizeof_mpconf :: u32 where "sizeof_mpconf = 44"
definition conf_length :: "vmem \<Rightarrow> u32 \<Rightarrow> u16" where "conf_length m conf = load16 m (conf + 4)"
definition conf_version :: "vmem \<Rightarrow> u32 \<Rightarrow> u8" where "conf_version m conf = m (conf + 6)"
definition conf_lapicaddr :: "vmem \<Rightarrow> u32 \<Rightarrow> u32" where "conf_lapicaddr m conf = load32 m (conf + 36)"

definition sizeof_mpproc :: u32 where "sizeof_mpproc = 20"
definition mpproc_apicid :: "vmem \<Rightarrow> u32 \<Rightarrow> u8" where "mpproc_apicid m p = m (p + 1)"
definition sizeof_mpioapic :: u32 where "sizeof_mpioapic = 8"
definition mpioapic_apicno :: "vmem \<Rightarrow> u32 \<Rightarrow> u8" where "mpioapic_apicno m p = m (p + 1)"

definition MPPROC :: u8 where "MPPROC = 0x00"
definition MPBUS :: u8 where "MPBUS = 0x01"
definition MPIOAPIC :: u8 where "MPIOAPIC = 0x02"
definition MPIOINTR :: u8 where "MPIOINTR = 0x03"
definition MPLINTR :: u8 where "MPLINTR = 0x04"

lemmas mp_types = MPPROC_def MPBUS_def MPIOAPIC_def MPIOINTR_def MPLINTR_def

section \<open>The search\<close>

definition sum_bytes :: "vmem \<Rightarrow> u32 \<Rightarrow> nat \<Rightarrow> u8" where
  "sum_bytes m addr len = for_loop 0 len (\<lambda>i sum. sum + m (addr + of_nat i)) 0"

text \<open>The comparison \<^verbatim>\<open>memcmp(p, s, n) == 0\<close> with the characters of a literal.\<close>

definition mem_is :: "vmem \<Rightarrow> u32 \<Rightarrow> string \<Rightarrow> bool" where
  "mem_is m p s \<longleftrightarrow> list_all (\<lambda>i. m (p + of_nat i) = of_char (s ! i)) [0..<length s]"

partial_function (option) mpsearch_loop :: "vmem \<Rightarrow> u32 \<Rightarrow> u32 \<Rightarrow> u32 option" where
  "mpsearch_loop m e p =
     (if p < e
      then if mem_is m p ''_MP_'' \<and> sum_bytes m p (unat sizeof_mp) = 0 then Some p
           else mpsearch_loop m e (p + sizeof_mp)
      else Some 0)"

definition mpsearch1 :: "vmem \<Rightarrow> u32 \<Rightarrow> u32 \<Rightarrow> u32 option" where
  "mpsearch1 m a len = (let addr = P2V a; e = addr + len in mpsearch_loop m e addr)"

definition mpsearch :: "vmem \<Rightarrow> u32 option" where
  "mpsearch m =
     (let bda = P2V 0x400;
          p = push_bit 4 (push_bit 8 (ucast (m (bda + 0x0F))) OR ucast (m (bda + 0x0E)));
          q = (push_bit 8 (ucast (m (bda + 0x14))) OR ucast (m (bda + 0x13))) * 1024
      in Option.bind (if p \<noteq> 0 then mpsearch1 m p 1024 else mpsearch1 m (q - 1024) 1024) (\<lambda>mp.
           if mp \<noteq> 0 then Some mp else mpsearch1 m 0xF0000 0x10000))"

text \<open>The result is the pointer that is stored at \<^verbatim>\<open>pmp\<close> with the table, or nothing for the result 0.\<close>

definition mpconfig :: "vmem \<Rightarrow> (u32 \<times> u32) option option" where
  "mpconfig m = Option.bind (mpsearch m) (\<lambda>mp.
     if mp = 0 \<or> mp_physaddr m mp = 0 then Some None
     else let conf = P2V (mp_physaddr m mp)
          in if \<not> mem_is m conf ''PCMP'' then Some None
             else if conf_version m conf \<noteq> 1 \<and> conf_version m conf \<noteq> 4 then Some None
             else if sum_bytes m conf (unat (conf_length m conf)) \<noteq> 0 then Some None
             else Some (Some (mp, conf)))"

section \<open>The evaluation\<close>

text \<open>
  The loop over the entries. The \<^verbatim>\<open>break\<close> for an entry of another type leaves the
  \<^verbatim>\<open>switch\<close> only: the loop goes on with the same entry.
\<close>

partial_function (option) mp_loop :: "vmem \<Rightarrow> u32 \<Rightarrow> u32 \<Rightarrow> smp \<Rightarrow> smp option" where
  "mp_loop m e p x =
     (if p < e
      then if m p = MPPROC
           then let x = (if ncpu x < NCPU
                         then set_cpu (ncpu x) (\<lambda>c. c\<lparr>apicid := mpproc_apicid m p\<rparr>) x\<lparr>ncpu := ncpu x + 1\<rparr>
                         else x)
                in mp_loop m e (p + sizeof_mpproc) x
           else if m p = MPIOAPIC then mp_loop m e (p + sizeof_mpioapic) (x\<lparr>ioapicid := mpioapic_apicno m p\<rparr>)
           else if m p = MPBUS \<or> m p = MPIOINTR \<or> m p = MPLINTR then mp_loop m e (p + 8) x
           else mp_loop m e p (x\<lparr>ismp := False\<rparr>)
      else Some x)"

definition mpinit :: "smp \<times> mach \<Rightarrow> (smp \<times> mach) option" where
  "mpinit = (\<lambda>(x, s). Option.bind (mpconfig (mem s)) (\<lambda>r. case r of
     None \<Rightarrow> Some (x, s)
   | Some (mp, conf) \<Rightarrow>
       let x = x\<lparr>ismp := True, lapic := conf_lapicaddr (mem s) conf\<rparr>
       in Option.bind (mp_loop (mem s) (conf + ucast (conf_length (mem s) conf)) (conf + sizeof_mpconf) x) (\<lambda>x.
            if \<not> ismp x then Some (x\<lparr>ncpu := 1, lapic := 0, ioapicid := 0\<rparr>, s)
            else if mp_imcrp (mem s) mp \<noteq> 0
            then let s = outb 0x22 0x70 s; (v, s) = inb 0x23 s in Some (x, outb 0x23 (v OR 1) s)
            else Some (x, s))))"

section \<open>Other CPUs\<close>

text \<open>The state in which the CPU halts, with interrupts on.\<close>

definition mpmain :: "(entry_point \<Rightarrow> u32) \<Rightarrow> u32 \<Rightarrow> u32 \<Rightarrow> nat \<Rightarrow> (nat \<Rightarrow> gatedesc) \<times> smp \<times> kern \<Rightarrow> ((nat \<Rightarrow> gatedesc) \<times> smp \<times> kern) run" where
  "mpmain addr idt_addr ra c = (\<lambda>(idt, x, k).
     rbind (cpunum c ra (x, k)) (\<lambda>(n, x, k).
     rbind (kprintf c (\<lambda>_. of_nat n) (\<lambda>_. []) (''cpu%d: starting...'' @ nl) k) (\<lambda>(_, k).
     let (idt, s) = trap_init addr idt_addr (idt, km k)
     in case get_gs_cpu c x of
          None \<Rightarrow> None
        | Some p \<Rightarrow>
            let x = set_cpu (cpu_index x p) (\<lambda>c. c\<lparr>started := 1\<rparr>) x
            in rbind (cpunum c ra (x, k\<lparr>km := s\<rparr>)) (\<lambda>(n, x, k).
               rbind (kprintf c (\<lambda>_. of_nat n) (\<lambda>_. []) (''cpu%d: started!'' @ nl) k) (\<lambda>(_, k).
               rret (idt, x, k\<lparr>km := sti (km k)\<rparr>))))))"

definition mpenter :: "(entry_point \<Rightarrow> u32) \<Rightarrow> u32 \<Rightarrow> u32 \<Rightarrow> nat \<Rightarrow> (nat \<Rightarrow> gatedesc) \<times> smp \<times> kern \<Rightarrow> ((nat \<Rightarrow> gatedesc) \<times> smp \<times> kern) run" where
  "mpenter addr idt_addr ra c = (\<lambda>(idt, st).
     rbind (seginit c ra st) (\<lambda>(x, k).
     case lapicinit (lapic x) (km k) of
       None \<Rightarrow> None
     | Some s \<Rightarrow> mpmain addr idt_addr ra c (idt, x, k\<lparr>km := s\<rparr>)))"

text \<open>The boot page table.\<close>

definition entrypgdir :: "nat \<Rightarrow> u32" where
  "entrypgdir = (\<lambda>_. 0)(0 := 0 OR PTE_P OR PTE_W OR PTE_PS, unat (drop_bit PDXSHIFT KERN_BASE) := 0 OR PTE_P OR PTE_W OR PTE_PS)"

section \<open>The search is sound and ends\<close>

definition is_mp :: "vmem \<Rightarrow> u32 \<Rightarrow> bool" where
  "is_mp m p \<longleftrightarrow> mem_is m p ''_MP_'' \<and> sum_bytes m p 16 = 0"

text \<open>The first table among the \<open>n\<close> places is returned, or 0.\<close>

lemma mpsearch_loop_finds:
  assumes "unat p + 16 * n < 2 ^ 32" "e = p + of_nat (16 * n)"
  shows "mpsearch_loop m e p = Some (case List.find (\<lambda>i. is_mp m (p + of_nat (16 * i))) [0..<n] of
    None \<Rightarrow> 0 | Some i \<Rightarrow> p + of_nat (16 * i))"
  using assms
proof (induction n arbitrary: p)
  case 0
  then show ?case by (subst mpsearch_loop.simps) simp
next
  case (Suc n)
  have "unat (of_nat (16 * Suc n) :: u32) = 16 * Suc n" using Suc.prems(1) by (simp only: unat_of_nat) simp
  then have "unat e = (unat p + 16 * Suc n) mod 2 ^ 32" unfolding Suc.prems(2) by (simp only: unat_word_ariths(1)) simp
  then have e: "unat e = unat p + 16 * Suc n" using Suc.prems(1) by (simp only: mod_less)
  then have less: "p < e" by (simp add: word_less_nat_alt)
  have up: "unat (p + 16) = unat p + 16" using Suc.prems(1) by (simp add: unat_word_ariths)
  have ih: "mpsearch_loop m e (p + 16) = Some (case List.find (\<lambda>i. is_mp m (p + 16 + of_nat (16 * i))) [0..<n] of
      None \<Rightarrow> 0 | Some i \<Rightarrow> p + 16 + of_nat (16 * i))"
    using Suc.prems up by (intro Suc.IH) (simp_all add: algebra_simps)
  have l: "[0..<Suc n] = 0 # map Suc [0..<n]" by (simp add: map_Suc_upt upt_conv_Cons del: upt_Suc)
  have f: "List.find P (map Suc js) = map_option Suc (List.find (P \<circ> Suc) js)" for P js by (induction js) auto
  show ?case
    by (subst mpsearch_loop.simps, simp only: l List.find.simps f)
       (simp add: less ih is_mp_def sizeof_mp_def comp_def add.assoc split: option.splits)
qed

text \<open>An entry of an unknown type is never left: the evaluation does not return.\<close>

lemma mp_loop_stuck:
  assumes "mp_loop m e p x = Some x'"
  shows "\<not> (p < e \<and> 4 < m p)"
proof (rule mp_loop.raw_induct[where P = "\<lambda>m e p x x'. \<not> (p < e \<and> 4 < m p)" and xa = "(((m, e), p), x)", unfolded prod.case, OF _ assms])
  fix f m e p x x'
  assume ih: "\<And>m e p x x'. f m e p x = Some x' \<Longrightarrow> \<not> (p < e \<and> 4 < m p)"
    and r: "(if p < e
      then if m p = MPPROC
           then let x = (if ncpu x < NCPU
                         then set_cpu (ncpu x) (\<lambda>c. c\<lparr>apicid := mpproc_apicid m p\<rparr>) x\<lparr>ncpu := ncpu x + 1\<rparr>
                         else x)
                in f m e (p + sizeof_mpproc) x
           else if m p = MPIOAPIC then f m e (p + sizeof_mpioapic) (x\<lparr>ioapicid := mpioapic_apicno m p\<rparr>)
           else if m p = MPBUS \<or> m p = MPIOINTR \<or> m p = MPLINTR then f m e (p + 8) x
           else f m e p (x\<lparr>ismp := False\<rparr>)
      else Some x) = Some x'"
  show "\<not> (p < e \<and> 4 < m p)"
  proof
    assume a: "p < e \<and> 4 < m p"
    then have "m p \<noteq> MPPROC" "m p \<noteq> MPIOAPIC" "m p \<noteq> MPBUS" "m p \<noteq> MPIOINTR" "m p \<noteq> MPLINTR" by (auto simp: mp_types)
    then have "f m e p (x\<lparr>ismp := False\<rparr>) = Some x'" using a r by simp
    then show False using ih a by blast
  qed
qed

section \<open>What a well-formed table gives\<close>

datatype mp_entry = Cpu_Entry u8 | Ioapic_Entry u8 | Other_Entry u8

fun entry_size :: "mp_entry \<Rightarrow> nat" where
  "entry_size (Cpu_Entry a) = 20"
| "entry_size (Ioapic_Entry a) = 8"
| "entry_size (Other_Entry t) = 8"

fun entry_at :: "vmem \<Rightarrow> u32 \<Rightarrow> mp_entry \<Rightarrow> bool" where
  "entry_at m p (Cpu_Entry a) \<longleftrightarrow> m p = MPPROC \<and> m (p + 1) = a"
| "entry_at m p (Ioapic_Entry a) \<longleftrightarrow> m p = MPIOAPIC \<and> m (p + 1) = a"
| "entry_at m p (Other_Entry t) \<longleftrightarrow> m p = t \<and> t \<in> {MPBUS, MPIOINTR, MPLINTR}"

fun entries_at :: "vmem \<Rightarrow> u32 \<Rightarrow> mp_entry list \<Rightarrow> bool" where
  "entries_at m p [] = True"
| "entries_at m p (en # es) \<longleftrightarrow> entry_at m p en \<and> entries_at m (p + of_nat (entry_size en)) es"

text \<open>The effect of the entries: CPUs are numbered in order, as long as there is room; the last I/O APIC counts.\<close>

fun record_entry :: "mp_entry \<Rightarrow> smp \<Rightarrow> smp" where
  "record_entry (Cpu_Entry a) x =
     (if ncpu x < NCPU then set_cpu (ncpu x) (\<lambda>c. c\<lparr>apicid := a\<rparr>) x\<lparr>ncpu := ncpu x + 1\<rparr> else x)"
| "record_entry (Ioapic_Entry a) x = x\<lparr>ioapicid := a\<rparr>"
| "record_entry (Other_Entry t) x = x"

lemma mp_loop_entries:
  assumes "entries_at m p es" "unat p + sum_list (map entry_size es) < 2 ^ 32" "e = p + of_nat (sum_list (map entry_size es))"
  shows "mp_loop m e p x = Some (fold record_entry es x)"
  using assms
proof (induction es arbitrary: p x)
  case Nil
  then show ?case by (subst mp_loop.simps) simp
next
  case (Cons en es)
  define n where "n = sum_list (map entry_size es)"
  have pos: "0 < entry_size en" "entry_size en \<le> 20" by (cases en; simp)+
  have up: "unat (p + of_nat (entry_size en)) = unat p + entry_size en"
    using Cons.prems(2) by (simp add: unat_word_ariths unat_of_nat)
  have e: "e = p + of_nat (entry_size en) + of_nat n" using Cons.prems(3) by (simp add: n_def)
  have "unat e = unat p + entry_size en + n"
    unfolding e using Cons.prems(2) up by (simp add: unat_word_ariths(1)[of "p + of_nat (entry_size en)"] unat_of_nat n_def)
  then have less: "p < e" using pos(1) by (simp add: word_less_nat_alt)
  have ih: "mp_loop m e (p + of_nat (entry_size en)) y = Some (fold record_entry es y)" for y
    using Cons.prems up e by (intro Cons.IH) (auto simp: n_def)
  show ?case using Cons.prems(1) ih less
    by (cases en; subst mp_loop.simps)
       (auto simp: mp_types mpproc_apicid_def mpioapic_apicno_def sizeof_mpproc_def sizeof_mpioapic_def)
qed

fun cpu_ids :: "mp_entry list \<Rightarrow> u8 list" where
  "cpu_ids [] = []"
| "cpu_ids (Cpu_Entry a # es) = a # cpu_ids es"
| "cpu_ids (_ # es) = cpu_ids es"

lemma record_entries_ncpu:
  "ncpu x \<le> NCPU \<Longrightarrow> ncpu (fold record_entry es x) = min NCPU (ncpu x + length (cpu_ids es))"
proof (induction es arbitrary: x)
  case (Cons en es)
  then show ?case by (cases en) auto
qed simp

lemma record_entries_keep: "ismp (fold record_entry es x) = ismp x \<and> lapic (fold record_entry es x) = lapic x"
proof (induction es arbitrary: x)
  case (Cons en es)
  then show ?case by (cases en) auto
qed simp

lemma record_entries_old:
  "i < ncpu x \<Longrightarrow> apicid (cpus (fold record_entry es x) i) = apicid (cpus x i)"
proof (induction es arbitrary: x)
  case (Cons en es)
  have "i < ncpu (record_entry en x)" using Cons.prems by (cases en) auto
  moreover have "apicid (cpus (record_entry en x) i) = apicid (cpus x i)" using Cons.prems by (cases en) auto
  ultimately show ?case using Cons.IH by simp
qed simp

lemma record_entries_cpus:
  assumes "ncpu x \<le> NCPU" "k < length (cpu_ids es)" "ncpu x + k < NCPU"
  shows "apicid (cpus (fold record_entry es x) (ncpu x + k)) = cpu_ids es ! k"
  using assms
proof (induction es arbitrary: x k)
  case (Cons en es)
  show ?case
  proof (cases en)
    case (Cpu_Entry a)
    define y where "y = record_entry en x"
    have y: "ncpu y = Suc (ncpu x)" "apicid (cpus y (ncpu x)) = a" using Cons.prems(3) Cpu_Entry by (simp_all add: y_def)
    show ?thesis
    proof (cases k)
      case 0
      then show ?thesis using record_entries_old[of "ncpu x" y es] y Cpu_Entry by (simp add: y_def)
    next
      case (Suc j)
      then show ?thesis using Cons.IH[of y j] Cons.prems y(1) Cpu_Entry by (simp add: y_def)
    qed
  next
    case (Ioapic_Entry a)
    then show ?thesis using Cons.IH[of "x\<lparr>ioapicid := a\<rparr>" k] Cons.prems by simp
  qed (use Cons in auto)
qed simp

end
