(* ===== verification/Devlist.thy ===== *)
theory Devlist
  imports Console Vmm ListH
begin

text \<open>
  The index of devices: the list that is sorted by device number
  (\<^verbatim>\<open>kern/dev/index/devlist.c\<close>), its registration and the calls of the initialization functions
  (\<^verbatim>\<open>kern/dev/index/index.c\<close>), the registration of drivers and the initialization of a device
  (\<^verbatim>\<open>drivers/common/core.c\<close>), and the initialization functions of the drivers of the two root buses and of the serial port.
\<close>

section \<open>State\<close>

datatype index_impl = Dummy_Index | Devlist_Index

text \<open>A driver with the members that the devices use; \<^verbatim>\<open>getc\<close> and \<^verbatim>\<open>putc\<close> of the serial driver are functions below.\<close>

record driver =
  drv_class :: int
  drv_get_read_fp :: get_fp
  drv_get_write_fp :: get_fp

text \<open>
  \<open>entry_dev\<close> is the member \<^verbatim>\<open>dev\<close> of the \<^verbatim>\<open>struct device_entry\<close> at an address, \<open>dhead\<close> the address of \<^verbatim>\<open>__head\<close>.
\<close>

record 's dsys =
  dkern :: kern
  dheap :: "'s heap"
  dlinks :: links
  entry_dev :: "u32 \<Rightarrow> u32"
  dhead :: u32
  uu_index :: index_impl
  devsw :: "nat \<Rightarrow> u32"
  drivers :: "nat \<Rightarrow> u32"
  ndrivers :: nat
  drvs :: "u32 \<Rightarrow> driver"

definition sizeof_device_entry :: u32 where "sizeof_device_entry = 16"
definition dev_node :: "u32 \<Rightarrow> u32" where "dev_node e = e + 4"
definition dev_entry :: "u32 \<Rightarrow> u32" where "dev_entry n = n - 4"

abbreviation ddev :: "'s dsys \<Rightarrow> u32 \<Rightarrow> device" where
  "ddev d p \<equiv> devs (dkern d) p"

definition dkmalloc :: "'s simple_allocator \<Rightarrow> u32 \<Rightarrow> u32 \<Rightarrow> 's dsys \<Rightarrow> ('s dsys \<times> u32) run" where
  "dkmalloc sa sz flags d = rbind (kmalloc sa sz flags (dheap d)) (\<lambda>(h, p). rret (d\<lparr>dheap := h\<rparr>, p))"

section \<open>The list\<close>

definition uu_cmp :: "'s dsys \<Rightarrow> u32 \<Rightarrow> u32 \<Rightarrow> int" where
  "uu_cmp d a b =
     (let dev_a = ddev d (entry_dev d a); dev_b = ddev d (entry_dev d b)
      in if devno dev_a > devno dev_b then 1 else if devno dev_a < devno dev_b then -1 else 0)"

text \<open>The loops over the entries that stop at the first one with a property; \<open>n\<close> is its node, or \<^verbatim>\<open>__head\<close>.\<close>

partial_function (option) entry_search :: "(u32 \<Rightarrow> bool) \<Rightarrow> 's dsys \<Rightarrow> u32 \<Rightarrow> u32 option" where
  "entry_search P d n =
     (if n = dhead d then Some n
      else if P (dev_entry n) then Some n
      else entry_search P d (lnext (dlinks d) n))"

definition devlist_add :: "'s simple_allocator \<Rightarrow> u32 \<Rightarrow> 's dsys \<Rightarrow> ('s dsys \<times> int) run" where
  "devlist_add sa dev d =
     rbind (dkmalloc sa sizeof_device_entry 0 d) (\<lambda>(d, this).
       if this = 0 then rret (d, EOF)
       else let d = d\<lparr>entry_dev := (entry_dev d)(this := dev)\<rparr>
            in case entry_search (\<lambda>tmp. uu_cmp d tmp this > 0) d (lnext (dlinks d) (dhead d)) of
                 None \<Rightarrow> None
               | Some n \<Rightarrow> rret (d\<lparr>dlinks := list_add_tail (dlinks d) (dev_node this) n\<rparr>, 0))"

text \<open>\<open>Inl\<close> is the jump to \<^verbatim>\<open>ret\<close>.\<close>

partial_function (option) remove_search :: "u32 \<Rightarrow> 's dsys \<Rightarrow> u32 \<Rightarrow> u32 \<Rightarrow> (unit + u32) option" where
  "remove_search dev d n this =
     (if n = dhead d then Some (Inr this)
      else let tmp = dev_entry n
           in if dev_bus (ddev d (entry_dev d tmp)) = dev then Some (Inl ())
              else remove_search dev d (lnext (dlinks d) n) (if entry_dev d tmp = dev then tmp else this))"

definition devlist_remove :: "'s simple_allocator \<Rightarrow> u32 \<Rightarrow> 's dsys \<Rightarrow> ('s dsys \<times> int) run" where
  "devlist_remove sa dev d =
     (case remove_search dev d (lnext (dlinks d) (dhead d)) 0 of
        None \<Rightarrow> None
      | Some (Inl _) \<Rightarrow> rret (d, EOF)
      | Some (Inr this) \<Rightarrow>
          if this \<noteq> 0
          then let d = d\<lparr>dlinks := list_del (dlinks d) (dev_node this)\<rparr>
               in (case kfree sa this (dheap d) of None \<Rightarrow> None | Some h \<Rightarrow> rret (d\<lparr>dheap := h\<rparr>, 0))
          else rret (d, EOF))"

text \<open>The result is the device with the new value at \<^verbatim>\<open>savep\<close>; the comparison is with the address of the list head, not of an entry.\<close>

definition devlist_next :: "u32 \<Rightarrow> u32 \<Rightarrow> 's dsys \<Rightarrow> (u32 \<times> u32) run" where
  "devlist_next dev savep d =
     rbind (if dev = 0 then rret (dev_entry (lnext (dlinks d) (dhead d)))
            else rbind (rassert (entry_dev d savep = dev)) (\<lambda>_. rret (dev_entry (lnext (dlinks d) (dev_node savep))))) (\<lambda>savep.
     rret (if savep = dhead d then 0 else entry_dev d savep, savep))"

definition devlist_from_id :: "u32 \<Rightarrow> 's dsys \<Rightarrow> u32 option" where
  "devlist_from_id n d =
     map_option (\<lambda>tmp. if tmp \<noteq> dhead d then entry_dev d (dev_entry tmp) else 0)
       (entry_search (\<lambda>e. devno (ddev d (entry_dev d e)) = n) d (lnext (dlinks d) (dhead d)))"

definition devlist_from_name :: "char list \<Rightarrow> 's dsys \<Rightarrow> u32 option" where
  "devlist_from_name name d =
     map_option (\<lambda>tmp. if tmp \<noteq> dhead d then entry_dev d (dev_entry tmp) else 0)
       (entry_search (\<lambda>e. dev_name (ddev d (entry_dev d e)) = name) d (lnext (dlinks d) (dhead d)))"

section \<open>The index\<close>

definition set_device_index :: "index_impl \<Rightarrow> 's dsys \<Rightarrow> 's dsys" where
  "set_device_index i d = d\<lparr>uu_index := i\<rparr>"

definition devlist_init :: "nat \<Rightarrow> 's dsys \<Rightarrow> ('s dsys \<times> int) run" where
  "devlist_init c d =
     rbind (kputs c (''KERN: <devlist> initializing.'' @ [CHR 0x0A, CHR 0x00]) (dkern d)) (\<lambda>(_, k).
     let d = set_device_index Devlist_Index (d\<lparr>dkern := k\<rparr>)
     in rbind (kputs c (''KERN: <devlist> Done.'' @ [CHR 0x0A, CHR 0x00]) (dkern d)) (\<lambda>(_, k).
        rret (d\<lparr>dkern := k\<rparr>, 0)))"

definition dev_add :: "'s simple_allocator \<Rightarrow> u32 \<Rightarrow> 's dsys \<Rightarrow> ('s dsys \<times> int) run" where
  "dev_add sa dev d = (case uu_index d of Dummy_Index \<Rightarrow> rret (d, EOF) | Devlist_Index \<Rightarrow> devlist_add sa dev d)"

definition dev_remove :: "'s simple_allocator \<Rightarrow> u32 \<Rightarrow> 's dsys \<Rightarrow> ('s dsys \<times> int) run" where
  "dev_remove sa dev d = (case uu_index d of Dummy_Index \<Rightarrow> rret (d, EOF) | Devlist_Index \<Rightarrow> devlist_remove sa dev d)"

definition dev_next :: "u32 \<Rightarrow> u32 \<Rightarrow> 's dsys \<Rightarrow> (u32 \<times> u32) run" where
  "dev_next dev savep d = (case uu_index d of Dummy_Index \<Rightarrow> rret (0, savep) | Devlist_Index \<Rightarrow> devlist_next dev savep d)"

definition dev_from_id :: "u32 \<Rightarrow> 's dsys \<Rightarrow> u32 option" where
  "dev_from_id n d = (case uu_index d of Dummy_Index \<Rightarrow> Some 0 | Devlist_Index \<Rightarrow> devlist_from_id n d)"

definition dev_from_name :: "char list \<Rightarrow> 's dsys \<Rightarrow> u32 option" where
  "dev_from_name name d = (case uu_index d of Dummy_Index \<Rightarrow> Some 0 | Devlist_Index \<Rightarrow> devlist_from_name name d)"

text \<open>
  The section of initialization functions, as the list of the functions that its words point to. The first result
  that is not zero ends the loop.
\<close>

primrec do_initcalls :: "('d \<Rightarrow> ('d \<times> int) run) list \<Rightarrow> 'd \<Rightarrow> ('d \<times> int) run" where
  "do_initcalls [] d = rret (d, 0)"
| "do_initcalls (fp # fps) d = rbind (fp d) (\<lambda>(d, r). if r \<noteq> 0 then rret (d, EOF) else do_initcalls fps d)"

section \<open>Drivers\<close>

definition DRIVERS_MAX :: nat where "DRIVERS_MAX = 128"

definition register_driver :: "u32 \<Rightarrow> u32 \<Rightarrow> 's dsys \<Rightarrow> 's dsys" where
  "register_driver maj drv d =
     (let d = (if maj \<noteq> NOMAJOR then d\<lparr>devsw := (devsw d)(unat maj := drv)\<rparr> else d)
      in d\<lparr>drivers := (drivers d)(ndrivers d := drv), ndrivers := ndrivers d + 1\<rparr>)"

definition set_ddev :: "u32 \<Rightarrow> (device \<Rightarrow> device) \<Rightarrow> 's dsys \<Rightarrow> 's dsys" where
  "set_ddev p f d = d\<lparr>dkern := set_dev p f (dkern d)\<rparr>"

text \<open>\<^verbatim>\<open>strlcpy\<close> cuts the name to the size of the field.\<close>

definition initdev :: "u32 \<Rightarrow> int \<Rightarrow> char list \<Rightarrow> u32 \<Rightarrow> u32 \<Rightarrow> 's dsys \<Rightarrow> 's dsys run" where
  "initdev dev class name dno drv d =
     (let d = set_ddev dev (\<lambda>v. v\<lparr>devno := dno, dev_class := class, dev_name := take DEV_NAME_MAX name\<rparr>) d
      in rbind (rassert (dev_class (ddev d dev) = drv_class (drvs d drv))) (\<lambda>_.
         if class \<in> {DEVCLASS_CHR, DEVCLASS_BLK, DEVCLASS_NET, DEVCLASS_NON} then rret d
         else if class = DEVCLASS_BUS
         then rret (set_ddev dev (\<lambda>v. v\<lparr>get_read_fp := drv_get_read_fp (drvs d drv), get_write_fp := drv_get_write_fp (drvs d drv)\<rparr>) d)
         else Some Panic))"

definition sizeof_bus_device :: u32 where "sizeof_bus_device = 200"
definition sizeof_chr_device :: u32 where "sizeof_chr_device = 1228"

definition zero_device :: device where
  "zero_device = \<lparr>dev_name = [], dev_class = 0, devno = 0, dev_bus = 0, dev_base = 0, dev_nregs = 0, get_read_fp = GET_NULL,
     get_write_fp = GET_NULL, addr_width = 0\<rparr>"

text \<open>A device structure that is allocated with \<^verbatim>\<open>GFP_ZERO\<close>.\<close>

definition new_device :: "'s simple_allocator \<Rightarrow> u32 \<Rightarrow> 's dsys \<Rightarrow> ('s dsys \<times> u32) run" where
  "new_device sa sz d = rbind (dkmalloc sa sz GFP_ZERO d) (\<lambda>(d, p). rret (set_ddev p (\<lambda>_. zero_device) d, p))"

definition port_drv :: driver where
  "port_drv = \<lparr>drv_class = DEVCLASS_BUS, drv_get_read_fp = PORT_GET, drv_get_write_fp = PORT_GET\<rparr>"

definition mem_drv :: driver where
  "mem_drv = \<lparr>drv_class = DEVCLASS_BUS, drv_get_read_fp = MEM_GET, drv_get_write_fp = MEM_GET\<rparr>"

definition uart_drv :: driver where
  "uart_drv = \<lparr>drv_class = DEVCLASS_CHR, drv_get_read_fp = GET_NULL, drv_get_write_fp = GET_NULL\<rparr>"

definition port_driver_init :: "'s simple_allocator \<Rightarrow> u32 \<Rightarrow> 's dsys \<Rightarrow> ('s dsys \<times> int) run" where
  "port_driver_init sa drv d =
     (let d = register_driver NOMAJOR drv d
      in rbind (new_device sa sizeof_bus_device d) (\<lambda>(d, portio_bus).
         rbind (initdev portio_bus DEVCLASS_BUS ''portio'' NODEV drv d) (\<lambda>d.
         rbind (dev_add sa portio_bus d) (\<lambda>(d, _). rret (d, 0)))))"

definition mem_driver_init :: "'s simple_allocator \<Rightarrow> u32 \<Rightarrow> 's dsys \<Rightarrow> ('s dsys \<times> int) run" where
  "mem_driver_init sa drv d =
     (let d = register_driver NOMAJOR drv d
      in rbind (new_device sa sizeof_bus_device d) (\<lambda>(d, memory_bus).
         rbind (initdev memory_bus DEVCLASS_BUS ''memory'' NODEV drv d) (\<lambda>d.
         rbind (dev_add sa memory_bus d) (\<lambda>(d, _). rret (d, 0)))))"

definition of_option :: "'a option \<Rightarrow> 'a run" where "of_option m = map_option Done m"

definition uart_driver_init :: "'s simple_allocator \<Rightarrow> u32 \<Rightarrow> 's dsys \<Rightarrow> ('s dsys \<times> int) run" where
  "uart_driver_init sa drv d =
     (let d = register_driver NOMAJOR drv d
      in rbind (new_device sa sizeof_chr_device d) (\<lambda>(d, uart).
         rbind (of_option (dev_from_name ''portio'' d)) (\<lambda>bus.
         let d = set_ddev uart (\<lambda>v. v\<lparr>dev_bus := bus, dev_base := UART_BASE\<rparr>) d
         in rbind (initdev uart DEVCLASS_CHR ''uart-ns16550'' NODEV drv d) (\<lambda>d.
            rbind (dev_add sa uart d) (\<lambda>(d, _).
            rbind (of_option (dev_from_name ''uart-ns16550'' d)) (\<lambda>my.
            let k = dkern d\<lparr>my_device := my\<rparr>
            in rbind (of_option (uu_uart_ns16550_init uart k)) (\<lambda>k.
               rbind (of_option (uu_uart_ns16550_enable uart k)) (\<lambda>k.
               rret (d\<lparr>dkern := set_console (Some Console_Putchar) (Some get_default_kputs) k\<rparr>, 0)))))))))"

definition uu_driver_getchar :: "u32 \<Rightarrow> 's dsys \<Rightarrow> (u32 \<times> 's dsys) run" where
  "uu_driver_getchar dev d =
     rbind (of_option (dev_from_id dev d)) (\<lambda>tmp.
     rbind (rassert (tmp \<noteq> 0)) (\<lambda>_.
     rbind (of_option (uu_uart_ns16550_getchar tmp (dkern d))) (\<lambda>(c, k). rret (ucast c, d\<lparr>dkern := k\<rparr>))))"

definition uu_driver_putchar :: "u32 \<Rightarrow> u32 \<Rightarrow> 's dsys \<Rightarrow> (int \<times> 's dsys) run" where
  "uu_driver_putchar dev c d =
     rbind (of_option (dev_from_id dev d)) (\<lambda>tmp.
     rbind (rassert (tmp \<noteq> 0)) (\<lambda>_.
     rbind (of_option (uu_uart_ns16550_putchar tmp (ucast c) (dkern d))) (\<lambda>(r, k). rret (r, d\<lparr>dkern := k\<rparr>))))"

section \<open>The list is sorted\<close>

text \<open>The entries of the list, in order.\<close>

definition dev_list :: "'s dsys \<Rightarrow> u32 list \<Rightarrow> bool" where
  "dev_list d es \<longleftrightarrow> list_rep (dlinks d) (dhead d) (map dev_node es)"

abbreviation entry_no :: "'s dsys \<Rightarrow> u32 \<Rightarrow> u32" where
  "entry_no d e \<equiv> devno (ddev d (entry_dev d e))"

lemma dev_entry_node [simp]: "dev_entry (dev_node e) = e" "dev_node (dev_entry n) = n"
  by (simp_all add: dev_entry_def dev_node_def)

lemma dev_node_eq [simp]: "dev_node a = dev_node b \<longleftrightarrow> a = b"
  by (simp add: dev_node_def)

lemma entry_search_finds:
  assumes "dll (dlinks d) a (map dev_node es) (dhead d)" "dhead d \<notin> set (map dev_node es)"
  shows "entry_search P d (lnext (dlinks d) a) = Some (case dropWhile (\<lambda>e. \<not> P e) es of [] \<Rightarrow> dhead d | e # _ \<Rightarrow> dev_node e)"
  using assms
proof (induction es arbitrary: a)
  case Nil
  then show ?case by (subst entry_search.simps) simp
next
  case (Cons e es)
  then have n: "lnext (dlinks d) a = dev_node e" "dev_node e \<noteq> dhead d" by auto
  have "entry_search P d (lnext (dlinks d) (dev_node e)) = Some (case dropWhile (\<lambda>e. \<not> P e) es of [] \<Rightarrow> dhead d | e # _ \<Rightarrow> dev_node e)"
    using Cons.prems by (intro Cons.IH) auto
  then show ?case by (subst entry_search.simps) (simp add: n)
qed

lemma dev_list_search:
  assumes "dev_list d es"
  shows "entry_search P d (lnext (dlinks d) (dhead d)) = Some (case dropWhile (\<lambda>e. \<not> P e) es of [] \<Rightarrow> dhead d | e # _ \<Rightarrow> dev_node e)"
  using assms entry_search_finds[of d "dhead d" es P] by (auto simp: dev_list_def list_rep_def)

text \<open>The lookups return the first device in the list with the number, or the name.\<close>

lemma dropWhile_find:
  "(case dropWhile (\<lambda>e. \<not> P e) es of [] \<Rightarrow> a | e # _ \<Rightarrow> f e) = (case List.find P es of None \<Rightarrow> a | Some e \<Rightarrow> f e)"
  by (induction es) auto

lemma find_append: "List.find P (xs @ ys) = (case List.find P xs of None \<Rightarrow> List.find P ys | Some x \<Rightarrow> Some x)"
  by (induction xs) auto

lemma find_in: "List.find P es = Some e \<Longrightarrow> e \<in> set es"
  by (auto simp: find_Some_iff)

lemma devlist_lookup:
  assumes "dev_list d es"
  shows "devlist_from_id n d = Some (case List.find (\<lambda>e. entry_no d e = n) es of None \<Rightarrow> 0 | Some e \<Rightarrow> entry_dev d e)"
    "devlist_from_name s d = Some (case List.find (\<lambda>e. dev_name (ddev d (entry_dev d e)) = s) es of None \<Rightarrow> 0 | Some e \<Rightarrow> entry_dev d e)"
proof -
  have "dev_node e \<noteq> dhead d" if "e \<in> set es" for e
    using assms imageI[OF that, of dev_node] by (auto simp: dev_list_def list_rep_def)
  then show "devlist_from_id n d = Some (case List.find (\<lambda>e. entry_no d e = n) es of None \<Rightarrow> 0 | Some e \<Rightarrow> entry_dev d e)"
    "devlist_from_name s d = Some (case List.find (\<lambda>e. dev_name (ddev d (entry_dev d e)) = s) es of None \<Rightarrow> 0 | Some e \<Rightarrow> entry_dev d e)"
    unfolding devlist_from_id_def devlist_from_name_def dev_list_search[OF assms] dropWhile_find
    by (auto dest: find_in split: option.splits)
qed

text \<open>A new device comes behind those whose numbers are not greater, so that the list stays sorted.\<close>

lemma devlist_add_inserts:
  assumes "dev_list d es" "kmalloc sa sizeof_device_entry 0 (dheap d) = rret (h, this)" "this \<noteq> 0"
    and "dev_node this \<notin> set (dhead d # map dev_node es)"
    and xs_def: "xs = takeWhile (\<lambda>e. entry_no d e \<le> devno (ddev d dev)) es" and ys_def: "ys = dropWhile (\<lambda>e. entry_no d e \<le> devno (ddev d dev)) es"
  shows "\<exists>d'. devlist_add sa dev d = rret (d', 0) \<and> dev_list d' (xs @ this # ys) \<and> dkern d' = dkern d \<and>
    entry_dev d' = (entry_dev d)(this := dev) \<and> uu_index d' = uu_index d \<and> dhead d' = dhead d \<and> dheap d' = h \<and> drvs d' = drvs d"
proof -
  define d1 where "d1 = d\<lparr>dheap := h, entry_dev := (entry_dev d)(this := dev)\<rparr>"
  have new: "this \<notin> set es" using assms(4) by auto
  have l1: "dev_list d1 es" using assms(1) by (simp add: dev_list_def d1_def)
  have cmp: "(uu_cmp d1 tmp this > 0) = (\<not> entry_no d tmp \<le> devno (ddev d dev))" if "tmp \<in> set es" for tmp
    using that new by (auto simp: uu_cmp_def d1_def Let_def)
  have "dropWhile (\<lambda>e. \<not> uu_cmp d1 e this > 0) es = ys" unfolding ys_def using cmp by (intro dropWhile_cong) auto
  then have s: "entry_search (\<lambda>tmp. uu_cmp d1 tmp this > 0) d1 (lnext (dlinks d1) (dhead d1)) = Some (case ys of [] \<Rightarrow> dhead d1 | e # _ \<Rightarrow> dev_node e)"
    using dev_list_search[OF l1, of "\<lambda>tmp. uu_cmp d1 tmp this > 0"] by (simp only:)
  have es: "es = xs @ ys" by (simp add: xs_def ys_def)
  define n where "n = hd (map dev_node ys @ [dhead d])"
  have n: "(case ys of [] \<Rightarrow> dhead d1 | e # _ \<Rightarrow> dev_node e) = n" by (cases ys) (simp_all add: n_def d1_def)
  have rep: "list_rep (dlinks d) (dhead d) (map dev_node xs @ map dev_node ys)" using assms(1) es by (simp add: dev_list_def)
  then have "lprev (dlinks d) n = last (dhead d # map dev_node xs)"
    by (cases ys) (auto simp: list_rep_def n_def dll_last)
  then have "list_rep (list_add_tail (dlinks d) (dev_node this) n) (dhead d) (map dev_node xs @ dev_node this # map dev_node ys)"
    using list_rep_insert[OF rep, of "dev_node this"] assms(4) es by (simp add: list_add_tail_def n_def)
  moreover have "devlist_add sa dev d = rret (d1\<lparr>dlinks := list_add_tail (dlinks d1) (dev_node this) n\<rparr>, 0)"
    using assms(2,3) s unfolding n by (simp add: devlist_add_def dkmalloc_def Let_def d1_def)
  ultimately show ?thesis by (auto simp: dev_list_def d1_def)
qed

lemma insert_sorted:
  assumes "sorted_wrt (\<lambda>a b. f a \<le> f b) es" "\<And>a. a \<in> set es \<Longrightarrow> g a = f a"
  shows "sorted_wrt (\<lambda>a b. g a \<le> g b) (takeWhile (\<lambda>e. f e \<le> g x) es @ x # dropWhile (\<lambda>e. f e \<le> (g x :: u32)) es)"
  using assms
proof (induction es)
  case (Cons e es)
  show ?case
  proof (cases "f e \<le> g x")
    case True
    have "g e \<le> g y" if "y \<in> set (takeWhile (\<lambda>e. f e \<le> g x) es @ x # dropWhile (\<lambda>e. f e \<le> g x) es)" for y
    proof -
      have "y = x \<or> y \<in> set es" using that by (auto dest: set_takeWhileD set_dropWhileD)
      then show ?thesis using Cons.prems True by auto
    qed
    then show ?thesis using Cons True by simp
  next
    case False
    then have "g x \<le> g e" using Cons.prems(2)[of e] by simp
    then have "g x \<le> g y" if "y \<in> set (e # es)" for y using that Cons.prems by (fastforce intro: order_trans)
    moreover have "sorted_wrt (\<lambda>a b. g a \<le> g b) (e # es)"
      by (rule sorted_wrt_mono_rel[OF _ Cons.prems(1)]) (use Cons.prems(2) in auto)
    ultimately show ?thesis using False by simp
  qed
qed simp

text \<open>A bus with connected devices stays; otherwise the last entry of the device is unlinked.\<close>

lemma remove_search_finds:
  assumes "dll (dlinks d) a (map dev_node es) (dhead d)" "dhead d \<notin> set (map dev_node es)"
  shows "remove_search dev d (lnext (dlinks d) a) this =
    Some (if list_ex (\<lambda>e. dev_bus (ddev d (entry_dev d e)) = dev) es then Inl ()
          else Inr (last (this # filter (\<lambda>e. entry_dev d e = dev) es)))"
  using assms
proof (induction es arbitrary: a this)
  case Nil
  then show ?case by (subst remove_search.simps) simp
next
  case (Cons e es)
  then have n: "lnext (dlinks d) a = dev_node e" "dev_node e \<noteq> dhead d" by auto
  have "remove_search dev d (lnext (dlinks d) (dev_node e)) t =
      Some (if list_ex (\<lambda>e. dev_bus (ddev d (entry_dev d e)) = dev) es then Inl ()
            else Inr (last (t # filter (\<lambda>e. entry_dev d e = dev) es)))" for t
    using Cons.prems by (intro Cons.IH) auto
  then show ?case by (subst remove_search.simps) (simp add: n Let_def)
qed

lemma devlist_remove_busy:
  assumes "dev_list d es" "e \<in> set es" "dev_bus (ddev d (entry_dev d e)) = dev"
  shows "devlist_remove sa dev d = rret (d, EOF)"
proof -
  have "list_ex (\<lambda>e. dev_bus (ddev d (entry_dev d e)) = dev) es" using assms(2,3) by (auto simp: list_ex_iff)
  then show ?thesis
    using assms(1) remove_search_finds[of d "dhead d" es dev 0] by (simp add: devlist_remove_def dev_list_def list_rep_def)
qed

lemma devlist_remove_unlinks:
  assumes "dev_list d (xs @ e # ys)" "entry_dev d e = dev" "\<forall>f\<in>set ys. entry_dev d f \<noteq> dev" "e \<noteq> 0"
    and "\<forall>f\<in>set (xs @ e # ys). dev_bus (ddev d (entry_dev d f)) \<noteq> dev" "kfree sa e (dheap d) = Some h"
  shows "\<exists>d'. devlist_remove sa dev d = rret (d', 0) \<and> dev_list d' (xs @ ys)"
proof -
  have "\<not> list_ex (\<lambda>e. dev_bus (ddev d (entry_dev d e)) = dev) (xs @ e # ys)" using assms(5) by (simp only: list_ex_iff) blast
  moreover have "filter (\<lambda>f. entry_dev d f = dev) ys = []" using assms(3) by simp
  then have "last (0 # filter (\<lambda>f. entry_dev d f = dev) (xs @ e # ys)) = e" using assms(2) by simp
  ultimately have r: "remove_search dev d (lnext (dlinks d) (dhead d)) 0 = Some (Inr e)"
    using assms(1) remove_search_finds[of d "dhead d" "xs @ e # ys" dev 0] unfolding dev_list_def list_rep_def by simp
  have "list_rep (list_del (dlinks d) (dev_node e)) (dhead d) (map dev_node xs @ map dev_node ys)"
    using assms(1) list_rep_del by (simp add: dev_list_def)
  then show ?thesis using r assms(4,6) by (simp add: devlist_remove_def dev_list_def)
qed

text \<open>
  A walk over the devices does not stop at the end of the list: after the last device it
  returns the word before the list head as the next one.
\<close>

lemma devlist_next_end:
  assumes "dev_list d (es @ [e])" "entry_dev d e \<noteq> 0"
  shows "devlist_next (entry_dev d e) e d = rret (entry_dev d (dev_entry (dhead d)), dev_entry (dhead d))"
proof -
  have "lnext (dlinks d) (dev_node e) = dhead d" using assms(1) by (simp add: dev_list_def list_rep_def)
  moreover have "dev_entry (dhead d) \<noteq> dhead d" by (simp add: dev_entry_def)
  ultimately show ?thesis using assms(2) by (simp add: devlist_next_def)
qed

section \<open>The serial driver takes over the console\<close>

lemma initdev_chr:
  assumes "drvs d drv = uart_drv"
  shows "initdev dev DEVCLASS_CHR name no drv d =
    rret (set_ddev dev (\<lambda>v. v\<lparr>devno := no, dev_class := DEVCLASS_CHR, dev_name := take DEV_NAME_MAX name\<rparr>) d)"
  using assms by (simp add: initdev_def set_ddev_def uart_drv_def Let_def)

lemma find_middle: "(\<And>x. x \<in> set xs \<Longrightarrow> \<not> P x) \<Longrightarrow> P y \<Longrightarrow> List.find P (xs @ y # ys) = Some y"
  by (induction xs) auto

lemma serial_console:
  assumes "on_port_bus k uart 0x3f8" "my_device k = uart" "uart \<noteq> 0" "becomes_ready (devices (km k)) 0x3f8 0x20"
  shows "\<exists>k1 k2. uu_uart_ns16550_init uart k = Some k1 \<and> uu_uart_ns16550_enable uart k1 = Some k2 \<and>
    console_ready 0x3f8 (set_console (Some Console_Putchar) (Some get_default_kputs) k2) \<and> my_device k2 = uart"
proof -
  obtain t where t: "uu_uart_ns16550_init uart k = Some (k\<lparr>km := (km k)\<lparr>trace := t\<rparr>\<rparr>)" using uart_init_programs[OF assms(1)] by blast
  define k1 where "k1 = k\<lparr>km := (km k)\<lparr>trace := t\<rparr>\<rparr>"
  have p1: "on_port_bus k1 uart 0x3f8" using assms(1) by (simp add: k1_def)
  obtain t' where t': "uu_uart_ns16550_enable uart k1 = Some (k1\<lparr>km := (km k1)\<lparr>trace := t'\<rparr>\<rparr>)"
    by (auto simp: uu_uart_ns16550_enable_def with_write8_port[OF p1] outb_def log_io_def)
  have "console_ready 0x3f8 (set_console (Some Console_Putchar) (Some get_default_kputs) (k1\<lparr>km := (km k1)\<lparr>trace := t'\<rparr>\<rparr>))"
    using p1 assms(2-4)
    by (simp add: console_ready_def prints_on_def set_console_def get_default_kputs_def spinlock_init_def lock_free_def on_port_bus_def k1_def)
  then show ?thesis using t t' assms(2) by (auto simp: k1_def)
qed

text \<open>The list has a port bus that is its own root, and no serial port yet.\<close>

definition has_portio :: "'s dsys \<Rightarrow> u32 list \<Rightarrow> u32 \<Rightarrow> bool" where
  "has_portio d es bus \<longleftrightarrow> uu_index d = Devlist_Index \<and> dev_list d es \<and> dev_from_name ''portio'' d = Some bus \<and> bus \<in> entry_dev d ` set es \<and>
     dev_bus (ddev d bus) = 0 \<and> get_read_fp (ddev d bus) = PORT_GET \<and> get_write_fp (ddev d bus) = PORT_GET \<and>
     (\<forall>e\<in>set es. dev_name (ddev d (entry_dev d e)) \<noteq> ''uart-ns16550'')"

lemma uart_driver_init_console:
  assumes "has_portio d es bus" "drvs d drv = uart_drv" "becomes_ready (devices (km (dkern d))) 0x3f8 0x20"
    and "kmalloc sa sizeof_chr_device GFP_ZERO (dheap d) = rret (h, uart)" "uart \<noteq> 0" "uart \<notin> entry_dev d ` set es"
    and "kmalloc sa sizeof_device_entry 0 h = rret (h', this)" "this \<noteq> 0" "dev_node this \<notin> set (dhead d # map dev_node es)"
  shows "\<exists>d'. uart_driver_init sa drv d = rret (d', 0) \<and> console_ready 0x3f8 (dkern d') \<and> my_device (dkern d') = uart \<and>
    uu_putchar (dkern d') = Some Console_Putchar"
proof -
  define d1 where "d1 = set_ddev uart (\<lambda>_. zero_device) (register_driver NOMAJOR drv d\<lparr>dheap := h\<rparr>)"
  have same: "ddev d1 (entry_dev d e) = ddev d (entry_dev d e)" if "e \<in> set es" for e
    using assms(6) that by (auto simp: d1_def set_ddev_def register_driver_def Let_def)
  have d1: "uu_index d1 = Devlist_Index" "dev_list d1 es" "entry_dev d1 = entry_dev d" "drvs d1 drv = uart_drv" "dhead d1 = dhead d" "dheap d1 = h"
    using assms(1,2) by (simp_all add: d1_def set_ddev_def register_driver_def has_portio_def dev_list_def Let_def)
  have new: "new_device sa sizeof_chr_device (register_driver NOMAJOR drv d) = rret (d1, uart)"
    using assms(4) by (simp add: new_device_def dkmalloc_def d1_def register_driver_def Let_def)
  have find_same: "List.find (\<lambda>e. dev_name (ddev d1 (entry_dev d1 e)) = n) es = List.find (\<lambda>e. dev_name (ddev d (entry_dev d e)) = n) es" for n
    using same d1(3) by (intro find_cong) auto
  have bus: "dev_from_name ''portio'' d1 = Some bus" and d0: "dev_list d es"
  proof -
    show d0: "dev_list d es" using assms(1) by (simp add: has_portio_def)
    have "devlist_from_name ''portio'' d = Some bus" using assms(1) by (auto simp: has_portio_def dev_from_name_def)
    moreover have "devlist_from_name ''portio'' d1 = devlist_from_name ''portio'' d"
      unfolding devlist_lookup(2)[OF d1(2)] devlist_lookup(2)[OF d0] find_same unfolding d1(3) ..
    ultimately show "dev_from_name ''portio'' d1 = Some bus" using d1(1) by (simp add: dev_from_name_def)
  qed
  define d2 where "d2 = set_ddev uart (\<lambda>v. v\<lparr>devno := NODEV, dev_class := DEVCLASS_CHR, dev_name := take DEV_NAME_MAX ''uart-ns16550''\<rparr>)
    (set_ddev uart (\<lambda>v. v\<lparr>dev_bus := bus, dev_base := UART_BASE\<rparr>) d1)"
  have i: "initdev uart DEVCLASS_CHR ''uart-ns16550'' NODEV drv (set_ddev uart (\<lambda>v. v\<lparr>dev_bus := bus, dev_base := UART_BASE\<rparr>) d1) = rret d2"
    using d1(4) by (simp add: initdev_chr d2_def set_ddev_def)
  have d2: "dev_list d2 es" "uu_index d2 = Devlist_Index" "dheap d2 = h" "dhead d2 = dhead d" "entry_dev d2 = entry_dev d"
    using d1 by (simp_all add: d2_def set_ddev_def dev_list_def)
  obtain d3 xs ys where d3: "dev_add sa uart d2 = rret (d3, 0)" "dev_list d3 (xs @ this # ys)" "dkern d3 = dkern d2"
    "entry_dev d3 = (entry_dev d)(this := uart)" "es = xs @ ys" "uu_index d3 = Devlist_Index"
    using devlist_add_inserts[OF d2(1) _ assms(8) _ refl refl, of sa h' uart] d2 assms(7,9) by (auto simp: dev_add_def)
  have "uart \<noteq> bus" using assms(1,6) by (auto simp: has_portio_def)
  then have dv: "ddev d3 uart = zero_device\<lparr>dev_bus := bus, dev_base := UART_BASE, devno := NODEV, dev_class := DEVCLASS_CHR,
      dev_name := take DEV_NAME_MAX ''uart-ns16550''\<rparr>" "p \<noteq> uart \<Longrightarrow> ddev d3 p = ddev d p" for p
    by (simp_all add: d3(3) d2_def d1_def set_ddev_def register_driver_def Let_def)
  have "dev_name (ddev d3 (entry_dev d3 e)) \<noteq> ''uart-ns16550''" if "e \<in> set xs" for e
  proof -
    have "e \<noteq> this" "e \<in> set es" using assms(9) that d3(5) by auto
    moreover from this have "entry_dev d e \<noteq> uart" using assms(6) imageI[of e "set es" "entry_dev d"] by auto
    ultimately show ?thesis using assms(1) dv(2)[of "entry_dev d e"] d3(4) by (simp add: has_portio_def)
  qed
  then have "List.find (\<lambda>e. dev_name (ddev d3 (entry_dev d3 e)) = ''uart-ns16550'') (xs @ this # ys) = Some this"
    using dv(1) d3(4) by (intro find_middle) (auto simp: DEV_NAME_MAX_def)
  then have my: "dev_from_name ''uart-ns16550'' d3 = Some uart"
    using devlist_lookup(2)[OF d3(2)] d3(4,6) by (simp add: dev_from_name_def)
  define k where "k = dkern d3\<lparr>my_device := uart\<rparr>"
  have p: "on_port_bus k uart 0x3f8" using assms(1) dv \<open>uart \<noteq> bus\<close> by (auto simp: on_port_bus_def k_def has_portio_def UART_BASE_def)
  have "my_device k = uart" "becomes_ready (devices (km k)) 0x3f8 0x20"
    using assms(3) by (simp_all add: k_def d3(3) d2_def d1_def set_ddev_def set_dev_def register_driver_def Let_def)
  from serial_console[OF p this(1) assms(5) this(2)] obtain k' k2 where
    k: "uu_uart_ns16550_init uart k = Some k'" "uu_uart_ns16550_enable uart k' = Some k2"
    "console_ready 0x3f8 (set_console (Some Console_Putchar) (Some get_default_kputs) k2)" "my_device k2 = uart" by blast
  have "uart_driver_init sa drv d = rret (d3\<lparr>dkern := set_console (Some Console_Putchar) (Some get_default_kputs) k2\<rparr>, 0)"
    using k(1,2) by (simp add: uart_driver_init_def Let_def new of_option_def bus i d3(1) my k_def[symmetric])
  then show ?thesis using k(3,4) by (simp add: set_console_def)
qed

end
