(* ===== verification/Init.thy ===== *)
theory Init
  imports Mp Devlist ArchMmu
begin

text \<open>
  The start of the kernel (\<^verbatim>\<open>kern/init/early_init.c\<close>, \<^verbatim>\<open>kern/arch/i386/arch_early_init.c\<close>): how the
  components are put together. What is modelled is the early part up to the first output, the
  set-up of the allocators, the switch to the boot page table, and the set-up of the interrupts.
\<close>

section \<open>The early part\<close>

definition clear_bss :: "u32 \<Rightarrow> u32 \<Rightarrow> mach \<Rightarrow> mach" where
  "clear_bss bss_start bss_end s = (let count = (bss_end - bss_start) div 4 in stosb bss_start 0 count s)"

text \<open>\<open>memory\<close> and \<open>port\<close> are the addresses of the early buses, which are also the arguments.\<close>

definition early_devices_init :: "u32 \<Rightarrow> u32 \<Rightarrow> kern \<times> kern jump_handlers \<Rightarrow> ((kern \<times> kern jump_handlers) \<times> int) outcome" where
  "early_devices_init memory port st =
     bind_outcome (io_mem_init memory memory st) (\<lambda>(st, r).
       if r < 0 then Done (st, EOF)
       else bind_outcome (io_port_init port port st) (\<lambda>(st, r).
              if r < 0 then Done (st, EOF) else Done (st, 0)))"

text \<open>Up to the call of the early initialization functions; every jump to the end of the function panics.\<close>

definition master_early_init :: "nat \<Rightarrow> u32 \<Rightarrow> u32 \<Rightarrow> u32 \<Rightarrow> u32 \<Rightarrow> kern \<times> kern jump_handlers \<times> 'm mmu_handlers \<Rightarrow>
    (kern \<times> kern jump_handlers \<times> 'm mmu_handlers) run" where
  "master_early_init c bss_start bss_end memory port = (\<lambda>(k, q, mh).
     let k = k\<lparr>km := clear_bss bss_start bss_end (km k)\<rparr>;
         k = k\<lparr>emaps := early_mapping_clear (emaps k)\<rparr>;
         mh = mmu_handlers_clear mh
     in rbind (Some (early_devices_init memory port (k, q))) (\<lambda>(st, r).
        if r < 0 then Some Panic
        else rbind (early_console_init port UART_BASE MAP_NONE st) (\<lambda>((k, q), r).
             if r < 0 then Some Panic
             else rbind (kputs c (cstr (''Hello, world!'' @ nl)) k) (\<lambda>(_, k). rret (k, q, mh)))))"

definition gdt :: "segdesc list" where
  "gdt = [SEG 0x0 0x0 0x0 0x0, SEG (STA_X OR STA_R) 0 0xffffffff 0, SEG STA_W 0 0xffffffff 0,
     SEG (STA_X OR STA_R) 0 0xffffffff DPL_USER, SEG STA_W 0 0xffffffff DPL_USER]"

text \<open>The state in which the kernel jumps to its high address, with the boot page table.\<close>

definition arch_early_init :: "u32 \<Rightarrow> u32 \<Rightarrow> u32 \<Rightarrow> pgindex \<times> mach \<Rightarrow> (pgindex \<times> mach) option" where
  "arch_early_init gdt_addr kend pgdir_addr = (\<lambda>(idx, s).
     let s = lgdt gdt_addr (of_nat (length gdt) * 8) s
     in map_option (\<lambda>idx. (idx, mmu_init pgdir_addr s)) (early_mm_init kend idx))"

section \<open>At high addresses\<close>

text \<open>
  \<open>pt\<close> is the address of the array on the stack, \<open>k\<close> what \<^verbatim>\<open>page_alloc\<close> gets for a buddy it allocates, and the last
  arguments are those of the initialization of the page allocator. The allocator is the second one that is registered.
\<close>

definition allocator_init :: "u32 \<Rightarrow> u32 \<Rightarrow> u64 \<Rightarrow> int \<Rightarrow> (nat \<Rightarrow> PMB) \<Rightarrow> u32 \<Rightarrow> (nat \<Rightarrow> u32) \<Rightarrow> area heap \<Rightarrow>
    (area simple_allocator \<times> area heap) run" where
  "allocator_init pt k u num pmb kend fresh h =
     (let a = \<lparr>pa_alloc = page_alloc k, pa_free = page_free, pa_get_free = page_get_free\<rparr>;
          b = \<lparr>sa_alloc = simple_alloc u, sa_free = simple_free, sa_size = simple_size\<rparr>;
          h = h\<lparr>hpmm := set_page_allocator a (hpmm h)\<rparr>
      in rbind (simple_allocator_bootstrap pt 4096 h) (\<lambda>(h, _).
         let st = page_allocator_init num pmb kend fresh (pa_state (hpmm h));
             h = h\<lparr>hpmm := hpmm h\<lparr>pa_state := st\<rparr>\<rparr>;
             (h, _) = simple_allocator_init h;
             (_, st) = page_allocator_move (pa_state (hpmm h))
         in rret (b, h\<lparr>hpmm := hpmm h\<lparr>pa_state := st\<rparr>\<rparr>)))"

text \<open>The calls of \<^verbatim>\<open>high_address_entry\<close> from \<^verbatim>\<open>mpinit\<close> to \<^verbatim>\<open>sti\<close>.\<close>

definition interrupts_init :: "(entry_point \<Rightarrow> u32) \<Rightarrow> u32 \<Rightarrow> nat \<Rightarrow> (nat \<Rightarrow> gatedesc) \<times> smp \<times> kern \<Rightarrow>
    ((nat \<Rightarrow> gatedesc) \<times> smp \<times> kern) run" where
  "interrupts_init addr idt_addr c = (\<lambda>(idt, x, k).
     rbind (of_option (mpinit (x, km k))) (\<lambda>(x, s).
     rbind (of_option (lapicinit (lapic x) s)) (\<lambda>s.
     let (m, s) = picinit (irqmask x, s);
         x = x\<lparr>irqmask := m\<rparr>
     in rbind (ioapicinit c (ismp x) (ioapicid x) (ioapic x) (k\<lparr>km := s\<rparr>)) (\<lambda>(p, k).
        let x = x\<lparr>ioapic := p\<rparr>;
            (idt, s) = trap_init addr idt_addr (idt, km k)
        in rret (idt, x, k\<lparr>km := sti s\<rparr>)))))"

section \<open>Lemmas\<close>

text \<open>
  Of the uninitialized data only the first quarter is cleared: the count is one of words, and bytes are stored.
\<close>

lemma clear_bss_quarter:
  "mem (clear_bss b e s) x = (if unat (x - b) < unat (e - b) div 4 then 0 else mem s x)"
  by (simp add: clear_bss_def Let_def stosb_memset memset_window word_less_nat_alt unat_div)

text \<open>The first output of the kernel.\<close>

lemma jump_add_room:
  assumes "jump_queue q = Some hs" "length hs < 10"
  obtains q' where "jump_handlers_add h q = Done (q', 0)" "jump_queue q' = Some (hs @ [h])"
  using jq.add_room[OF assms] by blast

lemma early_devices_ready:
  assumes "memory \<noteq> port" "jump_queue q = Some hs" "length hs < 9" "devs k port = early_port_bus"
  shows "\<exists>k' q' hs'. early_devices_init memory port (k, q) = Done ((k', q'), 0) \<and> jump_queue q' = Some hs' \<and> length hs' = length hs + 2 \<and>
    devs k' port = early_port_bus\<lparr>get_read_fp := PORT_GET, get_write_fp := PORT_GET\<rparr> \<and> km k' = km k \<and> early_uart k' = early_uart k"
proof -
  obtain q1 where q1: "jump_handlers_add (mem_jump_handler memory) q = Done (q1, 0)" "jump_queue q1 = Some (hs @ [mem_jump_handler memory])"
    by (rule jump_add_room[OF assms(2), of "mem_jump_handler memory"]) (use assms(3) in simp)
  obtain q2 where q2: "jump_handlers_add (port_jump_handler port) q1 = Done (q2, 0)"
    "jump_queue q2 = Some ((hs @ [mem_jump_handler memory]) @ [port_jump_handler port])"
    by (rule jump_add_room[OF q1(2), of "port_jump_handler port"]) (use assms(3) in simp)
  show ?thesis using q1(1) q2 assms(1,4)
    by (simp add: early_devices_init_def io_mem_init_def io_port_init_def uu_portio_bus_init_def set_dev_def)
qed

lemma early_devices_hello:
  assumes "memory \<noteq> port" "port \<noteq> early_uart k" "jump_queue q = Some hs" "length hs < 8" "devs k port = early_port_bus"
    and "becomes_ready (devices (km k)) 0x3f8 0x20"
  shows "\<exists>k' q' mh'. master_early_init c b e memory port (k, q, mh) = rret (k', q', mh') \<and> console_ready 0x3f8 k' \<and>
    (\<exists>t. printed 0x3f8 k' = t @ crlf (''Hello, world!'' @ nl))"
proof -
  define k0 where "k0 = k\<lparr>km := clear_bss b e (km k), emaps := early_mapping_clear (emaps k)\<rparr>"
  have k0: "devs k0 port = early_port_bus" "early_uart k0 = early_uart k" "devices (km k0) = devices (km k)"
    using assms(5) by (simp_all add: k0_def clear_bss_def stosb_def Let_def)
  obtain k1 q1 hs1 where k1: "early_devices_init memory port (k0, q) = Done ((k1, q1), 0)" "jump_queue q1 = Some hs1" "length hs1 = length hs + 2"
    "devs k1 port = early_port_bus\<lparr>get_read_fp := PORT_GET, get_write_fp := PORT_GET\<rparr>" "km k1 = km k0" "early_uart k1 = early_uart k0"
    using early_devices_ready[OF assms(1,3) _ k0(1)] assms(4) by auto
  have "ucast UART_BASE = (0x3f8 :: u16)" by (simp add: UART_BASE_def)
  then have "\<exists>k2 q2. early_console_init port UART_BASE MAP_NONE (k1, q1) = rret ((k2, q2), 0) \<and> console_ready 0x3f8 k2"
    using early_console_ready[of k1 port UART_BASE q1 hs1] k1 k0 assms(2,4,6) by (auto simp: early_port_bus_def console_ready_def)
  then obtain k2 q2 where k2: "early_console_init port UART_BASE MAP_NONE (k1, q1) = rret ((k2, q2), 0)" "console_ready 0x3f8 k2" by blast
  have n: "CHR 0x00 \<notin> set (''Hello, world!'' @ nl)" by (simp add: nl_def)
  obtain k3 where k3: "kputs c (cstr (''Hello, world!'' @ nl)) k2 = rret (0, k3)" "console_ready 0x3f8 k3"
    "printed 0x3f8 k3 = printed 0x3f8 k2 @ crlf (''Hello, world!'' @ nl)"
    using kputs_ready[OF k2(2), of "cstr (''Hello, world!'' @ nl)" c] unfolding cstr_parts(2)[OF n] by (auto simp del: crlf_simps)
  have "master_early_init c b e memory port (k, q, mh) = rret (k3, q2, mmu_handlers_clear mh)"
    using k1(1) k2(1) k3(1) by (simp add: master_early_init_def k0_def Let_def)
  then show ?thesis using k3 by blast
qed

text \<open>
  After the set-up of the allocators the heap gets its pages from the page allocator, whose area is well formed,
  provided that the area lies below the kernel base and that the array of buddies, whose entries the code never fills, holds
  distinct structures.
\<close>

lemma page_allocator_init_ok:
  assumes "st' = page_allocator_init num pmb kend fresh st" "n = unat (page_num st')" "unat (base_addr st') mod 4096 = 0" "0 < unat (base_addr st')"
    and "unat (base_addr st') + 4096 * n \<le> 2 ^ 31" "\<forall>i<n div 1024. fresh i \<noteq> 0" "inj_on fresh {..<n div 1024}"
  shows "area_low st' \<and> area_bytes st' = {}"
proof -
  have b: "buddylist st' = fresh" "buddy_num st' = 0" unfolding assms(1) by (simp_all add: page_allocator_init_def Let_def split: prod.split)
  have "area_ok n st'" using assms(2-7) b by (simp add: area_ok_def area_used_def)
  then have "area_low st'" using assms(3-5) by (auto simp: area_low_def)
  then show ?thesis using b by (simp add: area_bytes_def area_blocks_def)
qed

lemma allocator_init_heap:
  assumes "classes_ok h" "st = page_allocator_init num pmb kend fresh (pa_state (hpmm h))"
  shows "\<exists>b h'. allocator_init pt k u num pmb kend fresh h = rret (b, h') \<and> is_page_alloc_on h' \<and> classes_ok h' \<and>
    pa_alloc (uu_allocator (hpmm h')) = page_alloc k \<and> pa_state (hpmm h') = st \<and> sa_alloc b = simple_alloc u"
proof -
  define h0 where "h0 = h\<lparr>hpmm := set_page_allocator \<lparr>pa_alloc = page_alloc k, pa_free = page_free, pa_get_free = page_get_free\<rparr> (hpmm h)\<rparr>"
  have "classes_ok h0" using assms(1) by (simp add: h0_def classes_ok_def classes_def)
  from bootstrap_accepts[OF this, of pt 4096] show ?thesis
    using assms by (simp add: allocator_init_def Let_def h0_def simple_allocator_init_def page_allocator_move_def set_page_allocator_def classes_ok_def classes_def)
qed

end
