(* ===== verification/Probe.thy ===== *)
theory Probe
  imports Devlist
begin

text \<open>
  The search for devices (\<^verbatim>\<open>drivers/common/core.c\<close>): the entries of the device tree
  (\<^verbatim>\<open>kern/arch/i386/mach-unknown/devtree.c\<close>) whose bus is known are put on a list, the buses are probed, and the drivers
  are offered the entries of the list, until no driver takes one. The methods \<^verbatim>\<open>new\<close> of the drivers and \<^verbatim>\<open>probe\<close> of the buses, which
  no driver of this kernel sets, are arguments, by the addresses of the driver and of the bus.
\<close>

section \<open>The device tree\<close>

record devtree_entry =
  dt_name :: "char list"
  dt_model :: "char list"
  dt_parent :: "char list"
  dt_nregs :: int
  dt_regs :: "u64 list"
  dt_irq :: int

definition devtree :: "devtree_entry list" where
  "devtree =
     [\<lparr>dt_name = ''io-mem'', dt_model = ''io-mem'', dt_parent = '''', dt_nregs = 0, dt_regs = replicate 10 0, dt_irq = 0\<rparr>,
      \<lparr>dt_name = ''io-port'', dt_model = ''io-port'', dt_parent = '''', dt_nregs = 0, dt_regs = replicate 10 0, dt_irq = 0\<rparr>]"

definition ndevtree_entries :: nat where "ndevtree_entries = length devtree"

definition sizeof_devtree_entry :: u32 where "sizeof_devtree_entry = 280"

text \<open>The links of the undriven entries are those of the device list, too; \<open>uhead\<close> is the address of \<^verbatim>\<open>__undriven_devs\<close>.\<close>

record 's psys =
  pd :: "'s dsys"
  node_entry :: "u32 \<Rightarrow> devtree_entry"
  uhead :: u32

type_synonym 's new_fp = "devtree_entry \<Rightarrow> 's psys \<Rightarrow> ('s psys \<times> int) run"
type_synonym 's probe_fp = "u32 \<Rightarrow> 's psys \<Rightarrow> 's psys run"

definition sizeof_entry_node :: u32 where "sizeof_entry_node = 288"
definition tree_node :: "u32 \<Rightarrow> u32" where "tree_node e = e + sizeof_devtree_entry"
definition node_of :: "u32 \<Rightarrow> u32" where "node_of n = n - sizeof_devtree_entry"

abbreviation pnext :: "'s psys \<Rightarrow> u32 \<Rightarrow> u32" where
  "pnext p \<equiv> lnext (dlinks (pd p))"

section \<open>Entries that are known\<close>

definition uu_dev_match :: "'s psys \<Rightarrow> u32 \<Rightarrow> devtree_entry \<Rightarrow> bool run" where
  "uu_dev_match p dev en =
     (if dev_nregs (ddev (pd p) dev) = dt_nregs en
      then rbind (of_option (dev_from_name (dt_parent en) (pd p))) (\<lambda>bus. rret (dev_bus (ddev (pd p) dev) = bus))
      else rret False)"

definition uu_entry_match :: "devtree_entry \<Rightarrow> devtree_entry \<Rightarrow> bool" where
  "uu_entry_match a b \<longleftrightarrow> dt_nregs a = dt_nregs b \<and> dt_parent a = dt_parent b \<and>
     take (nat (dt_nregs a)) (dt_regs a) = take (nat (dt_nregs a)) (dt_regs b)"

partial_function (option) check_dup_loop :: "devtree_entry \<Rightarrow> 's psys \<Rightarrow> u32 \<Rightarrow> u32 \<Rightarrow> u32 run" where
  "check_dup_loop en p dev savep =
     (if dev = 0 then rret 0
      else rbind (uu_dev_match p dev en) (\<lambda>same.
             if same then rret dev
             else rbind (dev_next dev savep (pd p)) (\<lambda>(dev, savep). check_dup_loop en p dev savep)))"

definition uu_check_dup_device :: "devtree_entry \<Rightarrow> 's psys \<Rightarrow> u32 run" where
  "uu_check_dup_device en p = rbind (dev_next 0 0 (pd p)) (\<lambda>(dev, savep). check_dup_loop en p dev savep)"

partial_function (option) undriven_search :: "devtree_entry \<Rightarrow> 's psys \<Rightarrow> u32 \<Rightarrow> bool option" where
  "undriven_search en p n =
     (if n = uhead p then Some False
      else if uu_entry_match (node_entry p (node_of n)) en then Some True
      else undriven_search en p (pnext p n))"

text \<open>The result of the allocation is not checked.\<close>

definition discover_device :: "'s simple_allocator \<Rightarrow> devtree_entry \<Rightarrow> 's psys \<Rightarrow> 's psys run" where
  "discover_device sa en p =
     rbind (uu_check_dup_device en p) (\<lambda>dev.
       if dev \<noteq> 0 then rret p
       else rbind (of_option (undriven_search en p (pnext p (uhead p)))) (\<lambda>known.
              if known then rret p
              else rbind (dkmalloc sa sizeof_entry_node 0 (pd p)) (\<lambda>(d, e).
                     rret (p\<lparr>pd := d\<lparr>dlinks := list_add_tail (dlinks d) (tree_node e) (uhead p)\<rparr>,
                             node_entry := (node_entry p)(e := en)\<rparr>))))"

section \<open>A pass\<close>

text \<open>The entry at address \<open>ea\<close> of the device tree.\<close>

definition scan_entry :: "nat \<Rightarrow> 's simple_allocator \<Rightarrow> u32 \<Rightarrow> devtree_entry \<Rightarrow> 's psys \<Rightarrow> 's psys run" where
  "scan_entry c sa ea en p =
     rbind (of_option (dev_from_name (dt_name en) (pd p))) (\<lambda>dev.
       if dev \<noteq> 0 then rbind (uu_dev_match p dev en) (\<lambda>same. if \<not> same then Some Panic else rret p)
       else rbind (of_option (dev_from_name (dt_parent en) (pd p))) (\<lambda>bus.
              if bus = 0 then rret p
              else rbind (uu_check_dup_device en p) (\<lambda>dev.
                     if dev \<noteq> 0 \<and> dt_parent en \<noteq> ''memory''
                     then rbind (rassert (dev_name (ddev (pd p) dev) \<noteq> dt_name en)) (\<lambda>_.
                          rbind (kprintf c (\<lambda>i. if i = 0 then dev else ea) (\<lambda>a. if a = dev then dev_name (ddev (pd p) dev) else dt_name en)
                            (''KERN: overwriting device name %s with %s'' @ [CHR 0x0A]) (dkern (pd p))) (\<lambda>(_, k).
                          rret (p\<lparr>pd := set_ddev dev (\<lambda>v. v\<lparr>dev_name := take DEV_NAME_MAX (dt_name en)\<rparr>) (pd p\<lparr>dkern := k\<rparr>)\<rparr>)))
                     else discover_device sa en p)))"

primrec scan_tree :: "nat \<Rightarrow> 's simple_allocator \<Rightarrow> u32 \<Rightarrow> devtree_entry list \<Rightarrow> 's psys \<Rightarrow> 's psys run" where
  "scan_tree c sa ea [] p = rret p"
| "scan_tree c sa ea (en # ens) p =
     rbind (scan_entry c sa ea en p) (\<lambda>p. scan_tree c sa (ea + sizeof_devtree_entry) ens p)"

partial_function (option) probe_buses :: "(u32 \<Rightarrow> 's probe_fp option) \<Rightarrow> u32 \<Rightarrow> u32 \<Rightarrow> 's psys \<Rightarrow> 's psys run" where
  "probe_buses probe dev savep p =
     (if dev = 0 then rret p
      else rbind (case (if dev_class (ddev (pd p) dev) = DEVCLASS_BUS then probe dev else None) of
                    None \<Rightarrow> rret p
                  | Some f \<Rightarrow> f dev p) (\<lambda>p.
           rbind (dev_next dev savep (pd p)) (\<lambda>(dev, savep). probe_buses probe dev savep p)))"

text \<open>Whether a driver from number \<open>i\<close> on takes the entry.\<close>

partial_function (option) offer_entry :: "(u32 \<Rightarrow> 's new_fp option) \<Rightarrow> u32 \<Rightarrow> nat \<Rightarrow> 's psys \<Rightarrow> ('s psys \<times> bool) run" where
  "offer_entry new e i p =
     (if i < ndrivers (pd p)
      then rbind (case new (drivers (pd p) i) of None \<Rightarrow> rret (p, -1) | Some f \<Rightarrow> f (node_entry p e) p) (\<lambda>(p, r).
             if r = 0 then rret (p, True) else offer_entry new e (i + 1) p)
      else rret (p, False))"

text \<open>The walk is safe against the deletion of the entry: \<open>nx\<close> is the node behind \<open>n\<close>.\<close>

partial_function (option) pick_up :: "'s simple_allocator \<Rightarrow> (u32 \<Rightarrow> 's new_fp option) \<Rightarrow> u32 \<Rightarrow> u32 \<Rightarrow> bool \<Rightarrow> 's psys \<Rightarrow> ('s psys \<times> bool) run" where
  "pick_up sa new n nx hit p =
     (if n = uhead p then rret (p, hit)
      else rbind (offer_entry new (node_of n) 0 p) (\<lambda>(p, taken).
           rbind (if taken
                  then let d = pd p\<lparr>dlinks := list_del (dlinks (pd p)) n\<rparr>
                       in rbind (of_option (kfree sa (node_of n) (dheap d))) (\<lambda>h. rret (p\<lparr>pd := d\<lparr>dheap := h\<rparr>\<rparr>, True))
                  else rret (p, hit)) (\<lambda>(p, hit).
           pick_up sa new nx (pnext p nx) hit p)))"

definition uu_probe_devices :: "nat \<Rightarrow> 's simple_allocator \<Rightarrow> u32 \<Rightarrow> devtree_entry list \<Rightarrow> (u32 \<Rightarrow> 's probe_fp option) \<Rightarrow>
    (u32 \<Rightarrow> 's new_fp option) \<Rightarrow> 's psys \<Rightarrow> ('s psys \<times> bool) run" where
  "uu_probe_devices c sa tree_addr ens probe new p =
     rbind (scan_tree c sa tree_addr ens p) (\<lambda>p.
     rbind (dev_next 0 0 (pd p)) (\<lambda>(dev, savep).
     rbind (probe_buses probe dev savep p) (\<lambda>p.
     pick_up sa new (pnext p (uhead p)) (pnext p (pnext p (uhead p))) False p)))"

partial_function (option) probe_devices :: "nat \<Rightarrow> 's simple_allocator \<Rightarrow> u32 \<Rightarrow> devtree_entry list \<Rightarrow> (u32 \<Rightarrow> 's probe_fp option) \<Rightarrow>
    (u32 \<Rightarrow> 's new_fp option) \<Rightarrow> 's psys \<Rightarrow> 's psys run" where
  "probe_devices c sa tree_addr ens probe new p =
     rbind (uu_probe_devices c sa tree_addr ens probe new p) (\<lambda>(p, hit).
       if hit then probe_devices c sa tree_addr ens probe new p else rret p)"

section \<open>The walk over the devices\<close>

text \<open>The list of devices \<open>es\<close> as the walk needs it: no entry starts at the list head, and all entries hold a device.\<close>

definition walkable :: "'s dsys \<Rightarrow> u32 list \<Rightarrow> bool" where
  "walkable d es \<longleftrightarrow> uu_index d = Devlist_Index \<and> dev_list d es \<and> (\<forall>e\<in>set es. e \<noteq> dhead d \<and> entry_dev d e \<noteq> 0)"

text \<open>The word before the list head, which the walk takes for a device at the end of the list.\<close>

abbreviation end_word :: "'s dsys \<Rightarrow> u32" where
  "end_word d \<equiv> entry_dev d (dev_entry (dhead d))"

lemma dev_entry_head [simp]: "dev_entry (dhead d) \<noteq> dhead d" "dhead d \<noteq> dev_entry (dhead d)"
  by (simp_all add: dev_entry_def)

lemma dev_next_step:
  assumes "uu_index d = Devlist_Index" "lnext (dlinks d) (if dev = 0 then dhead d else dev_node savep) = n" "dev_entry n \<noteq> dhead d"
    and "dev \<noteq> 0 \<Longrightarrow> entry_dev d savep = dev"
  shows "dev_next dev savep d = rret (entry_dev d (dev_entry n), dev_entry n)"
  using assms by (cases "dev = 0") (simp_all add: dev_next_def devlist_next_def)

text \<open>The device that a lookup by the name of the parent gives, and the device an entry means.\<close>

definition bus_named :: "'s dsys \<Rightarrow> u32 list \<Rightarrow> char list \<Rightarrow> u32" where
  "bus_named d es name = (case List.find (\<lambda>e. dev_name (ddev d (entry_dev d e)) = name) es of None \<Rightarrow> 0 | Some e \<Rightarrow> entry_dev d e)"

definition matches :: "'s psys \<Rightarrow> u32 list \<Rightarrow> devtree_entry \<Rightarrow> u32 \<Rightarrow> bool" where
  "matches p es en dev \<longleftrightarrow> dev_nregs (ddev (pd p) dev) = dt_nregs en \<and> dev_bus (ddev (pd p) dev) = bus_named (pd p) es (dt_parent en)"

lemma walkable_from_name: "walkable d es \<Longrightarrow> dev_from_name name d = Some (bus_named d es name)"
  by (simp add: walkable_def dev_from_name_def devlist_lookup(2) bus_named_def)

lemma dev_match_walkable: "walkable (pd p) es \<Longrightarrow> uu_dev_match p dev en = rret (matches p es en dev)"
  by (simp add: uu_dev_match_def walkable_from_name of_option_def matches_def)

lemma check_dup_from:
  assumes "dll (dlinks (pd p)) a (map dev_node zs) (dhead (pd p))" "set zs \<subseteq> set es" "walkable (pd p) es" "end_word (pd p) = 0"
    and "n = lnext (dlinks (pd p)) a"
  shows "check_dup_loop en p (entry_dev (pd p) (dev_entry n)) (dev_entry n) =
    rret (case List.find (\<lambda>e. matches p es en (entry_dev (pd p) e)) zs of None \<Rightarrow> 0 | Some e \<Rightarrow> entry_dev (pd p) e)"
  using assms(1,2,5)
proof (induction zs arbitrary: a n)
  case Nil
  then show ?case using assms(4) by (subst check_dup_loop.simps) simp
next
  case (Cons z zs)
  define m where "m = lnext (dlinks (pd p)) (dev_node z)"
  have z: "z \<noteq> dhead (pd p)" "entry_dev (pd p) z \<noteq> 0" "uu_index (pd p) = Devlist_Index" using Cons.prems(2) assms(3) by (auto simp: walkable_def)
  have n: "n = dev_node z" using Cons.prems by simp
  have "dev_entry m \<noteq> dhead (pd p)"
  proof (cases zs)
    case Nil
    then show ?thesis using Cons.prems(1) by (simp add: m_def)
  next
    case (Cons y ys)
    then show ?thesis using Cons.prems(1,2) assms(3) by (simp add: m_def walkable_def)
  qed
  then have nxt: "dev_next (entry_dev (pd p) z) z (pd p) = rret (entry_dev (pd p) (dev_entry m), dev_entry m)"
    using z by (intro dev_next_step) (simp_all add: m_def)
  have ih: "check_dup_loop en p (entry_dev (pd p) (dev_entry m)) (dev_entry m) =
      rret (case List.find (\<lambda>e. matches p es en (entry_dev (pd p) e)) zs of None \<Rightarrow> 0 | Some e \<Rightarrow> entry_dev (pd p) e)"
    using Cons.prems by (intro Cons.IH[of "dev_node z"]) (simp_all add: m_def)
  show ?case unfolding n
    by (subst check_dup_loop.simps) (simp add: z nxt ih dev_match_walkable[OF assms(3)])
qed

lemma first_entry:
  assumes "walkable d es"
  shows "dev_next 0 0 d = rret (entry_dev d (dev_entry (lnext (dlinks d) (dhead d))), dev_entry (lnext (dlinks d) (dhead d)))"
proof (rule dev_next_step)
  show "dev_entry (lnext (dlinks d) (dhead d)) \<noteq> dhead d"
    using assms by (cases es) (auto simp: walkable_def dev_list_def list_rep_def)
qed (use assms in \<open>simp_all add: walkable_def\<close>)

text \<open>With a zero before the list head, the first device that matches the entry is found, or none.\<close>

lemma check_dup_finds:
  assumes "walkable (pd p) es" "end_word (pd p) = 0"
  shows "uu_check_dup_device en p =
    rret (case List.find (\<lambda>e. matches p es en (entry_dev (pd p) e)) es of None \<Rightarrow> 0 | Some e \<Rightarrow> entry_dev (pd p) e)"
  using first_entry[OF assms(1)] check_dup_from[OF _ subset_refl assms refl, of "dhead (pd p)" en] assms(1)
  by (simp add: uu_check_dup_device_def walkable_def dev_list_def list_rep_def)

text \<open>With another word there, and neither it nor any device matching, the walk goes round and round.\<close>

lemma dll_next_in: "dll h a xs b \<Longrightarrow> x \<in> set (a # xs) \<Longrightarrow> lnext h x \<in> set (xs @ [b])"
  by (induction xs arbitrary: a) auto

lemma check_dup_endless:
  assumes "walkable (pd p) es" "end_word (pd p) \<noteq> 0"
    and "\<forall>e\<in>set (dev_entry (dhead (pd p)) # es). \<not> matches p es en (entry_dev (pd p) e)"
  shows "uu_check_dup_device en p = None"
proof (rule ccontr)
  let ?d = "pd p" and ?S = "set (dev_entry (dhead (pd p)) # es)"
  have ix: "uu_index ?d = Devlist_Index" using assms(1) by (simp add: walkable_def)
  have nz: "entry_dev ?d e \<noteq> 0" "e \<noteq> dhead ?d" if "e \<in> ?S" for e using that assms(1,2) by (auto simp: walkable_def)
  have succ: "dev_entry (lnext (dlinks ?d) (dev_node e)) \<in> ?S" if "e \<in> ?S" for e
  proof -
    have "dll (dlinks ?d) (dhead ?d) (map dev_node es) (dhead ?d)" using assms(1) by (simp add: walkable_def dev_list_def list_rep_def)
    from dll_next_in[OF this, of "dev_node e"] show ?thesis using that by auto
  qed
  have loop: False if r: "check_dup_loop en p dev savep = Some r" and S: "savep \<in> ?S" "dev = entry_dev ?d savep" for dev savep r
  proof -
    have "en' = en \<longrightarrow> p' = p \<longrightarrow> savep \<notin> ?S \<or> dev \<noteq> entry_dev ?d savep" if "check_dup_loop en' p' dev savep = Some r" for en' p'
    proof (rule check_dup_loop.raw_induct[where P = "\<lambda>en' p' dev savep r. en' = en \<longrightarrow> p' = p \<longrightarrow> savep \<notin> ?S \<or> dev \<noteq> entry_dev ?d savep", OF _ that])
      fix f en' p' dev savep r
      assume ih: "\<And>en' p' dev savep r. f en' p' dev savep = Some r \<Longrightarrow> en' = en \<longrightarrow> p' = p \<longrightarrow> savep \<notin> ?S \<or> dev \<noteq> entry_dev ?d savep"
        and step: "(if dev = 0 then rret 0
          else rbind (uu_dev_match p' dev en') (\<lambda>same. if same then rret dev
            else rbind (dev_next dev savep (pd p')) (\<lambda>(dev, savep). f en' p' dev savep))) = Some r"
      show "en' = en \<longrightarrow> p' = p \<longrightarrow> savep \<notin> ?S \<or> dev \<noteq> entry_dev ?d savep"
      proof (intro impI, rule ccontr)
        assume eq: "en' = en" "p' = p" and "\<not> (savep \<notin> ?S \<or> dev \<noteq> entry_dev ?d savep)"
        then have S: "savep \<in> ?S" "dev = entry_dev ?d savep" by auto
        define n where "n = dev_entry (lnext (dlinks ?d) (dev_node savep))"
        have n: "n \<in> ?S" unfolding n_def by (rule succ[OF S(1)])
        have nxt: "dev_next dev savep ?d = rret (entry_dev ?d n, n)"
          unfolding n_def using ix S nz[OF S(1)] nz[OF n] by (intro dev_next_step) (simp_all add: n_def)
        have "\<not> matches p es en dev" using assms(3) S by blast
        then have "f en p (entry_dev ?d n) n = Some r"
          using step nz(1)[OF S(1)] nxt S(2) by (simp add: eq dev_match_walkable[OF assms(1)])
        then show False using ih n by blast
      qed
    qed
    then show False using r S by blast
  qed
  assume "uu_check_dup_device en p \<noteq> None"
  then obtain r where "check_dup_loop en p (entry_dev ?d (dev_entry (lnext (dlinks ?d) (dhead ?d)))) (dev_entry (lnext (dlinks ?d) (dhead ?d))) = Some r"
    using first_entry[OF assms(1)] by (auto simp: uu_check_dup_device_def)
  then show False using succ[of "dev_entry (dhead ?d)"] by (intro loop) auto
qed

section \<open>The undriven entries\<close>

definition undriven :: "'s psys \<Rightarrow> u32 list \<Rightarrow> bool" where
  "undriven p us \<longleftrightarrow> list_rep (dlinks (pd p)) (uhead p) (map tree_node us)"

lemma tree_node_inv [simp]: "node_of (tree_node e) = e" "tree_node a = tree_node b \<longleftrightarrow> a = b"
  by (simp_all add: tree_node_def node_of_def)

lemma undriven_search_from:
  assumes "dll (dlinks (pd p)) a (map tree_node us) (uhead p)" "uhead p \<notin> set (map tree_node us)"
  shows "undriven_search en p (pnext p a) = Some (list_ex (\<lambda>u. uu_entry_match (node_entry p u) en) us)"
  using assms
proof (induction us arbitrary: a)
  case Nil
  then show ?case by (subst undriven_search.simps) simp
next
  case (Cons u us)
  then have n: "pnext p a = tree_node u" "tree_node u \<noteq> uhead p" by auto
  have "undriven_search en p (pnext p (tree_node u)) = Some (list_ex (\<lambda>u. uu_entry_match (node_entry p u) en) us)"
    using Cons.prems by (intro Cons.IH) auto
  then show ?case by (subst undriven_search.simps) (simp add: n)
qed

lemma undriven_search_finds:
  "undriven p us \<Longrightarrow> undriven_search en p (pnext p (uhead p)) = Some (list_ex (\<lambda>u. uu_entry_match (node_entry p u) en) us)"
  using undriven_search_from[of p "uhead p" us en] by (auto simp: undriven_def list_rep_def)

text \<open>A device tree entry without a device is appended to the undriven ones, unless one with the same registers on the same bus is there.\<close>

lemma discover_appends:
  assumes "walkable (pd p) es" "end_word (pd p) = 0" "undriven p us"
    and "\<forall>e\<in>set es. \<not> matches p es en (entry_dev (pd p) e)" "\<forall>u\<in>set us. \<not> uu_entry_match (node_entry p u) en"
    and "kmalloc sa sizeof_entry_node 0 (dheap (pd p)) = rret (h, new)" "tree_node new \<notin> set (uhead p # map tree_node us)"
  shows "\<exists>p'. discover_device sa en p = rret p' \<and> undriven p' (us @ [new]) \<and> node_entry p' = (node_entry p)(new := en) \<and> uhead p' = uhead p"
proof -
  have "List.find (\<lambda>e. matches p es en (entry_dev (pd p) e)) es = None" using assms(4) by (simp add: find_None_iff)
  then have c: "uu_check_dup_device en p = rret 0" using check_dup_finds[OF assms(1,2), of en] by simp
  have s: "undriven_search en p (pnext p (uhead p)) = Some False"
    using undriven_search_finds[OF assms(3), of en] assms(5) by (simp add: list_ex_iff)
  have "list_rep (list_add_tail (dlinks (pd p)) (tree_node new) (uhead p)) (uhead p) (map tree_node us @ [tree_node new])"
    using assms(3,7) by (intro list_rep_add_tail) (simp_all add: undriven_def)
  then show ?thesis using c s assms(6) by (simp add: discover_device_def of_option_def dkmalloc_def undriven_def)
qed

lemma discover_known:
  assumes "walkable (pd p) es" "end_word (pd p) = 0" "undriven p us"
    and "(\<exists>e\<in>set es. matches p es en (entry_dev (pd p) e)) \<or> (\<exists>u\<in>set us. uu_entry_match (node_entry p u) en)"
  shows "discover_device sa en p = rret p"
proof (cases "\<exists>e\<in>set es. matches p es en (entry_dev (pd p) e)")
  case True
  then obtain e where "List.find (\<lambda>e. matches p es en (entry_dev (pd p) e)) es = Some e" "e \<in> set es"
    by (metis find_None_iff find_in not_None_eq)
  then show ?thesis using check_dup_finds[OF assms(1,2), of en] assms(1) by (simp add: discover_device_def walkable_def)
next
  case False
  then have "List.find (\<lambda>e. matches p es en (entry_dev (pd p) e)) es = None" by (simp add: find_None_iff)
  then have "uu_check_dup_device en p = rret 0" using check_dup_finds[OF assms(1,2), of en] by simp
  moreover have "undriven_search en p (pnext p (uhead p)) = Some True"
    using undriven_search_finds[OF assms(3), of en] assms(4) False by (simp add: list_ex_iff)
  ultimately show ?thesis by (simp add: discover_device_def of_option_def)
qed

section \<open>The end of the passes\<close>

text \<open>Without a driver that makes devices no undriven entry is taken.\<close>

lemma offer_refused:
  assumes "\<forall>i<ndrivers (pd p). new (drivers (pd p) i) = None"
  shows "offer_entry new e i p = rret (p, False)"
proof (induction "ndrivers (pd p) - i" arbitrary: i)
  case 0
  then show ?case by (subst offer_entry.simps) simp
next
  case (Suc n)
  have "offer_entry new e (i + 1) p = rret (p, False)" using Suc.hyps by simp
  then show ?case using assms by (subst offer_entry.simps) simp
qed

lemma pick_up_nothing:
  assumes "dll (dlinks (pd p)) a (map tree_node us) (uhead p)" "uhead p \<notin> set (map tree_node us)" "\<forall>i<ndrivers (pd p). new (drivers (pd p) i) = None"
  shows "pick_up sa new (pnext p a) (pnext p (pnext p a)) hit p = rret (p, hit)"
  using assms(1,2)
proof (induction us arbitrary: a)
  case Nil
  then show ?case by (subst pick_up.simps) simp
next
  case (Cons u us)
  then have n: "pnext p a = tree_node u" "tree_node u \<noteq> uhead p" by auto
  have "pick_up sa new (pnext p (tree_node u)) (pnext p (pnext p (tree_node u))) hit p = rret (p, hit)"
    using Cons.prems by (intro Cons.IH) auto
  then show ?case by (subst pick_up.simps) (simp add: n offer_refused[OF assms(3)])
qed

lemma probe_buses_nothing:
  assumes "dll (dlinks (pd p)) a (map dev_node zs) (dhead (pd p))" "set zs \<subseteq> set es" "walkable (pd p) es" "end_word (pd p) = 0"
    and "n = lnext (dlinks (pd p)) a" "\<forall>e\<in>set es. probe (entry_dev (pd p) e) = None"
  shows "probe_buses probe (entry_dev (pd p) (dev_entry n)) (dev_entry n) p = rret p"
  using assms(1,2,5)
proof (induction zs arbitrary: a n)
  case Nil
  then show ?case using assms(4) by (subst probe_buses.simps) simp
next
  case (Cons z zs)
  define m where "m = lnext (dlinks (pd p)) (dev_node z)"
  have z: "entry_dev (pd p) z \<noteq> 0" "uu_index (pd p) = Devlist_Index" "probe (entry_dev (pd p) z) = None"
    using Cons.prems(2) assms(3,6) by (auto simp: walkable_def)
  have n: "n = dev_node z" using Cons.prems by simp
  have "dev_entry m \<noteq> dhead (pd p)"
    using Cons.prems(1,2) assms(3) by (cases zs) (auto simp: m_def walkable_def)
  then have nxt: "dev_next (entry_dev (pd p) z) z (pd p) = rret (entry_dev (pd p) (dev_entry m), dev_entry m)"
    using z by (intro dev_next_step) (simp_all add: m_def)
  have ih: "probe_buses probe (entry_dev (pd p) (dev_entry m)) (dev_entry m) p = rret p"
    using Cons.prems by (intro Cons.IH[of "dev_node z"]) (simp_all add: m_def)
  show ?case unfolding n by (subst probe_buses.simps) (simp add: z nxt ih)
qed

text \<open>
  The device tree of the kernel names no device of the kernel: a search ends after one pass and changes nothing, provided that the word before
  the list head is zero.
\<close>

lemma scan_devtree:
  assumes "walkable (pd p) es" "\<forall>e\<in>set es. dev_name (ddev (pd p) (entry_dev (pd p) e)) \<notin> {''io-mem'', ''io-port'', ''''}"
  shows "scan_tree c sa ea devtree p = rret p"
proof -
  have "bus_named (pd p) es name = 0" if "name \<in> {''io-mem'', ''io-port'', ''''}" for name
  proof -
    have "List.find (\<lambda>e. dev_name (ddev (pd p) (entry_dev (pd p) e)) = name) es = None" using assms(2) that by (auto simp: find_None_iff)
    then show ?thesis by (simp add: bus_named_def)
  qed
  then show ?thesis by (simp add: devtree_def scan_entry_def walkable_from_name[OF assms(1)] of_option_def)
qed

lemma probe_devices_idle:
  assumes "walkable (pd p) es" "end_word (pd p) = 0" "undriven p us"
    and "\<forall>e\<in>set es. dev_name (ddev (pd p) (entry_dev (pd p) e)) \<notin> {''io-mem'', ''io-port'', ''''}"
    and "\<forall>e\<in>set es. probe (entry_dev (pd p) e) = None" "\<forall>i<ndrivers (pd p). new (drivers (pd p) i) = None"
  shows "probe_devices c sa ea devtree probe new p = rret p"
proof -
  have "dll (dlinks (pd p)) (dhead (pd p)) (map dev_node es) (dhead (pd p))" using assms(1) by (simp add: walkable_def dev_list_def list_rep_def)
  from probe_buses_nothing[OF this subset_refl assms(1,2) refl assms(5)]
  have b: "probe_buses probe (entry_dev (pd p) (dev_entry (lnext (dlinks (pd p)) (dhead (pd p))))) (dev_entry (lnext (dlinks (pd p)) (dhead (pd p)))) p = rret p" .
  have "pick_up sa new (pnext p (uhead p)) (pnext p (pnext p (uhead p))) False p = rret (p, False)"
    using assms(3,6) by (intro pick_up_nothing[of p _ us]) (auto simp: undriven_def list_rep_def)
  then have "uu_probe_devices c sa ea devtree probe new p = rret (p, False)"
    using b first_entry[OF assms(1)] by (simp add: uu_probe_devices_def scan_devtree[OF assms(1,4)])
  then show ?thesis by (subst probe_devices.simps) simp
qed

end
