(* ===== verification/Sched.thy ===== *)
theory Sched
  imports Proc
begin

text \<open>
  The scheduler of \<^verbatim>\<open>kern/proc/sched/sched.c\<close> and \<^verbatim>\<open>include/aim/sched.h\<close>: the process list with
  its operations, \<^verbatim>\<open>schedule\<close>, sleeping and waking. The list sentry is the first member of
  \<^verbatim>\<open>struct scheduler\<close> and has the address of the scheduler.
\<close>

section \<open>The process list\<close>

definition sched_list :: "'s sys \<Rightarrow> u32" where "sched_list st = scheduler st"

text \<open>The process is taken from the sentry, not from the first node, and the sentry is unlinked.\<close>

definition pick :: "'s sys \<Rightarrow> 's sys \<times> u32" where
  "pick st =
     (if list_empty (slinks st) (sched_list st) then (st, 0)
      else let p = node_p st (sched_list st)
           in (st\<lparr>slinks := list_del (slinks st) (sched_list st)\<rparr>, p))"

definition add :: "u32 \<Rightarrow> 's sys \<Rightarrow> 's sys \<times> int" where
  "add p st = (st\<lparr>slinks := list_add_tail (slinks st) (sched_node p) (sched_list st)\<rparr>, 0)"

definition remove :: "u32 \<Rightarrow> 's sys \<Rightarrow> 's sys \<times> int" where
  "remove p st = (st\<lparr>slinks := list_del (slinks st) (sched_node p)\<rparr>, 0)"

definition next_proc :: "'s sys \<Rightarrow> u32 \<Rightarrow> u32" where
  "next_proc st p = node_p st (lnext (slinks st) (sched_node p))"

partial_function (option) find_loop :: "'s sys \<Rightarrow> u32 \<Rightarrow> u32 \<Rightarrow> u32 option" where
  "find_loop st n pos =
     (if pos \<noteq> sched_list st
      then if pid (procs st (node_p st pos)) = n then Some (node_p st pos) else find_loop st n (lnext (slinks st) pos)
      else Some 0)"

definition find :: "'s sys \<Rightarrow> u32 \<Rightarrow> u32 \<Rightarrow> u32 option" where
  "find st n ns = find_loop st n (lnext (slinks st) (sched_list st))"

definition sched_init :: "'s simple_allocator \<Rightarrow> 's sys \<Rightarrow> 's sys run" where
  "sched_init sa st =
     (let st = st\<lparr>sched_lock := spinlock_init (sched_lock st)\<rparr>
      in rbind (skmalloc sa 32 st) (\<lambda>(st, s).
         let st = st\<lparr>scheduler := s\<rparr>
         in rret (st\<lparr>slinks := INIT_LIST_HEAD (slinks st) (sched_list st), node_p := (node_p st)(sched_list st := 0)\<rparr>)))"

definition proc_add :: "u32 \<Rightarrow> 's sys \<Rightarrow> 's sys" where "proc_add p st = fst (add p st)"
definition proc_remove :: "u32 \<Rightarrow> 's sys \<Rightarrow> 's sys" where "proc_remove p st = fst (remove p st)"
definition proc_next :: "'s sys \<Rightarrow> u32 \<Rightarrow> u32" where "proc_next st p = next_proc st p"

section \<open>Scheduling\<close>

abbreviation smach :: "'s sys \<Rightarrow> mach" where "smach st \<equiv> umach (ust st)"

definition set_smach :: "mach \<Rightarrow> 's sys \<Rightarrow> 's sys" where
  "set_smach m st = st\<lparr>ust := (ust st)\<lparr>umach := m\<rparr>\<rparr>"

definition sched_enter_critical :: "nat \<Rightarrow> 's sys \<Rightarrow> 's sys run" where
  "sched_enter_critical c st =
     rbind (spin_lock_irq_save c (smach st) (sched_lock st)) (\<lambda>(flags, l).
       rret (st\<lparr>sched_intrflags := flags, sched_lock := l\<rparr>))"

definition sched_exit_critical :: "'s sys \<Rightarrow> 's sys run" where
  "sched_exit_critical st =
     rbind (spin_unlock_irq_restore (sched_intrflags st) (smach st) (sched_lock st)) (\<lambda>(m, l).
       rret (set_smach m (st\<lparr>sched_lock := l\<rparr>)))"

definition uu_update_proc :: "nat \<Rightarrow> u32 \<Rightarrow> 's sys \<Rightarrow> 's sys" where
  "uu_update_proc c p st = set_proc p (\<lambda>q. q\<lparr>state := PS_ONPROC, oncpu := int c\<rparr>) st"

text \<open>The two parts of the body of \<^verbatim>\<open>schedule\<close>: the old process becomes runnable, and the new one runs.\<close>

definition stop_running :: "u32 \<Rightarrow> 's sys \<Rightarrow> 's sys" where
  "stop_running oldproc st =
     (if state (procs st oldproc) = PS_ONPROC then set_proc oldproc (\<lambda>q. q\<lparr>state := PS_RUNNABLE\<rparr>) st else st)"

definition run_picked :: "nat \<Rightarrow> 's sys \<Rightarrow> 's sys" where
  "run_picked c st =
     (let (st, newproc) = pick st;
          newproc = (if newproc = 0 then idleproc st c else newproc);
          st = uu_update_proc c newproc st
      in switch_context c newproc st)"

definition schedule :: "nat \<Rightarrow> 's sys \<Rightarrow> 's sys run" where
  "schedule c st =
     (let oldproc = current_proc st c
      in rbind (sched_enter_critical c st) (\<lambda>st.
         rbind (rassert ((kpid (procs st oldproc) = 0) = (oldproc = idleproc st c))) (\<lambda>_.
         sched_exit_critical (run_picked c (stop_running oldproc st)))))"

text \<open>The lock of the caller is released during the sleep; \<open>lk\<close> is that lock, if any.\<close>

definition sleep_with_lock :: "nat \<Rightarrow> u32 \<Rightarrow> lock option \<Rightarrow> 's sys \<Rightarrow> ('s sys \<times> lock option) run" where
  "sleep_with_lock c b lk st =
     rbind (spin_lock_irq_save c (smach st) (sched_lock st)) (\<lambda>(flags, l).
     let st = st\<lparr>sched_lock := l\<rparr>
     in rbind (case lk of None \<Rightarrow> rret None | Some k \<Rightarrow> rbind (spin_unlock k) (\<lambda>k. rret (Some k))) (\<lambda>lk.
        let st = set_proc (current_proc st c) (\<lambda>q. q\<lparr>bed := b, state := PS_SLEEPING\<rparr>) st;
            st = switch_context c (idleproc st c) st;
            st = set_proc (current_proc st c) (\<lambda>q. q\<lparr>bed := 0\<rparr>) st
        in rbind (spin_unlock_irq_restore flags (smach st) (sched_lock st)) (\<lambda>(m, l).
           let st = set_smach m (st\<lparr>sched_lock := l\<rparr>)
           in rbind (case lk of None \<Rightarrow> rret None | Some k \<Rightarrow> rbind (spin_lock c k) (\<lambda>k. rret (Some k))) (\<lambda>lk.
              rret (st, lk)))))"

definition sleep :: "nat \<Rightarrow> u32 \<Rightarrow> 's sys \<Rightarrow> 's sys run" where
  "sleep c b st = rbind (sleep_with_lock c b None st) (\<lambda>(st, _). rret st)"

partial_function (option) wakeup_loop :: "u32 \<Rightarrow> u32 \<Rightarrow> 's sys \<Rightarrow> 's sys option" where
  "wakeup_loop b p st =
     (if p \<noteq> 0
      then let st = (if bed (procs st p) = b \<and> state (procs st p) = PS_SLEEPING
                     then set_proc p (\<lambda>q. q\<lparr>state := PS_RUNNABLE\<rparr>) st else st)
           in wakeup_loop b (proc_next st p) st
      else Some st)"

definition wakeup :: "nat \<Rightarrow> u32 \<Rightarrow> 's sys \<Rightarrow> 's sys run" where
  "wakeup c b st =
     rbind (spin_lock_irq_save c (smach st) (sched_lock st)) (\<lambda>(flags, l).
     case wakeup_loop b (proc_next st 0) (st\<lparr>sched_lock := l\<rparr>) of
       None \<Rightarrow> None
     | Some st \<Rightarrow>
         rbind (spin_unlock_irq_restore flags (smach st) (sched_lock st)) (\<lambda>(m, l).
           rret (set_smach m (st\<lparr>sched_lock := l\<rparr>))))"

section \<open>Properties\<close>

text \<open>The scheduler has the processes \<open>ps\<close>, and its sentry names no process.\<close>

definition sched_has :: "'s sys \<Rightarrow> u32 list \<Rightarrow> bool" where
  "sched_has st ps \<longleftrightarrow> list_rep (slinks st) (sched_list st) (map sched_node ps) \<and>
     (\<forall>p\<in>set ps. node_p st (sched_node p) = p) \<and> node_p st (sched_list st) = 0"

lemma sched_node_eq [simp]: "sched_node p = sched_node q \<longleftrightarrow> p = q"
  by (simp add: sched_node_def)

lemma sched_init_has:
  assumes "sched_init sa st = rret st'"
  shows "sched_has st' []" "locked (sched_lock st') = 0 \<and> holder_cpu (sched_lock st') = None"
  using assms list_rep_init
  by (auto simp: sched_init_def sched_has_def rbind_eq_ret Let_def sched_list_def skmalloc_def spinlock_init_def)

lemma proc_add_has:
  assumes "sched_has st ps" "sched_node p \<notin> set (sched_list st # map sched_node ps)" "node_p st (sched_node p) = p"
  shows "sched_has (proc_add p st) (ps @ [p])"
  using assms list_rep_add_tail[of "slinks st" "sched_list st" "map sched_node ps" "sched_node p"]
  by (auto simp: sched_has_def proc_add_def add_def sched_list_def)

lemma proc_remove_has:
  assumes "sched_has st (ps @ p # qs)"
  shows "sched_has (proc_remove p st) (ps @ qs)"
  using assms list_rep_del[of "slinks st" "sched_list st" "map sched_node ps" "sched_node p" "map sched_node qs"]
  by (auto simp: sched_has_def proc_remove_def remove_def sched_list_def)

lemma find_loop_dll:
  assumes "dll (slinks st) a (map sched_node ps) (sched_list st)" "sched_list st \<notin> set (map sched_node ps)"
    and "\<And>p. p \<in> set ps \<Longrightarrow> node_p st (sched_node p) = p"
  shows "find_loop st n (lnext (slinks st) a) = Some (case List.find (\<lambda>p. pid (procs st p) = n) ps of None \<Rightarrow> 0 | Some p \<Rightarrow> p)"
  using assms
proof (induction ps arbitrary: a)
  case Nil
  then show ?case by (simp add: find_loop.simps[of st n "sched_list st"])
next
  case (Cons p ps)
  have "find_loop st n (lnext (slinks st) (sched_node p)) =
      Some (case List.find (\<lambda>p. pid (procs st p) = n) ps of None \<Rightarrow> 0 | Some p \<Rightarrow> p)"
    by (rule Cons.IH) (use Cons.prems in auto)
  moreover have "sched_node p \<noteq> sched_list st" "lnext (slinks st) a = sched_node p" using Cons.prems by auto
  ultimately show ?case using Cons.prems(3)[of p] by (simp add: find_loop.simps[of st n "sched_node p"])
qed

lemma find_finds:
  "sched_has st ps \<Longrightarrow> find st n ns = Some (case List.find (\<lambda>p. pid (procs st p) = n) ps of None \<Rightarrow> 0 | Some p \<Rightarrow> p)"
  unfolding find_def by (rule find_loop_dll) (auto simp: sched_has_def list_rep_def)

text \<open>Whatever is in the list, nothing is picked.\<close>

lemma pick_nothing: "node_p st (sched_list st) = 0 \<Longrightarrow> snd (pick st) = 0"
  by (simp add: pick_def Let_def)

lemma pick_frame [simp]: "procs (fst (pick st)) = procs st" "idleproc (fst (pick st)) = idleproc st"
  "sched_lock (fst (pick st)) = sched_lock st" "sched_intrflags (fst (pick st)) = sched_intrflags st"
  "current_proc (fst (pick st)) = current_proc st" "ust (fst (pick st)) = ust st"
  "node_p (fst (pick st)) = node_p st" "sched_list (fst (pick st)) = sched_list st"
  by (simp_all add: pick_def Let_def sched_list_def)

lemma set_proc_frame [simp]: "sched_list (set_proc p f st) = sched_list st" "node_p (set_proc p f st) = node_p st"
  "idleproc (set_proc p f st) = idleproc st" "sched_lock (set_proc p f st) = sched_lock st"
  "procs (set_proc p f st) q = (if q = p then f (procs st p) else procs st q)"
  by (simp_all add: set_proc_def sched_list_def)

lemma set_smach_frame [simp]: "sched_list (set_smach m st) = sched_list st" "node_p (set_smach m st) = node_p st"
  "sched_lock (set_smach m st) = sched_lock st" "procs (set_smach m st) = procs st"
  "current_proc (set_smach m st) = current_proc st" "sched_list (st\<lparr>sched_lock := l\<rparr>) = sched_list st"
  by (simp_all add: set_smach_def sched_list_def)

lemma stop_running_frame [simp]: "node_p (stop_running p st) = node_p st" "sched_list (stop_running p st) = sched_list st"
  "idleproc (stop_running p st) = idleproc st" "sched_lock (stop_running p st) = sched_lock st"
  by (simp_all add: stop_running_def set_proc_def sched_list_def)

lemma switch_context_frame [simp]: "node_p (switch_context c p st) = node_p st"
  "sched_list (switch_context c p st) = sched_list st" "idleproc (switch_context c p st) = idleproc st"
  "sched_lock (switch_context c p st) = sched_lock st" "current_proc (switch_context c p st) = (current_proc st)(c := p)"
  "state (procs (switch_context c p st) q) = state (procs st q)"
  by (simp_all add: switch_context_def set_proc_def sched_list_def Let_def)

lemma run_picked_idle:
  assumes "node_p st (sched_list st) = 0"
  shows "current_proc (run_picked c st) c = idleproc st c" "sched_lock (run_picked c st) = sched_lock st"
    "state (procs (run_picked c st) (idleproc st c)) = PS_ONPROC"
    "node_p (run_picked c st) (sched_list (run_picked c st)) = 0"
  using assms pick_nothing[OF assms]
  by (simp_all add: run_picked_def Let_def case_prod_beta uu_update_proc_def)

lemma schedule_idles:
  assumes "node_p st (sched_list st) = 0" "lock_free (sched_lock st)"
    and "kpid (procs st (current_proc st c)) = 0 \<longleftrightarrow> current_proc st c = idleproc st c"
  shows "\<exists>st'. schedule c st = rret st' \<and> current_proc st' c = idleproc st c \<and> lock_free (sched_lock st') \<and>
    state (procs st' (idleproc st c)) = PS_ONPROC \<and> node_p st' (sched_list st') = 0"
proof -
  define st1 where "st1 = st\<lparr>sched_intrflags := local_irq_save (smach st), sched_lock := (sched_lock st)\<lparr>locked := 1, holder_cpu := Some c\<rparr>\<rparr>"
  have st1: "procs st1 = procs st" "idleproc st1 = idleproc st" "sched_list st1 = sched_list st" "node_p st1 = node_p st"
    "locked (sched_lock st1) = 1" by (simp_all add: st1_def sched_list_def)
  have enter: "sched_enter_critical c st = rret st1"
    using assms(2) by (simp add: sched_enter_critical_def spin_lock_irq_save_def st1_def undisturbed Let_def)
  let ?st = "run_picked c (stop_running (current_proc st c) st1)"
  have run: "schedule c st = sched_exit_critical ?st"
    using assms(3) by (simp add: schedule_def enter st1)
  note r = run_picked_idle[of "stop_running (current_proc st c) st1" c]
  have "locked (sched_lock ?st) = 1" using r(2) assms(1) st1 by simp
  then have "sched_exit_critical ?st = rret (set_smach (local_irq_restore (sched_intrflags ?st) (smach ?st))
      (?st\<lparr>sched_lock := (sched_lock ?st)\<lparr>pcs := (pcs (sched_lock ?st))[0 := 0], holder_cpu := None, locked := 0\<rparr>\<rparr>))"
    by (simp add: sched_exit_critical_def spin_unlock_irq_restore_def undisturbed)
  then show ?thesis unfolding run using r assms(1) st1
    by (auto simp: lock_free_def)
qed

end
