(* ===== verification/Startup.thy ===== *)
theory Startup
  imports Init Probe Sched
begin

text \<open>
  The rest of the start of the kernel: the initialization functions of the device index and of the drivers one after the other
  (\<^verbatim>\<open>do_initcalls\<close>), the start of the other CPUs (\<^verbatim>\<open>startothers\<close> in \<^verbatim>\<open>kern/arch/i386/mp.c\<close>), and
  the sequence of all of it (\<^verbatim>\<open>high_address_entry\<close> in \<^verbatim>\<open>kern/init/early_init.c\<close>).
\<close>

section \<open>The other CPUs\<close>

text \<open>
  \<open>code_start\<close> and \<open>code_size\<close> are those of the image of the entry code, \<open>enter\<close> and \<open>pgdir\<close> the addresses of \<^verbatim>\<open>mpenter\<close> and of
  \<^verbatim>\<open>entrypgdir\<close>. The other CPU is an argument: \<open>ap i\<close> is what CPU \<open>i\<close> does from the start command to the last test of \<^verbatim>\<open>started\<close>.
\<close>

partial_function (option) start_loop :: "nat \<Rightarrow> u32 \<Rightarrow> 's simple_allocator \<Rightarrow> u32 \<Rightarrow> u32 \<Rightarrow> (nat \<Rightarrow> smp \<times> kern \<Rightarrow> (smp \<times> kern) option) \<Rightarrow> nat \<Rightarrow>
    's heap \<times> smp \<times> kern \<Rightarrow> ('s heap \<times> smp \<times> kern) run" where
  "start_loop c ra sa enter pgdir ap i st =
     (case st of (h, x, k) \<Rightarrow>
        if i < ncpu x
        then rbind (cpunum c ra (x, k)) (\<lambda>(me, x, k).
               if i = me then start_loop c ra sa enter pgdir ap (i + 1) (h, x, k)
               else rbind (kmalloc sa 2048 0 h) (\<lambda>(h, stack).
                    let code = P2V 0x7000;
                        m = store32 (mem (km k)) (code - 4) (stack + 2048);
                        m = store32 m (code - 8) enter;
                        m = store32 m (code - 12) (V2P pgdir);
                        k = k\<lparr>km := lapicstartap (lapic x) (apicid (cpus x i)) (V2P code) (km k\<lparr>mem := m\<rparr>)\<rparr>
                    in case ap i (x, k) of
                         None \<Rightarrow> None
                       | Some (x, k) \<Rightarrow>
                           if started (cpus x i) = 0 then None
                           else start_loop c ra sa enter pgdir ap (i + 1) (h, x, k)))
        else rret (h, x, k))"

definition startothers :: "nat \<Rightarrow> u32 \<Rightarrow> 's simple_allocator \<Rightarrow> u32 \<Rightarrow> u32 \<Rightarrow> u32 \<Rightarrow> u32 \<Rightarrow> (nat \<Rightarrow> smp \<times> kern \<Rightarrow> (smp \<times> kern) option) \<Rightarrow>
    's heap \<times> smp \<times> kern \<Rightarrow> ('s heap \<times> smp \<times> kern) run" where
  "startothers c ra sa code_start code_size enter pgdir ap = (\<lambda>(h, x, k).
     let k = k\<lparr>km := km k\<lparr>mem := memcpy (mem (km k)) (P2V 0x7000) code_start code_size\<rparr>\<rparr>
     in start_loop c ra sa enter pgdir ap 0 (h, x, k))"

definition smp_startup :: "nat \<Rightarrow> u32 \<Rightarrow> 's simple_allocator \<Rightarrow> u32 \<Rightarrow> u32 \<Rightarrow> u32 \<Rightarrow> u32 \<Rightarrow> (nat \<Rightarrow> smp \<times> kern \<Rightarrow> (smp \<times> kern) option) \<Rightarrow>
    's heap \<times> smp \<times> kern \<Rightarrow> ('s heap \<times> smp \<times> kern) run" where
  "smp_startup = startothers"

section \<open>The kernel at high addresses\<close>

record image =
  pt_addr :: u32
  kend_addr :: u32
  idt_at :: u32
  entries :: "entry_point \<Rightarrow> u32"
  ra_at :: u32
  code_start :: u32
  code_size :: u32
  mpenter_at :: u32
  entrypgdir_at :: u32

text \<open>
  The arguments are the addresses in the kernel image, those of the page allocator, the initialization functions in the order of their section, the other CPUs, and the configured
  frequency of the timer. The function never returns: the result is the state in which the CPU halts after the last panic.
\<close>

definition high_address_entry :: "nat \<Rightarrow> image \<Rightarrow> u32 \<Rightarrow> u64 \<Rightarrow> int \<Rightarrow> (nat \<Rightarrow> PMB) \<Rightarrow> (nat \<Rightarrow> u32) \<Rightarrow>
    (area simple_allocator \<Rightarrow> (area dsys \<Rightarrow> (area dsys \<times> int) run) list) \<Rightarrow> (nat \<Rightarrow> smp \<times> kern \<Rightarrow> (smp \<times> kern) option) \<Rightarrow> nat \<Rightarrow>
    (nat \<Rightarrow> gatedesc) \<times> smp \<times> area dsys \<times> area sys \<Rightarrow> ((nat \<Rightarrow> gatedesc) \<times> smp \<times> area dsys \<times> area sys) run" where
  "high_address_entry c im kk u num pmb fresh calls ap timer_freq = (\<lambda>(idt, x, d, st).
     rbind (allocator_init (pt_addr im) kk u num pmb (kend_addr im) fresh (dheap d)) (\<lambda>(sa, h).
     rbind (interrupts_init (entries im) (idt_at im) c (idt, x, dkern d)) (\<lambda>(idt, x, k).
     rbind (do_initcalls (calls sa) (d\<lparr>dheap := h, dkern := k\<rparr>)) (\<lambda>(d, _).
     rbind (smp_startup c (ra_at im) sa (code_start im) (code_size im) (mpenter_at im) (entrypgdir_at im) ap (dheap d, x, dkern d)) (\<lambda>(h, x, k).
     let (x, k) = (if \<not> ismp x
                   then let (m, s) = timerinit timer_freq (irqmask x, km k) in (x\<lparr>irqmask := m\<rparr>, k\<lparr>km := s\<rparr>)
                   else (x, k))
     in rbind (sched_init sa (st\<lparr>ust := ust st\<lparr>uheap := h\<rparr>\<rparr>)) (\<lambda>st.
        rbind (panic c (\<lambda>_. 0) (\<lambda>_. []) (''Finished All the Code !'' @ nl) (x, k)) (\<lambda>(x, k).
        rret (idt, x, d\<lparr>dheap := uheap (ust st), dkern := k\<rparr>, st))))))))"

section \<open>All CPUs are started\<close>

lemma console_ready_km: "console_ready port k \<Longrightarrow> devices s = devices (km k) \<Longrightarrow> console_ready port (k\<lparr>km := s\<rparr>)"
  by (auto simp: console_ready_def prints_on_def split: option.splits putchar_fp.splits)

lemma lapicstartap_frame: "devices (lapicstartap l a addr s) = devices s" "mmio (lapicstartap l a addr s) = mmio s"
  by (simp_all add: lapicstartap_def Let_def for_loop_def microdelay_def lapicw_def lapic_read_def mmio_read_def mmio_write_def outb_def log_io_def upt_rec)

text \<open>The machine on which CPU \<open>me\<close> runs: its local APIC has the identifier of this CPU, and no other CPU has it.\<close>

definition runs_on :: "nat \<Rightarrow> smp \<Rightarrow> kern \<Rightarrow> bool" where
  "runs_on me x k \<longleftrightarrow> lapic x \<noteq> 0 \<and> me < ncpu x \<and> (\<forall>j<ncpu x. apicid (cpus x j) = apicid (cpus x me) \<longrightarrow> j = me) \<and>
     (\<forall>t. drop_bit 24 (mmio (km k) t (lapic x + 0x20)) = ucast (apicid (cpus x me)))"

text \<open>The number of the CPU is found also with interrupts on, when the first call prints a warning.\<close>

lemma cpunum_returns:
  assumes "console_ready port k" "runs_on me x k"
  shows "\<exists>n k'. cpunum c ra (x, k) = rret (me, x\<lparr>cpunum_n := n\<rparr>, k') \<and> console_ready port k' \<and> mmio (km k') = mmio (km k)"
proof -
  define off where "off k = k\<lparr>km := (km k)\<lparr>eflags := 0\<rparr>\<rparr>" for k :: kern
  have own: "\<exists>k'. (if lapic x' = 0 then rret (0, x', k1)
      else let (v, s) = lapic_read (lapic x') ID (km k1);
               i = List.find (\<lambda>i. uint (apicid (cpus x' i)) = uint (drop_bit 24 v)) [0..<ncpu x']
           in rret (case i of None \<Rightarrow> 0 | Some i \<Rightarrow> i, x', k1\<lparr>km := s\<rparr>)) = rret (me, x', k') \<and> console_ready port k' \<and> mmio (km k') = mmio (km k)"
    if x': "x' = x\<lparr>cpunum_n := n\<rparr>" and k1: "console_ready port k1" "mmio (km k1) = mmio (km k)" for x' n k1
  proof -
    have "\<exists>t. cpunum c ra (x', off k1) = rret (me, x', (off k1)\<lparr>km := (km (off k1))\<lparr>trace := t\<rparr>\<rparr>)"
      using assms(2) k1(2) by (intro cpunum_finds) (auto simp: runs_on_def off_def x')
    then obtain t where "cpunum c ra (x', off k1) = rret (me, x', (off k1)\<lparr>km := (km (off k1))\<lparr>trace := t\<rparr>\<rparr>)" ..
    then have f: "(case List.find (\<lambda>i. uint (apicid (cpus x' i)) = uint (drop_bit 24 (fst (lapic_read (lapic x') ID (km k1))))) [0..<ncpu x'] of None \<Rightarrow> 0 | Some i \<Rightarrow> i) = me"
      using assms(2) by (simp add: cpunum_def readeflags_def off_def runs_on_def x' lapic_read_def mmio_read_def Let_def log_io_def)
    have "console_ready port (k1\<lparr>km := snd (lapic_read (lapic x') ID (km k1))\<rparr>)"
      using k1(1) by (rule console_ready_km) (simp add: lapic_read_def mmio_read_def log_io_def Let_def)
    then show ?thesis using f k1(2) assms(2) by (simp add: runs_on_def x' split: prod.split) (simp add: lapic_read_def mmio_read_def log_io_def Let_def)
  qed
  have k0: "\<exists>n k1. (if readeflags (km k) AND FL_IF \<noteq> 0
      then rbind (if cpunum_n x = 0 then kprintf c (\<lambda>_. ra) (\<lambda>_. []) (''cpu called from %x with interrupts enabled'' @ nl) k else rret (0, k))
             (\<lambda>(_, k). rret (x\<lparr>cpunum_n := cpunum_n x + 1\<rparr>, k))
      else rret (x, k)) = rret (x\<lparr>cpunum_n := n\<rparr>, k1) \<and> console_ready port k1 \<and> mmio (km k1) = mmio (km k)"
  proof -
    obtain buf n where v: "vsnprintf BUFSIZ (\<lambda>_. ra) (\<lambda>_. []) (''cpu called from %x with interrupts enabled'' @ nl) = Some (buf, n)"
      using kprintf_ready[OF assms(1), of "''cpu called from %x with interrupts enabled'' @ nl" "\<lambda>_. ra" "\<lambda>_. []" c] by (auto simp: nl_def is_digit_def)
    obtain t where "kprintf c (\<lambda>_. ra) (\<lambda>_. []) (''cpu called from %x with interrupts enabled'' @ nl) k =
        rret (int n, k\<lparr>km := (km k)\<lparr>trace := t\<rparr>, con_lock := (con_lock k)\<lparr>pcs := (pcs (con_lock k))[0 := 0]\<rparr>\<rparr>)"
      using assms(1) kprintf_sends[OF _ _ _ v] unfolding console_ready_def by blast
    then show ?thesis using console_ready_printed[OF assms(1)] assms(1) by (auto intro: exI[of _ "cpunum_n x"])
  qed
  then obtain n k1 where k1: "console_ready port k1" "mmio (km k1) = mmio (km k)" and e: "(if readeflags (km k) AND FL_IF \<noteq> 0
      then rbind (if cpunum_n x = 0 then kprintf c (\<lambda>_. ra) (\<lambda>_. []) (''cpu called from %x with interrupts enabled'' @ nl) k else rret (0, k))
             (\<lambda>(_, k). rret (x\<lparr>cpunum_n := cpunum_n x + 1\<rparr>, k))
      else rret (x, k)) = rret (x\<lparr>cpunum_n := n\<rparr>, k1)" by blast
  show ?thesis using own[OF refl k1] unfolding cpunum_def prod.case e rbind_simps by blast
qed

text \<open>What a CPU that is started has to do: report that it is up, and leave the tables and the console as they are.\<close>

definition reports :: "u16 \<Rightarrow> (nat \<Rightarrow> smp \<times> kern \<Rightarrow> (smp \<times> kern) option) \<Rightarrow> bool" where
  "reports port ap \<longleftrightarrow> (\<forall>i x k. console_ready port k \<longrightarrow> (\<exists>x' k'. ap i (x, k) = Some (x', k') \<and> console_ready port k' \<and> mmio (km k') = mmio (km k) \<and>
     ncpu x' = ncpu x \<and> lapic x' = lapic x \<and> (\<forall>j. apicid (cpus x' j) = apicid (cpus x j)) \<and> started (cpus x' i) \<noteq> 0 \<and>
     (\<forall>j. started (cpus x j) \<noteq> 0 \<longrightarrow> started (cpus x' j) \<noteq> 0)))"

lemma start_loop_starts:
  assumes "reports port ap" "\<And>h. \<exists>h' p. kmalloc sa 2048 0 h = rret (h', p)" "console_ready port k" "runs_on me x k"
  shows "\<exists>h' x' k'. start_loop c ra sa enter pgdir ap i (h, x, k) = rret (h', x', k') \<and> console_ready port k' \<and> ncpu x' = ncpu x \<and>
    (\<forall>j. started (cpus x j) \<noteq> 0 \<longrightarrow> started (cpus x' j) \<noteq> 0) \<and> (\<forall>j. i \<le> j \<longrightarrow> j < ncpu x \<longrightarrow> j \<noteq> me \<longrightarrow> started (cpus x' j) \<noteq> 0)"
  using assms(3,4)
proof (induction "ncpu x - i" arbitrary: i h x k)
  case 0
  then show ?case by (subst start_loop.simps) simp
next
  case (Suc m)
  obtain n k1 where c: "cpunum c ra (x, k) = rret (me, x\<lparr>cpunum_n := n\<rparr>, k1)" "console_ready port k1" "mmio (km k1) = mmio (km k)"
    using cpunum_returns[OF Suc.prems] by blast
  let ?x1 = "x\<lparr>cpunum_n := n\<rparr>"
  have run1: "runs_on me ?x1 k1" using Suc.prems(2) c(3) by (simp add: runs_on_def)
  have i: "i < ncpu x" using Suc.hyps(2) by simp
  show ?case
  proof (cases "i = me")
    case True
    have "start_loop c ra sa enter pgdir ap i (h, x, k) = start_loop c ra sa enter pgdir ap (i + 1) (h, ?x1, k1)"
      using i c(1) True by (subst start_loop.simps) simp
    moreover have "m = ncpu ?x1 - (i + 1)" using Suc.hyps(2) by simp
    note Suc.hyps(1)[OF this c(2) run1, of h]
    ultimately show ?thesis using True by (auto simp: Suc_le_eq)
  next
    case False
    obtain h' stack where h': "kmalloc sa 2048 0 h = rret (h', stack)" using assms(2) by blast
    define k2 where "k2 = k1\<lparr>km := lapicstartap (lapic x) (apicid (cpus x i)) 0x7000 (km k1\<lparr>mem :=
      store32 (store32 (store32 (mem (km k1)) (P2V 0x7000 - 4) (stack + 2048)) (P2V 0x7000 - 8) enter) (P2V 0x7000 - 12) (V2P pgdir)\<rparr>)\<rparr>"
    have k2: "console_ready port k2" "mmio (km k2) = mmio (km k1)"
      unfolding k2_def using c(2) by (auto intro!: console_ready_km simp: lapicstartap_frame)
    obtain x3 k3 where a: "ap i (?x1, k2) = Some (x3, k3)" "console_ready port k3" "mmio (km k3) = mmio (km k2)" "ncpu x3 = ncpu x" "lapic x3 = lapic x"
      "\<forall>j. apicid (cpus x3 j) = apicid (cpus x j)" "started (cpus x3 i) \<noteq> 0" "\<forall>j. started (cpus x j) \<noteq> 0 \<longrightarrow> started (cpus x3 j) \<noteq> 0"
      using assms(1)[unfolded reports_def, rule_format, OF k2(1), of i ?x1] by auto
    have run3: "runs_on me x3 k3" using run1 a k2(2) by (simp add: runs_on_def)
    have "start_loop c ra sa enter pgdir ap i (h, x, k) = start_loop c ra sa enter pgdir ap (i + 1) (h', x3, k3)"
      using i c(1) h' a(1,7) False by (subst start_loop.simps) (simp add: k2_def[symmetric] Let_def)
    moreover have "m = ncpu x3 - (i + 1)" using Suc.hyps(2) a(4) by simp
    note ih = Suc.hyps(1)[OF this a(2) run3, of h']
    ultimately obtain h4 x4 k4 where r: "start_loop c ra sa enter pgdir ap i (h, x, k) = rret (h4, x4, k4)" "console_ready port k4" "ncpu x4 = ncpu x"
      "\<forall>j. started (cpus x3 j) \<noteq> 0 \<longrightarrow> started (cpus x4 j) \<noteq> 0" "\<forall>j. i + 1 \<le> j \<longrightarrow> j < ncpu x \<longrightarrow> j \<noteq> me \<longrightarrow> started (cpus x4 j) \<noteq> 0"
      using a(4) by auto
    have "started (cpus x4 j) \<noteq> 0" if "i \<le> j" "j < ncpu x" "j \<noteq> me" for j
      using that r(4,5) a(7) by (cases "j = i") auto
    then show ?thesis using r a(8) by blast
  qed
qed

lemma startothers_starts:
  assumes "reports port ap" "\<And>h. \<exists>h' p. kmalloc sa 2048 0 h = rret (h', p)" "console_ready port k" "runs_on me x k"
  shows "\<exists>h' x' k'. startothers c ra sa cs sz enter pgdir ap (h, x, k) = rret (h', x', k') \<and> console_ready port k' \<and> ncpu x' = ncpu x \<and>
    (\<forall>j<ncpu x. j \<noteq> me \<longrightarrow> started (cpus x' j) \<noteq> 0)"
proof -
  define k0 where "k0 = k\<lparr>km := km k\<lparr>mem := memcpy (mem (km k)) (P2V 0x7000) cs sz\<rparr>\<rparr>"
  have "console_ready port k0" unfolding k0_def by (rule console_ready_km[OF assms(3)]) simp
  moreover have "runs_on me x k0" using assms(4) by (simp add: runs_on_def k0_def)
  ultimately show ?thesis using start_loop_starts[OF assms(1,2), of k0 me x c ra enter pgdir 0 h]
    by (auto simp: startothers_def k0_def[symmetric])
qed

section \<open>The drivers of the kernel are started\<close>

text \<open>The initialization functions of the kernel, in the order of their stages.\<close>

definition kernel_initcalls :: "nat \<Rightarrow> 's simple_allocator \<Rightarrow> u32 \<Rightarrow> u32 \<Rightarrow> u32 \<Rightarrow> ('s dsys \<Rightarrow> ('s dsys \<times> int) run) list" where
  "kernel_initcalls c sa memd portd uartd = [devlist_init c, mem_driver_init sa memd, port_driver_init sa portd, uart_driver_init sa uartd]"

definition bus_device_of :: "driver \<Rightarrow> char list \<Rightarrow> device" where
  "bus_device_of drv name = zero_device\<lparr>devno := NODEV, dev_class := DEVCLASS_BUS, dev_name := name,
     get_read_fp := drv_get_read_fp drv, get_write_fp := drv_get_write_fp drv\<rparr>"

definition bus_start :: "'s simple_allocator \<Rightarrow> u32 \<Rightarrow> char list \<Rightarrow> 's dsys \<Rightarrow> ('s dsys \<times> int) run" where
  "bus_start sa drv name d =
     rbind (new_device sa sizeof_bus_device (register_driver NOMAJOR drv d)) (\<lambda>(d, bus).
     rbind (initdev bus DEVCLASS_BUS name NODEV drv d) (\<lambda>d.
     rbind (dev_add sa bus d) (\<lambda>(d, _). rret (d, 0))))"

lemma bus_driver_inits: "mem_driver_init sa drv = bus_start sa drv ''memory''" "port_driver_init sa drv = bus_start sa drv ''portio''"
  by (simp_all add: fun_eq_iff mem_driver_init_def port_driver_init_def bus_start_def Let_def)

text \<open>A bus is put at the end of the list: its number is the greatest one.\<close>

lemma bus_start_adds:
  assumes "uu_index d = Devlist_Index" "dev_list d es" "drv_class (drvs d drv) = DEVCLASS_BUS" "length name \<le> DEV_NAME_MAX"
    and "kmalloc sa sizeof_bus_device GFP_ZERO (dheap d) = rret (h, b)"
    and "kmalloc sa sizeof_device_entry 0 h = rret (h', this)" "this \<noteq> 0" "dev_node this \<notin> set (dhead d # map dev_node es)"
  shows "\<exists>d'. bus_start sa drv name d = rret (d', 0) \<and> uu_index d' = Devlist_Index \<and> dev_list d' (es @ [this]) \<and> dhead d' = dhead d \<and>
    dheap d' = h' \<and> drvs d' = drvs d \<and> entry_dev d' = (entry_dev d)(this := b) \<and> km (dkern d') = km (dkern d) \<and>
    devs (dkern d') = (devs (dkern d))(b := bus_device_of (drvs d drv) name)"
proof -
  define d1 where "d1 = set_ddev b (\<lambda>_. bus_device_of (drvs d drv) name) (register_driver NOMAJOR drv d\<lparr>dheap := h\<rparr>)"
  have new: "new_device sa sizeof_bus_device (register_driver NOMAJOR drv d) = rret (set_ddev b (\<lambda>_. zero_device) (register_driver NOMAJOR drv d\<lparr>dheap := h\<rparr>), b)"
    using assms(5) by (simp add: new_device_def dkmalloc_def register_driver_def Let_def)
  have i: "initdev b DEVCLASS_BUS name NODEV drv (set_ddev b (\<lambda>_. zero_device) (register_driver NOMAJOR drv d\<lparr>dheap := h\<rparr>)) = rret d1"
    using assms(3,4) by (simp add: initdev_def d1_def set_ddev_def set_dev_def register_driver_def bus_device_of_def zero_device_def Let_def
        DEVCLASS_BUS_def DEVCLASS_CHR_def DEVCLASS_BLK_def DEVCLASS_NET_def DEVCLASS_NON_def)
  have d1: "uu_index d1 = Devlist_Index" "dev_list d1 es" "dheap d1 = h" "dhead d1 = dhead d" "entry_dev d1 = entry_dev d" "drvs d1 = drvs d"
    "km (dkern d1) = km (dkern d)" "devs (dkern d1) = (devs (dkern d))(b := bus_device_of (drvs d drv) name)"
    using assms(1,2) by (simp_all add: d1_def set_ddev_def register_driver_def dev_list_def Let_def)
  have "devno (ddev d1 b) = - 1" by (simp add: d1(8) bus_device_of_def NODEV_def)
  then have all: "entry_no d1 e \<le> devno (ddev d1 b)" for e by simp
  have tw: "es = takeWhile (\<lambda>e. entry_no d1 e \<le> devno (ddev d1 b)) es" "[] = dropWhile (\<lambda>e. entry_no d1 e \<le> devno (ddev d1 b)) es"
    using all takeWhile_eq_all_conv[of "\<lambda>e. entry_no d1 e \<le> devno (ddev d1 b)" es] dropWhile_eq_Nil_conv[of "\<lambda>e. entry_no d1 e \<le> devno (ddev d1 b)" es] by metis+
  have "\<exists>d'. devlist_add sa b d1 = rret (d', 0) \<and> dev_list d' (es @ [this]) \<and> dkern d' = dkern d1 \<and>
    entry_dev d' = (entry_dev d1)(this := b) \<and> uu_index d' = uu_index d1 \<and> dhead d' = dhead d1 \<and> dheap d' = h' \<and> drvs d' = drvs d1"
    by (rule devlist_add_inserts[OF d1(2) _ assms(7) _ tw]) (use assms(6,8) d1(3,4) in simp_all)
  then show ?thesis using d1 by (auto simp: bus_start_def new i dev_add_def)
qed

text \<open>An allocator that answers a sequence of requests.\<close>

fun gives :: "'s simple_allocator \<Rightarrow> (u32 \<times> u32) list \<Rightarrow> 's heap \<Rightarrow> u32 list \<Rightarrow> bool" where
  "gives sa ((sz, flags) # rs) h (p # ps) \<longleftrightarrow> (\<exists>h'. kmalloc sa sz flags h = rret (h', p) \<and> gives sa rs h' ps)"
| "gives sa [] h [] \<longleftrightarrow> True"
| "gives sa _ h _ \<longleftrightarrow> False"

definition driver_requests :: "(u32 \<times> u32) list" where
  "driver_requests = [(sizeof_bus_device, GFP_ZERO), (sizeof_device_entry, 0), (sizeof_bus_device, GFP_ZERO), (sizeof_device_entry, 0),
     (sizeof_chr_device, GFP_ZERO), (sizeof_device_entry, 0)]"

lemma devlist_init_ready:
  assumes "console_ready port (dkern d)"
  shows "\<exists>k. devlist_init c d = rret (d\<lparr>dkern := k, uu_index := Devlist_Index\<rparr>, 0) \<and> console_ready port k"
proof -
  obtain k1 where k1: "kputs c (''KERN: <devlist> initializing.'' @ [CHR 0x0A, CHR 0x00]) (dkern d) = rret (0, k1)" "console_ready port k1"
    using kputs_ready[OF assms, of "''KERN: <devlist> initializing.'' @ [CHR 0x0A, CHR 0x00]" c] by auto
  obtain k2 where k2: "kputs c (''KERN: <devlist> Done.'' @ [CHR 0x0A, CHR 0x00]) k1 = rret (0, k2)" "console_ready port k2"
    using kputs_ready[OF k1(2), of "''KERN: <devlist> Done.'' @ [CHR 0x0A, CHR 0x00]" c] by auto
  show ?thesis using k1(1) k2 unfolding devlist_init_def by (intro exI[of _ k2]) (simp add: set_device_index_def Let_def)
qed

lemma drivers_started:
  assumes "console_ready 0x3f8 (dkern d)" "dev_list d []" "drvs d memd = mem_drv" "drvs d portd = port_drv" "drvs d uartd = uart_drv"
    and "gives sa driver_requests (dheap d) [mb, me, pb, pe, ub, ue]" "distinct [0, mb, pb, ub]" "distinct [0, me, pe, ue]"
    and "dhead d \<notin> dev_node ` {me, pe, ue}"
  shows "\<exists>d'. do_initcalls (kernel_initcalls c sa memd portd uartd) d = rret (d', 0) \<and> console_ready 0x3f8 (dkern d') \<and> my_device (dkern d') = ub \<and>
    uu_putchar (dkern d') = Some Console_Putchar"
proof -
  obtain k where k: "devlist_init c d = rret (d\<lparr>dkern := k, uu_index := Devlist_Index\<rparr>, 0)" "console_ready 0x3f8 k"
    using devlist_init_ready[OF assms(1)] by blast
  define d0 where "d0 = d\<lparr>dkern := k, uu_index := Devlist_Index\<rparr>"
  have d0: "uu_index d0 = Devlist_Index" "dev_list d0 []" "drvs d0 = drvs d" "dheap d0 = dheap d" "dhead d0 = dhead d" "dkern d0 = k"
    using assms(2) by (simp_all add: d0_def dev_list_def)
  obtain h1 h2 h3 h4 h5 h6 where h: "kmalloc sa sizeof_bus_device GFP_ZERO (dheap d) = rret (h1, mb)" "kmalloc sa sizeof_device_entry 0 h1 = rret (h2, me)"
    "kmalloc sa sizeof_bus_device GFP_ZERO h2 = rret (h3, pb)" "kmalloc sa sizeof_device_entry 0 h3 = rret (h4, pe)"
    "kmalloc sa sizeof_chr_device GFP_ZERO h4 = rret (h5, ub)" "kmalloc sa sizeof_device_entry 0 h5 = rret (h6, ue)"
    using assms(6) by (auto simp: driver_requests_def)
  obtain d1 where d1: "mem_driver_init sa memd d0 = rret (d1, 0)" "uu_index d1 = Devlist_Index" "dev_list d1 [me]" "dhead d1 = dhead d"
    "dheap d1 = h2" "drvs d1 = drvs d" "entry_dev d1 = (entry_dev d0)(me := mb)" "km (dkern d1) = km k"
    "devs (dkern d1) = (devs k)(mb := bus_device_of mem_drv ''memory'')"
    using bus_start_adds[OF d0(1,2), of memd "''memory''" sa h1 mb h2 me] assms(3,8,9) h(1,2) d0
    by (auto simp: bus_driver_inits mem_drv_def DEV_NAME_MAX_def)
  obtain d2 where d2: "port_driver_init sa portd d1 = rret (d2, 0)" "uu_index d2 = Devlist_Index" "dev_list d2 [me, pe]" "dhead d2 = dhead d"
    "dheap d2 = h4" "drvs d2 = drvs d" "entry_dev d2 = (entry_dev d1)(pe := pb)" "km (dkern d2) = km k"
    "devs (dkern d2) = (devs (dkern d1))(pb := bus_device_of port_drv ''portio'')"
    using bus_start_adds[OF d1(2,3), of portd "''portio''" sa h3 pb h4 pe] assms(4,8,9) h(3,4) d1
    by (auto simp: bus_driver_inits port_drv_def DEV_NAME_MAX_def)
  have e2: "entry_dev d2 me = mb" "entry_dev d2 pe = pb" "ddev d2 mb = bus_device_of mem_drv ''memory''" "ddev d2 pb = bus_device_of port_drv ''portio''"
    using assms(7,8) d1(7,9) d2(7,9) by auto
  have "dev_from_name ''portio'' d2 = Some pb"
    using devlist_lookup(2)[OF d2(3)] d2(2) e2 by (simp add: dev_from_name_def bus_device_of_def)
  then have "has_portio d2 [me, pe] pb"
    using d2(2,3) e2 by (simp add: has_portio_def bus_device_of_def zero_device_def port_drv_def)
  then have "\<exists>d'. uart_driver_init sa uartd d2 = rret (d', 0) \<and> console_ready 0x3f8 (dkern d') \<and> my_device (dkern d') = ub \<and>
      uu_putchar (dkern d') = Some Console_Putchar"
    by (rule uart_driver_init_console) (use k(2) assms(5,7-9) h(5,6) d2 e2 in \<open>auto simp: console_ready_def prints_on_def\<close>)
  then show ?thesis using k(1) d1(1) d2(1) by (auto simp: kernel_initcalls_def d0_def[symmetric])
qed

end
