(* ===== verification/Spec2Isabelle.thy ===== *)
theory Spec2Isabelle
  imports Popcount Bitmap_Shift Handlers EarlyKmmap Snprintf Boot Startup
begin

text \<open>
  A verification library for the AIM teaching kernel, in the configuration that its build scripts make for i386: 32-bit words and pointers,
  kernel base \<^verbatim>\<open>0x80000000\<close>, at most 8 CPUs, root buses for memory and ports, a serial console, no debug output.

  \<^bold>\<open>The program and its parts.\<close> The boot loader (\<^verbatim>\<open>boot/bootmain.c\<close>) reads the kernel image from the disk and jumps to it.
  \<^verbatim>\<open>master_early_init\<close> clears memory, sets up the early buses and the console and prints its first line; \<^verbatim>\<open>arch_early_init\<close> turns on the boot page table;
  \<^verbatim>\<open>high_address_entry\<close> sets up the page allocator and the heap, the interrupt controllers, the descriptor table, the drivers and the other CPUs, and the
  scheduler. Below these lie the allocators (buddies, pages, heap), the page tables, the user memory and the processes, and at the bottom lists,
  bitmaps, bit operations, string functions and locks.

  \<^bold>\<open>Conventions.\<close> A definition has the name of the C function; a leading \<^verbatim>\<open>__\<close> is written \<open>uu_\<close>, and the static functions of \<^verbatim>\<open>devlist.c\<close> begin with
  \<open>devlist_\<close>. Fixed-width integers are words that wrap, the state of a component is a record that is passed explicitly, structures are maps from their
  addresses to their members, and linked lists are maps of links. A panic is the value \<open>Panic\<close> of type \<open>outcome\<close>, and a call of type \<open>run\<close> that does not return is
  \<open>None\<close>. A function pointer is a value of a datatype with one constructor for each function that is stored in it, or a function argument. Hardware is a
  machine with memory, registers and a trace of its accesses to ports and device registers; what a device answers is a function of this trace and never fixed.

  \<^bold>\<open>Which theory models what.\<close>
  \<^item> \<open>AIM_Prelude\<close>: word types, outcomes, runs and counting loops, with the lemmas all theories share.
  \<^item> \<open>Bitops\<close>, \<open>Popcount\<close>: \<^verbatim>\<open>include/bitops.h\<close>; the bit searches and parallel counts equal their specifications on sets of bits.
  \<^item> \<open>Util\<close>: \<^verbatim>\<open>include/util.h\<close> and the device numbers of \<^verbatim>\<open>include/sys/types.h\<close>; rounding, ranges and round trips.
  \<^item> \<open>Bitmap\<close> (definitions), \<open>Bitmap_Set\<close>, \<open>Bitmap_Ops\<close>, \<open>Bitmap_Search\<close>, \<open>Bitmap_Shift\<close>: \<^verbatim>\<open>include/bitmap.h\<close> and \<^verbatim>\<open>kern/lib/libbitmap\<close>; every operation as one on
    sets of positions.
  \<^item> \<open>ListH\<close>: \<^verbatim>\<open>include/list.h\<close>; the links represent a sequence, and every operation acts on it (locale \<open>node_list\<close>).
  \<^item> \<open>Libc\<close>: \<^verbatim>\<open>lib/libc/mem*.c\<close>, \<^verbatim>\<open>strcmp.c\<close>, \<^verbatim>\<open>strlcpy.c\<close>; \<open>Snprintf\<close>: \<^verbatim>\<open>lib/libc/snprintf.c\<close>. The word-wise copies equal
    byte-wise ones, and formatting terminates and is cut to the buffer.
  \<^item> \<open>Cpu\<close>: \<^verbatim>\<open>include/arch/i386/asm.h\<close>; \<open>MmuH\<close>: the headers of the MMU; \<open>Sync\<close>: \<^verbatim>\<open>arch-sync.h\<close>, \<^verbatim>\<open>sync.h\<close>, \<^verbatim>\<open>atomic.h\<close>, with the step
    relation \<open>sync_step\<close> of any number of CPUs on a lock, its invariant and its progress.
  \<^item> \<open>Buddy\<close> (definitions), \<open>Buddy_Tree\<close>, \<open>Buddy_Wf\<close>, \<open>Buddy_Search\<close>, \<open>Buddy_Correct\<close>: the binary buddies of \<^verbatim>\<open>kern/mm/pmm/page_alloc.c\<close>; the array is a tree, the
    iterative search is the recursive one, and allocation and release keep the tree well formed (locales \<open>block_source\<close>, \<open>block_allocator\<close>).
  \<^item> \<open>PageAlloc\<close>, \<open>Pmm\<close>: the rest of \<^verbatim>\<open>page_alloc.c\<close> and \<^verbatim>\<open>pmm.c\<close>; blocks of pages in an area (locales \<open>page_provider\<close>, \<open>frame_provider\<close>).
  \<^item> \<open>ArchMmu\<close>: \<^verbatim>\<open>kern/arch/i386/arch_mmu.c\<close>; what is mapped before and after each operation on page tables.
  \<^item> \<open>SimpleAlloc\<close>, \<open>Vmm\<close>: \<^verbatim>\<open>simple_alloc.c\<close>, \<^verbatim>\<open>vmm.c\<close>; the free lists of the size classes.
  \<^item> \<open>Handlers\<close>, \<open>EarlyKmmap\<close>: \<^verbatim>\<open>mmu.c\<close>, \<^verbatim>\<open>jump.c\<close> (locale \<open>bounded_queue\<close>) and \<^verbatim>\<open>early_kmmap.c\<close>.
  \<^item> \<open>Uvm\<close>: \<^verbatim>\<open>kern/mm/uvm.c\<close>; \<open>Proc\<close>: \<^verbatim>\<open>proc.c\<close> and its companions; \<open>Sched\<close>: \<^verbatim>\<open>sched.c\<close>.
  \<^item> \<open>Boot\<close>: \<^verbatim>\<open>boot/bootmain.c\<close>, with a disk controller that answers sector reads.
  \<^item> \<open>DeviceH\<close>, \<open>Bus\<close>, \<open>Uart\<close>, \<open>Console\<close>: \<^verbatim>\<open>device.h\<close>, \<^verbatim>\<open>io-mem.c\<close>, \<^verbatim>\<open>io-port.c\<close>, \<^verbatim>\<open>uart-ns16550.c\<close>, \<^verbatim>\<open>console.c\<close>; what reaches the serial port
    (locale \<open>char_sink\<close>).
  \<^item> \<open>Irqchip\<close>, \<open>Percpu\<close>, \<open>Trap\<close>, \<open>Mp\<close>: the interrupt controllers and the timer, the data of a CPU, the descriptor table and its dispatch with
    panics, and the tables of the firmware.
  \<^item> \<open>Devlist\<close>, \<open>Probe\<close>: the device index, the drivers and the search for devices; \<open>Init\<close>, \<open>Startup\<close>: how the kernel starts.

  \<^bold>\<open>What the theorems of this theory show.\<close> The allocators hand out disjoint blocks of the requested size, fail only when they have to, and take blocks back; the
  page tables map what they are asked to and nothing else; a lock is held by one CPU at a time, and a waiting CPU can get it; the lists, bitmaps and the device index refine
  sequences, sets and sorted lists; loops end; the boot loader loads the image; the kernel prints, starts its drivers, reads the tables of the firmware, and each
  interrupt does what its vector says. Some theorems state what the code does where this is not what it means to do: pages are never freed,
  the scheduler never runs a process, early allocations share memory, and copies to user memory lose the offset in a page. The sections follow the layers from the page
  blocks upwards; each theorem with hypotheses is followed by an instance on concrete data.

  \<^bold>\<open>Bounds and fuel.\<close> The search of \<^verbatim>\<open>buddy_alloc\<close> takes fuel; twice the pages of the buddy, the number of the nodes of its tree, is enough, and is what
  \<open>buddy_get\<close> and \<open>page_alloc\<close> use. The walks of \<open>ListH\<close> take fuel as well, and one more than the length of the list is enough. Every other loop is structural, has a
  termination proof, or is a partial function whose value \<open>None\<close> means that it does not return; where the text says that it returns, this is proved.
  Other CPUs and devices are arguments, restricted only by named hypotheses: a serial port becomes ready, a local APIC has the number of its CPU, a started CPU reports.

  \<^bold>\<open>Not modelled.\<close> The ports to ARM and MIPS, whose functions are empty or copies; assembly code except the numbers that the interrupt entries push and the register switch, because
  it changes the mode of the processor or the layout of the stack; linker scripts and the build; \<^verbatim>\<open>do_early_initcalls\<close>, which jumps into data; \<^verbatim>\<open>bitmap_empty\<close>, which calls
  a function that does not exist; \<^verbatim>\<open>initproc_entry\<close>, an empty loop; and the test functions of \<^verbatim>\<open>early_init.c\<close>, which nothing calls. The heap, the device memory and the
  kernel data are separate parts of the state in the models of the drivers: that they do not overlap in memory is an assumption of these models.
\<close>

section \<open>Page blocks\<close>

definition sample_buddy :: buddy where
  "sample_buddy = buddy_init \<lparr>blevel = 0, baseAddr = 0, tree = (\<lambda>_. 0)\<rparr> 3"

lemma sample_buddy_wf:
  "blevel sample_buddy = 3" "wf_tree (tree sample_buddy) 3" "allocated (tree sample_buddy) = {}"
  "buddy_wf sample_buddy"
  using buddy_init_empty[of _ 3] by (simp_all add: sample_buddy_def buddy_wf_def)

text \<open>
  C1: On a well-formed tree, with fuel for twice the pages of the buddy,
  \<^verbatim>\<open>buddy_alloc\<close> returns. It answers -2 only for a request that is rounded up beyond the
  whole buddy, and -1 only if every aligned block of the rounded size meets an allocated
  one; in both cases nothing changes. Otherwise it returns the first page of an
  aligned block of the rounded size, which was not allocated, becomes allocated, is disjoint
  from all the other allocated blocks and leaves a well-formed tree.
\<close>

theorem buddy_alloc_correct:
  assumes "wf_tree (tree b) (blevel b)" "0 \<le> s" "s \<le> 2 ^ 30" "2 * 2 ^ blevel b \<le> fuel"
  shows "\<exists>b' r. buddy_alloc fuel b s = Some (b', r) \<and>
    (r = -2 \<and> b' = b \<and> 2 ^ blevel b < alloc_size s \<or>
     r = -1 \<and> b' = b \<and> (\<exists>k. alloc_size s = 2 ^ k \<and>
       (\<forall>y>0. dep y + k = blevel b \<longrightarrow>
         (\<exists>a\<in>allocated (tree b). pages_of (blevel b) a \<inter> pages_of (blevel b) y \<noteq> {}))) \<or>
     (\<exists>m. r = int (lo (blevel b) m) \<and> 2 ^ (blevel b - dep m) = alloc_size s \<and> s \<le> alloc_size s \<and>
       m \<notin> allocated (tree b) \<and> allocated (tree b') = insert m (allocated (tree b)) \<and>
       (\<forall>a\<in>allocated (tree b). pages_of (blevel b) a \<inter> pages_of (blevel b) m = {}) \<and>
       wf_tree (tree b') (blevel b) \<and> blevel b' = blevel b))"
  using assms
proof (cases rule: buddy_alloc_cases)
  case (No_Block k)
  then have "\<forall>y>0. dep y + k = blevel b \<longrightarrow>
      (\<exists>a\<in>allocated (tree b). pages_of (blevel b) a \<inter> pages_of (blevel b) y \<noteq> {})"
    by (metis add_diff_cancel_right')
  then show ?thesis using No_Block by blast
next
  case (Block k m t)
  obtain k' where "alloc_size s = 2 ^ k'" "s \<le> 2 ^ k'" using alloc_size_pow assms(2,3) by metis
  then have "s \<le> alloc_size s" by simp
  moreover have "2 ^ (blevel b - dep m) = alloc_size s" using Block by simp
  moreover have "\<forall>a\<in>allocated (tree b). pages_of (blevel b) a \<inter> pages_of (blevel b) m = {}"
    using allocated_disjoint[OF Block(4)] Block(5,6) by (metis insertCI)
  ultimately show ?thesis using Block by (intro exI[of _ "b\<lparr>tree := t\<rparr>"] exI[of _ "int (lo (blevel b) m)"]) auto
qed auto

theorem buddy_alloc_correct_witness:
  "\<exists>b' r. buddy_alloc 16 sample_buddy 3 = Some (b', r) \<and> (r = -2 \<or> r = -1 \<or>
     (\<exists>m. r = int (lo 3 m) \<and> allocated (tree b') = {m} \<and> wf_tree (tree b') 3))"
  using buddy_alloc_correct[of sample_buddy 3 16] by (fastforce simp: sample_buddy_wf)

text \<open>
  C9: Given a page of the buddy, \<^verbatim>\<open>buddy_size\<close> and \<^verbatim>\<open>buddy_free\<close> return. For a page of an
  allocated block the size of the block is returned; freeing succeeds exactly for the
  first page of the block, takes this block and no other from the allocated ones, and
  keeps the tree well formed; for any other page of the block, and for a page of no
  block, freeing panics, and the size of the latter is \<^verbatim>\<open>EOF\<close>.
\<close>

theorem buddy_free_correct:
  assumes "wf_tree (tree b) (blevel b)" "x < 2 ^ blevel b"
  shows "(\<exists>a\<in>allocated (tree b). x \<in> pages_of (blevel b) a \<and>
            buddy_size b (int x) = Some (2 ^ (blevel b - dep a)) \<and>
            (if x = lo (blevel b) a
             then \<exists>b'. buddy_free b (int x) = Some (Done b') \<and> wf_tree (tree b') (blevel b) \<and>
                       blevel b' = blevel b \<and> allocated (tree b') = allocated (tree b) - {a}
             else buddy_free b (int x) = Some Panic)) \<or>
         x \<notin> (\<Union>a\<in>allocated (tree b). pages_of (blevel b) a) \<and>
           buddy_size b (int x) = Some EOF \<and> buddy_free b (int x) = Some Panic"
  using assms
proof (cases rule: buddy_page_cases)
  case (In_Block a)
  then show ?thesis by (intro disjI1 bexI[of _ a]) auto
qed auto

theorem buddy_free_correct_witness: "buddy_free sample_buddy 5 = Some Panic \<and> buddy_size sample_buddy 5 = Some EOF"
  using buddy_free_correct[of sample_buddy 5] by (simp add: sample_buddy_wf)

text \<open>
  C10: Releasing the block that an allocation returned gives back the allocated blocks of
  before the allocation.
\<close>

theorem buddy_alloc_free:
  assumes "buddy_wf b" "buddy_get b n = Some (b', p)"
  shows "\<exists>b''. buddy_put b' p = Some b'' \<and> buddy_wf b'' \<and> buddy_blocks b'' = buddy_blocks b"
  using bd.alloc_release[OF assms] by blast

lemma alloc_loop_numeral:
  "alloc_loop (numeral n) max_level sz (t, index, level, len) =
     (if index < 0 then Some (t, -1)
      else case alloc_pass max_level sz (t, index, level, len) of
             Inl r \<Rightarrow> Some r
           | Inr st \<Rightarrow> alloc_loop (pred_numeral n) max_level sz st)"
  by (simp only: numeral_eq_Suc alloc_loop.simps Let_def split)

lemma sample_buddy_get: "map_option snd (buddy_get sample_buddy 3) = Some 0"
  by (simp add: buddy_get_def sample_buddy_def buddy_init_def buddy_alloc_def alloc_size_def next_pow_of_2_def
      is_pow_of_2_def Let_def alloc_loop_numeral alloc_pass_def alloc_next_def uu_index_offset_def)

theorem buddy_alloc_free_witness:
  "\<exists>b' p b''. buddy_get sample_buddy 3 = Some (b', p) \<and> buddy_put b' p = Some b'' \<and> buddy_blocks b'' = {}"
proof -
  obtain b' where get: "buddy_get sample_buddy 3 = Some (b', 0)" using sample_buddy_get by auto
  have "buddy_blocks sample_buddy = {}" by (simp add: buddy_blocks_def sample_buddy_wf)
  then show ?thesis using buddy_alloc_free[OF sample_buddy_wf(4) get] get by auto
qed

text \<open>Two blocks that are handed out one after the other have no page in common.\<close>

lemma buddy_alloc_disjoint:
  assumes "buddy_wf b" "buddy_get b n = Some (b', p)" "buddy_get b' n' = Some (b'', q)" "0 < n" "0 < n'"
  shows "{p ..< p + n} \<inter> {q ..< q + n'} = {}"
  by (rule bd.alloc_twice_disjoint[OF assms])

text \<open>
  \<^verbatim>\<open>buddy_init\<close> for level 10, the only level the allocator uses, clears cells that lie
  behind the 1024 cells of the field \<^verbatim>\<open>tree\<close>.
\<close>

lemma buddy_init_overflow:
  assumes "BUDDY_TREE_CELLS \<le> i" "i < 2047" "tree b i \<noteq> 0"
  shows "tree (buddy_init b 10) i \<noteq> tree b i"
  using assms by (simp add: buddy_init_def Let_def)

section \<open>Lists\<close>

text \<open>
  A list of \<^verbatim>\<open>list.h\<close> to which distinct nodes are appended is walked in
  the order of the insertions; its first node is the first inserted one, and after this one
  is deleted the walk shows the others in order.
\<close>

lemma list_is_fifo:
  assumes "distinct (head # x # ys)" "Suc (length ys) < n"
  shows "let h' = fold (\<lambda>x h. list_add_tail h x head) (x # ys) (INIT_LIST_HEAD h head)
    in list_nodes n h' head = Some (x # ys) \<and> lnext h' head = x \<and> list_nodes n (list_del h' x) head = Some ys"
proof -
  define h' where "h' = fold (\<lambda>x h. list_add_tail h x head) (x # ys) (INIT_LIST_HEAD h head)"
  have "list_rep h' head (x # ys)"
    using dl.rep_add_all[OF list_rep_init[of h head], of "x # ys"] assms(1) by (simp add: h'_def)
  then have "list_nodes n h' head = Some (x # ys)" using assms(2) by (intro list_nodes_rep) auto
  moreover have "lnext h' head = x" unfolding h'_def by (rule dl.fifo(1)[OF assms(1)])
  moreover have "list_nodes n (list_del h' x) head = Some ys"
    unfolding h'_def using assms(2) by (intro list_nodes_rep dl.fifo(2)[OF assms(1)]) simp
  ultimately show ?thesis unfolding h'_def Let_def by blast
qed

text \<open>
  C30: Inserting at the head, deleting anywhere and the tests of \<^verbatim>\<open>list.h\<close> act on the sequence
  that the links represent.
\<close>

theorem list_ops_refine:
  assumes "list_rep h head (ys @ x # zs)"
  shows "list_rep (list_del h x) head (ys @ zs) \<and>
    list_rep (list_del_init h x) head (ys @ zs) \<and> list_empty (list_del_init h x) x \<and>
    (new \<notin> set (head # ys @ x # zs) \<longrightarrow> list_rep (list_add h new head) head (new # ys @ x # zs)) \<and>
    \<not> list_empty h head \<and> (list_is_singular h head \<longleftrightarrow> ys = [] \<and> zs = []) \<and>
    (list_is_first h x head \<longleftrightarrow> ys = []) \<and> (list_is_last h x head \<longleftrightarrow> zs = [])"
proof (intro conjI impI)
  have d: "distinct (head # ys @ x # zs)" using assms by (simp add: list_rep_def)
  show "list_is_singular h head \<longleftrightarrow> ys = [] \<and> zs = []" using list_rep_singular[OF assms] by auto
  show "list_is_first h x head \<longleftrightarrow> ys = []"
    using list_rep_is_first_last(1)[OF assms, of x] d by (cases ys) auto
  show "list_is_last h x head \<longleftrightarrow> zs = []"
    using list_rep_is_first_last(2)[OF assms, of x] d by (cases zs rule: rev_cases) auto
qed (use assms list_rep_del_init[OF assms] list_rep_empty list_rep_del list_rep_add in blast)+

theorem list_ops_refine_witness:
  "list_is_singular (list_add (INIT_LIST_HEAD \<lparr>lnext = \<lambda>_. 0, lprev = \<lambda>_. 0\<rparr> 10) 20 10) 10"
  using list_ops_refine[of "list_add (INIT_LIST_HEAD \<lparr>lnext = \<lambda>_. 0, lprev = \<lambda>_. 0\<rparr> 10) 20 10" 10 "[]" 20 "[]"]
    list_rep_add[OF list_rep_init[of _ 10], of 20] by simp

section \<open>Bits and bitmaps\<close>

text \<open>
  C35: \<^verbatim>\<open>ffs\<close> returns the 1-based position of the least significant set bit and
  \<^verbatim>\<open>fls\<close> that of the most significant one; both return 0 for the zero word.
\<close>

theorem ffs_fls_correct:
  "ffs w = (if w = 0 then 0 else Suc (Min {i. bit w i}))
   \<and> fls w = (if w = 0 then 0 else Suc (Max {i. bit w i}))"
  using ffs_eq fls_eq by blast

text \<open>
  C36: The parallel bit counts \<^verbatim>\<open>hweight32\<close> and \<^verbatim>\<open>hweight64\<close> give the number of set bits.
\<close>

theorem hweight_correct: "hweight32 w = card {i. bit w i} \<and> hweight64 v = card {i. bit v i}"
  by (simp add: hweight32_popcount hweight64_popcount popcount_def)

text \<open>
  C31: The searches of a bitmap of \<open>sz\<close> bits from a 1-based position: the 1-based
  position of the next set (clear) bit that is not before it, 0 when there is none. The search for
  the last bit returns \<open>sz\<close> instead of 0 when there is none.
\<close>

theorem bitmap_find_correct:
  "let S = bits_of m a (unat sz) in
     unat (bitmap_find_next_bit m a sz offset) = (if offset = 0 then 0 else next_elem S (unat offset - 1)) \<and>
     unat (bitmap_find_next_zero_bit m a sz offset) =
       (if offset = 0 then 0 else next_elem ({..<unat sz} - S) (unat offset - 1)) \<and>
     bitmap_find_first_bit m a sz = bitmap_find_next_bit m a sz 1 \<and>
     bitmap_find_first_zero_bit m a sz = bitmap_find_next_zero_bit m a sz 1 \<and>
     unat (bitmap_find_last_bit m a sz) = (if S = {} then unat sz else Suc (Max S))"
  unfolding Let_def
  by (intro conjI bitmap_find_next_bit_correct bitmap_find_next_zero_bit_correct bitmap_find_first_bit_next
      bitmap_find_first_zero_bit_next bitmap_find_last_bit_correct)

text \<open>
  C32: The word-wise operations on bitmaps are the operations on the sets of their bits,
  for sources that are the destination itself or lie where the loop does not overwrite them
  before they are read.
\<close>

theorem bitmap_set_algebra:
  assumes "readable d a (BITS_TO_LONGS n)" "readable d b (BITS_TO_LONGS n)"
  shows "bits_of (fst (bitmap_and m d a b n)) d n = bits_of m a n \<inter> bits_of m b n \<and>
    bits_of (fst (bitmap_andnot m d a b n)) d n = bits_of m a n - bits_of m b n \<and>
    bits_of (bitmap_or m d a b n) d n = bits_of m a n \<union> bits_of m b n \<and>
    bits_of (bitmap_xor m d a b n) d n = (bits_of m a n - bits_of m b n) \<union> (bits_of m b n - bits_of m a n) \<and>
    bits_of (bitmap_set m d start nr) d n = bits_of m d n \<union> ({start..<start + nr} \<inter> {..<n}) \<and>
    bits_of (bitmap_clear m d start nr) d n = bits_of m d n - {start..<start + nr}"
  using assms unfolding bitmap_wrappers
  by (simp add: bitmap_and_sets bitmap_andnot_sets bitmap_or_sets bitmap_xor_sets bitmap_set_sets bitmap_clear_sets)

theorem bitmap_set_algebra_witness:
  "bits_of (bitmap_or (\<lambda>i. of_nat i) 8 3 5 6) 8 6
     = bits_of (\<lambda>i. of_nat i) 3 6 \<union> bits_of (\<lambda>i. of_nat i) 5 6"
  using bitmap_set_algebra[of 8 3 6 5] by (simp add: BITS_TO_LONGS_def DIV_ROUND_UP_def)

text \<open>
  C33: The tests on bitmaps decide the relations of the sets of their bits, and
  the weight is the number of elements.
\<close>

theorem bitmap_tests:
  "(bitmap_equal m a b n \<longleftrightarrow> bits_of m a n = bits_of m b n) \<and>
   (bitmap_intersects m a b n \<longleftrightarrow> bits_of m a n \<inter> bits_of m b n \<noteq> {}) \<and>
   (bitmap_subset m a b n \<longleftrightarrow> bits_of m a n \<subseteq> bits_of m b n) \<and>
   (bitmap_full m a n \<longleftrightarrow> bits_of m a n = {..<n}) \<and>
   bitmap_weight m a n = card (bits_of m a n)"
  unfolding bitmap_wrappers
  by (intro conjI bitmap_equal_iff bitmap_intersects_iff bitmap_subset_iff bitmap_full_iff bitmap_weight_card)



text \<open>
  A right shift of a bitmap whose bits are all clear can set one: \<^verbatim>\<open>BITS_TO_LONGS\<close>
  divides by the bytes of a word, so the word that holds the end of the bitmap is not treated as
  its last word, and a bit behind the bitmap is shifted in.
\<close>

lemma bitmap_shift_right_stray_bit:
  "\<exists>m. bits_of m 0 5 = {} \<and> bits_of (bitmap_shift_right m 2 0 1 5) 2 5 = {4}"
  unfolding bitmap_wrappers using bitmap_shift_right_stray by blast

section \<open>Alignment and device numbers\<close>

text \<open>
  C37: Rounding to a power of two: \<^verbatim>\<open>ALIGN_BELOW\<close> gives the greatest multiple that is not
  above the argument, \<^verbatim>\<open>ALIGN_ABOVE\<close> the least one that is not below it when it is an
  address, and \<^verbatim>\<open>IS_ALIGNED\<close> decides divisibility.
\<close>

theorem align_correct:
  fixes x :: u32
  assumes "((unat x + 2 ^ k - 1) div 2 ^ k) * 2 ^ k < 2 ^ 32"
  shows "unat (ALIGN_BELOW x (2 ^ k)) = unat x div 2 ^ k * 2 ^ k \<and>
    unat (ALIGN_ABOVE x (2 ^ k)) = ((unat x + 2 ^ k - 1) div 2 ^ k) * 2 ^ k \<and>
    unat x \<le> unat (ALIGN_ABOVE x (2 ^ k)) \<and> unat (ALIGN_ABOVE x (2 ^ k)) < unat x + 2 ^ k \<and>
    (IS_ALIGNED x (2 ^ k) \<longleftrightarrow> 2 ^ k dvd unat x)"
proof -
  have fits: "((unat x + 2 ^ k - 1) div 2 ^ k) * 2 ^ k < 2 ^ LENGTH(32)" using assms by simp
  show ?thesis
    using unat_align_above[OF fits] align_above_ge[OF fits]
    by (simp add: unat_align_below minus_mod_eq_div_mult is_aligned_dvd)
qed

theorem align_correct_witness: "unat (ALIGN_ABOVE (0x12345 :: u32) (2 ^ 12)) = 0x13000"
  using align_correct[of "0x12345" 12] by simp

section \<open>Pages of memory\<close>

text \<open>A memory area of 1024 pages from \<^verbatim>\<open>0x1000\<close> on, none of which has been handed out yet.\<close>

definition sample_area :: area where
  "sample_area = \<lparr>base_addr = 0x1000, page_num = 1024, buddy_num = 0, buddylist = (\<lambda>i. of_nat i + 1),
     buddies = (\<lambda>_. \<lparr>blevel = 0, baseAddr = 0, tree = (\<lambda>_. 0)\<rparr>), mem_phybase = 0x1000, mem_size = 0x400000\<rparr>"

lemma sample_area_ok: "area_ok 1024 sample_area" "area_inv sample_area" "area_low sample_area" "area_bytes sample_area = {}"
proof -
  show ok: "area_ok 1024 sample_area" by (simp add: area_ok_def sample_area_def area_used_def lessThan_Suc)
  then show "area_inv sample_area" by (auto simp: area_inv_def)
  show "area_low sample_area" unfolding area_low_def
    using ok by (intro exI[of _ 1024]) (simp add: sample_area_def)
  show "area_bytes sample_area = {}" by (simp add: area_bytes_def area_blocks_def sample_area_def)
qed

text \<open>
  C2: \<^verbatim>\<open>page_alloc\<close> answers every request. Either it fails and no block is handed out, or it
  hands out a block that is large enough, is disjoint from all the blocks that are in use
  and is in use afterwards. The state stays well formed.
\<close>

theorem page_alloc_correct:
  assumes "area_inv s" "unat (psize p) \<le> 2 ^ 42"
  shows "\<exists>s' p' r. page_alloc k s p = Some (s', p', r) \<and> area_inv s' \<and>
    (r = EOF \<and> p' = p \<and> area_bytes s' = area_bytes s \<or>
     r = 0 \<and> p' = p\<lparr>paddr := paddr p'\<rparr> \<and>
       (\<exists>len. unat (psize p) \<le> len \<and> unat (paddr p') + len \<le> 2 ^ 32 \<and>
          area_bytes s' = insert (unat (paddr p'), len) (area_bytes s) \<and>
          (\<forall>b\<in>area_bytes s. span (unat (paddr p'), len) \<inter> span b = {})))"
proof -
  obtain s' p' r where r: "page_alloc k s p = Some (s', p', r)" "area_inv s'"
    "r = EOF \<and> p' = p \<and> area_bytes s' = area_bytes s \<or> r = 0 \<and> p' = p\<lparr>paddr := paddr p'\<rparr> \<and>
      (\<exists>len. unat (psize p) \<le> len \<and> 0 < len \<and> unat (paddr p') + len \<le> 2 ^ 32 \<and>
        (unat (paddr p'), len) \<notin> area_bytes s \<and> area_bytes s' = insert (unat (paddr p'), len) (area_bytes s))"
    using pp.palloc_answers[OF assms] by blast
  have "span c \<inter> span b = {}" if "area_bytes s' = insert c (area_bytes s)" "c \<notin> area_bytes s" "b \<in> area_bytes s" for b c
    using that by (intro pp.pblocks_disjoint[OF r(2)]) auto
  with r show ?thesis by blast
qed

theorem page_alloc_correct_witness:
  "\<exists>s' p' r. page_alloc 0 sample_area \<lparr>paddr = 0, psize = 4096, pflags = 0\<rparr> = Some (s', p', r) \<and> area_inv s' \<and>
    (r = EOF \<and> area_bytes s' = {} \<or> r = 0 \<and> (\<exists>len\<ge>4096. area_bytes s' = {(unat (paddr p'), len)}))"
  using page_alloc_correct[of sample_area "\<lparr>paddr = 0, psize = 4096, pflags = 0\<rparr>" 0]
  by (simp add: sample_area_ok) blast

text \<open>
  C38: \<^verbatim>\<open>page_free\<close> does not free: the block stays in use, and the number of free pages grows
  by the number of its bytes.
\<close>

theorem page_free_leaks:
  assumes "area_ok T st" "(q, len) \<in> area_blocks st" "paddr pgs = ucast (base_addr st) + of_nat (4096 * q)"
  shows "\<exists>st' pgs'. page_free st pgs = Some (st', pgs') \<and> area_blocks st' = area_blocks st \<and>
    page_num st' = page_num st + of_nat (4096 * len)"
proof -
  obtain i p where i: "i < unat (buddy_num st)" "q = 1024 * i + p" "p + len \<le> 1024" "0 < len"
    by (rule area_block_at[OF assms(1,2)]) auto
  have q: "q < 1024 * unat (buddy_num st)" using i by linarith
  have mem: "q \<in> span (q, len)" using i by auto
  show ?thesis using assms(1) q assms(3)
  proof (cases rule: page_free_count)
    case (In_Block p' len')
    have "(p', len') = (q, len)"
      using area_blocks_apart[OF assms(1) In_Block(1) assms(2)] In_Block(2) mem by blast
    then show ?thesis using In_Block(3) page_free_keeps_blocks[OF In_Block(3)] by auto
  next
    case Free_Page
    then show ?thesis using assms(2) mem by blast
  qed
qed

text \<open>A buddy of 1024 pages that is handed out as a whole.\<close>

lemma full_buddy:
  obtains b where "buddy_wf b" "blevel b = 10" "(0, 1024) \<in> buddy_blocks b"
proof -
  define e where "e = buddy_init \<lparr>blevel = 0, baseAddr = 0, tree = (\<lambda>_. 0)\<rparr> 10"
  have e: "buddy_wf e" "blevel e = 10" "buddy_blocks e = {}" by (simp_all add: e_def buddy_init_10)
  have "map_option snd (buddy_get e 1024) = Some 0"
    by (simp add: buddy_get_def e_def buddy_init_def buddy_alloc_def alloc_size_def next_pow_of_2_def
      is_pow_of_2_def Let_def alloc_loop_numeral alloc_pass_def alloc_next_def uu_index_offset_def)
  then obtain b where b: "buddy_get e 1024 = Some (b, 0)" by auto
  obtain m where m: "0 < m" "allocated (tree b) = insert m (allocated (tree e))" "0 = lo 10 m" "1024 \<le> (2 :: nat) ^ (10 - dep m)"
    "buddy_wf b" "blevel b = 10"
    using buddy_get_block[OF e(1) b] unfolding e(2) by metis
  have "(2 :: nat) ^ 10 \<le> 2 ^ (10 - dep m)" using m(4) by simp
  then have "dep m = 0" by (simp only: power_increasing_iff[of "2 :: nat"])
  then have "(0, 1024) \<in> buddy_blocks b" using m(2,3,6) by (force simp: buddy_blocks_def)
  then show thesis using that m(5,6) by blast
qed

theorem page_free_leaks_witness:
  "\<exists>st pgs st' pgs'. area_inv st \<and> page_num st = 1024 \<and> page_free st pgs = Some (st', pgs') \<and>
     area_blocks st' = area_blocks st \<and> page_num st' = 1024 + 0x400000"
proof -
  obtain b where b: "buddy_wf b" "blevel b = 10" "(0, 1024) \<in> buddy_blocks b" by (rule full_buddy)
  define st where "st = sample_area\<lparr>buddy_num := 1, buddies := (\<lambda>_. b)\<rparr>"
  have ok: "area_ok 1024 st" using b by (simp add: area_ok_def st_def sample_area_def lessThan_Suc)
  have "(0, 1024) \<in> area_blocks st" using b(3) by (force simp: area_blocks_def st_def lessThan_Suc)
  then have "\<exists>st' pgs'. page_free st \<lparr>paddr = 0x1000, psize = 0, pflags = 0\<rparr> = Some (st', pgs') \<and> area_blocks st' = area_blocks st \<and>
    page_num st' = page_num st + of_nat (4096 * 1024)"
    using page_free_leaks[OF ok, of 0 1024 "\<lparr>paddr = 0x1000, psize = 0, pflags = 0\<rparr>"] by (simp add: st_def sample_area_def)
  moreover have "area_inv st" "page_num st = 1024" using ok by (auto simp: area_inv_def st_def sample_area_def)
  ultimately show ?thesis by auto
qed

section \<open>Page tables\<close>

text \<open>An index at \<^verbatim>\<open>0x1000\<close> with one empty table, at \<^verbatim>\<open>0x2000\<close>.\<close>

definition sample_tables :: vmem where
  "sample_tables = store32 (\<lambda>_. 0) (pw 0x1000 0) 0x2007"

definition sample_pmm :: "vmem \<Rightarrow> area pmm" where
  "sample_pmm m = \<lparr>uu_allocator = \<lparr>pa_alloc = page_alloc 0, pa_free = page_free, pa_get_free = page_get_free\<rparr>,
     pa_state = sample_area, kmem = m\<rparr>"

lemma sample_pages: "page_ok 0x1000" "page_ok 0x2000"
  by (simp_all add: page_ok_def)

lemma sample_pde: "pde_at sample_tables 0x1000 va = (if PDX va = 0 then 0x2007 else 0)"
  using load_store_pw[OF sample_pages(1) _ sample_pages(1), of 0 "PDX va" "\<lambda>_. 0" "0x2007"]
  by (simp add: sample_tables_def load32_def)

lemma sample_pte: "pte_of sample_tables 0x1000 va = None"
proof -
  have "load32 sample_tables (pw 0x2000 (PTX va)) = 0"
    using load_store_pw[OF sample_pages(1) _ sample_pages(2), of 0 "PTX va" "\<lambda>_. 0" "0x2007"]
    by (simp add: sample_tables_def load32_def)
  moreover have "PTE_ADDR 0x2007 = 0x2000" by (simp add: PTE_ADDR_def)
  ultimately show ?thesis by (simp add: pte_of_def sample_pde present_def)
qed

lemma sample_pd_wf: "pd_wf sample_tables 0x1000"
  by (auto simp: pd_wf_def sample_pde sample_pages present_def PTE_ADDR_def)

text \<open>The same index with the page \<^verbatim>\<open>0x5000\<close> mapped to \<^verbatim>\<open>0x100000\<close>.\<close>

definition sample_mapped :: vmem where
  "sample_mapped = store32 sample_tables (pw (PTE_ADDR (pde_at sample_tables 0x1000 0x5000)) (PTX 0x5000)) 0x100007"

lemma sample_mapped_wf: "pd_wf sample_mapped 0x1000"
  and sample_mapped_pte: "pte_of sample_mapped 0x1000 va = (if PGROUNDDOWN va = 0x5000 then Some 0x100007 else None)"
proof -
  have p: "present (pde_at sample_tables 0x1000 0x5000)"
    by (simp only: sample_pde) (simp add: PDX_def PDXSHIFT_def present_def PTE_P_def)
  have a: "PGROUNDDOWN (0x5000 :: u32) = 0x5000" by (simp add: PGROUNDDOWN_def PGSIZE_def)
  show "pd_wf sample_mapped 0x1000" by (rule pte_store(2)[OF sample_pd_wf p sample_mapped_def])
  show "pte_of sample_mapped 0x1000 va = (if PGROUNDDOWN va = 0x5000 then Some 0x100007 else None)"
    using pte_store(3)[OF sample_pd_wf p sample_mapped_def, of va] by (simp add: a sample_pte present_def PTE_P_def)
qed

text \<open>
  C3: \<^verbatim>\<open>map_pages\<close> on pages that are not mapped yet, when their page tables exist or can be
  allocated, succeeds and enters exactly these pages: page by page the physical pages from
  \<^verbatim>\<open>paddr\<close> on with the given flags. Every other page keeps its entry, and the index
  stays well formed.
\<close>

theorem map_pages_correct:
  assumes "pa_alloc (uu_allocator st) = page_alloc k" "area_low (pa_state st)" "pd_wf (kmem st) f"
    and "0 < unat sz" "unat vaddr + unat sz \<le> 2 ^ 32"
    and "a = PGROUNDDOWN vaddr" "n = (unat vaddr + unat sz - 1) div 4096 - unat vaddr div 4096"
    and "\<forall>i\<le>n. pte_of (kmem st) f (a + of_nat (4096 * i)) = None"
    and "(\<forall>i\<le>n. present (pde_at (kmem st) f (a + of_nat (4096 * i)))) \<or>
      has_pages (page_alloc k) u (Suc n) (pa_state st) \<and> pd_owned (area_bytes (pa_state st)) (kmem st) f"
  shows "\<exists>st'. map_pages u st (f + KERN_BASE) vaddr pa sz flags = Some (Done (st', 0)) \<and>
    area_low (pa_state st') \<and> pd_wf (kmem st') f \<and>
    (\<forall>va. pte_of (kmem st') f va =
       (if unat a \<le> unat va \<and> unat va < unat a + 4096 * Suc n
        then Some (pte_value (pa + of_nat (4096 * ((unat va - unat a) div 4096))) flags)
        else pte_of (kmem st) f va))"
proof -
  have uses: "fp.uses k st" using assms(1,2) by (simp add: fp.uses_def)
  have "\<exists>st'. map_pages u st (f + KERN_BASE) vaddr pa sz flags = Some (Done (st', 0)) \<and> fp.uses k st' \<and> pd_wf (kmem st') f \<and>
    (\<forall>va. pte_of (kmem st') f va =
       (if unat a \<le> unat va \<and> unat va < unat a + 4096 * Suc n
        then Some (pte_value (pa + of_nat (4096 * ((unat va - unat a) div 4096))) flags)
        else pte_of (kmem st) f va))"
    using assms(8,9) by (intro fp.map_pages_maps[OF uses assms(3-7)]) (auto simp: fp.can_alloc_def)
  then show ?thesis by (auto simp: fp.uses_def)
qed

theorem map_pages_correct_witness:
  "\<exists>st'. map_pages 0 (sample_pmm sample_tables) (0x1000 + KERN_BASE) 0x5000 0x100000 0x2000 6 = Some (Done (st', 0)) \<and>
    pte_of (kmem st') 0x1000 0x5000 = Some 0x100007 \<and> pte_of (kmem st') 0x1000 0x6abc = Some 0x101007 \<and>
    pte_of (kmem st') 0x1000 0x7000 = None"
proof -
  have a: "PGROUNDDOWN (0x5000 :: u32) = 0x5000" by (simp add: PGROUNDDOWN_def PGSIZE_def)
  have "PDX (0x5000 + of_nat (4096 * i)) = 0" if "i \<le> 1" for i
    using that by (cases i) (auto simp: PDX_def PDXSHIFT_def)
  then have "\<forall>i\<le>1. present (pde_at sample_tables 0x1000 (0x5000 + of_nat (4096 * i)))"
    by (simp only: sample_pde) (simp add: present_def PTE_P_def)
  then have "\<exists>st'. map_pages 0 (sample_pmm sample_tables) (0x1000 + KERN_BASE) 0x5000 0x100000 0x2000 6 = Some (Done (st', 0)) \<and>
      area_low (pa_state st') \<and> pd_wf (kmem st') 0x1000 \<and>
      (\<forall>va. pte_of (kmem st') 0x1000 va =
        (if unat (0x5000 :: u32) \<le> unat va \<and> unat va < unat (0x5000 :: u32) + 4096 * Suc 1
         then Some (pte_value (0x100000 + of_nat (4096 * ((unat va - unat (0x5000 :: u32)) div 4096))) 6)
         else pte_of (kmem (sample_pmm sample_tables)) 0x1000 va))"
    by (intro map_pages_correct[of _ 0] disjI1) (simp_all add: sample_pmm_def sample_area_ok sample_pd_wf sample_pte a)
  then obtain st' where "map_pages 0 (sample_pmm sample_tables) (0x1000 + KERN_BASE) 0x5000 0x100000 0x2000 6 = Some (Done (st', 0))"
    "\<And>va. pte_of (kmem st') 0x1000 va =
        (if unat (0x5000 :: u32) \<le> unat va \<and> unat va < unat (0x5000 :: u32) + 4096 * Suc 1
         then Some (pte_value (0x100000 + of_nat (4096 * ((unat va - unat (0x5000 :: u32)) div 4096))) 6)
         else pte_of (kmem (sample_pmm sample_tables)) 0x1000 va)" by blast
  then show ?thesis by (intro exI[of _ st']) (simp add: sample_pmm_def sample_pte pte_value_def PTE_P_def)
qed

text \<open>
  C26: \<^verbatim>\<open>map_pages\<close> panics when the first page of the range is mapped already.
\<close>

theorem map_pages_refuses:
  assumes "pa_alloc (uu_allocator st) = page_alloc k" "area_low (pa_state st)" "pd_wf (kmem st) f"
    and "pte_of (kmem st) f (PGROUNDDOWN vaddr) = Some e"
  shows "map_pages u st (f + KERN_BASE) vaddr pa sz flags = Some Panic"
  using assms by (intro fp.map_pages_remap[of k]) (simp_all add: fp.uses_def)

theorem map_pages_refuses_witness:
  "map_pages 0 (sample_pmm sample_mapped) (0x1000 + KERN_BASE) 0x5678 0x200000 0x1000 6 = Some Panic"
  by (rule map_pages_refuses[of _ 0, where e = "0x100007"])
     (simp_all add: sample_pmm_def sample_area_ok sample_mapped_wf sample_mapped_pte PGROUNDDOWN_def PGSIZE_def)

text \<open>
  C25: \<^verbatim>\<open>set_pages_perm\<close> on mapped pages succeeds, replaces their flags and touches no other page. The
  new flags replace the present bit too: without it the pages are not mapped afterwards.
\<close>

theorem set_pages_perm_correct:
  assumes "pa_alloc (uu_allocator st) = page_alloc k" "area_low (pa_state st)" "pd_wf (kmem st) f"
    and "0 < unat sz" "unat vaddr + unat sz \<le> 2 ^ 32"
    and "a = PGROUNDDOWN vaddr" "n = (unat vaddr + unat sz - 1) div 4096 - unat vaddr div 4096"
    and "\<forall>i\<le>n. pte_of (kmem st) f (a + of_nat (4096 * i)) \<noteq> None"
  shows "\<exists>st'. set_pages_perm u st (f + KERN_BASE) vaddr sz flags = Some (st', 0) \<and>
    area_low (pa_state st') \<and> pd_wf (kmem st') f \<and>
    (\<forall>va. pte_of (kmem st') f va =
       (if unat a \<le> unat va \<and> unat va < unat a + 4096 * Suc n
        then set_flags flags (pte_of (kmem st) f va) else pte_of (kmem st) f va))"
proof -
  have uses: "fp.uses k st" using assms(1,2) by (simp add: fp.uses_def)
  have "\<exists>st'. set_pages_perm u st (f + KERN_BASE) vaddr sz flags = Some (st', 0) \<and> fp.uses k st' \<and> pd_wf (kmem st') f \<and>
    (\<forall>va. pte_of (kmem st') f va =
       (if unat a \<le> unat va \<and> unat va < unat a + 4096 * Suc n
        then set_flags flags (pte_of (kmem st) f va) else pte_of (kmem st) f va))"
    using assms(8) by (intro fp.set_pages_perm_sets[OF uses assms(3-7)]) blast
  then show ?thesis by (auto simp: fp.uses_def)
qed

theorem set_pages_perm_correct_witness:
  "\<exists>st'. set_pages_perm 0 (sample_pmm sample_mapped) (0x1000 + KERN_BASE) 0x5678 8 6 = Some (st', 0) \<and>
    pte_of (kmem st') 0x1000 0x5000 = None"
proof -
  have a: "PGROUNDDOWN (0x5678 :: u32) = 0x5000" "PGROUNDDOWN (0x5000 :: u32) = 0x5000"
    by (simp_all add: PGROUNDDOWN_def PGSIZE_def)
  have "\<exists>st'. set_pages_perm 0 (sample_pmm sample_mapped) (0x1000 + KERN_BASE) 0x5678 8 6 = Some (st', 0) \<and>
    area_low (pa_state st') \<and> pd_wf (kmem st') 0x1000 \<and>
    (\<forall>va. pte_of (kmem st') 0x1000 va =
       (if unat (0x5000 :: u32) \<le> unat va \<and> unat va < unat (0x5000 :: u32) + 4096 * Suc 0
        then set_flags 6 (pte_of (kmem (sample_pmm sample_mapped)) 0x1000 va) else pte_of (kmem (sample_pmm sample_mapped)) 0x1000 va))"
    by (intro set_pages_perm_correct[of _ 0]) (simp_all add: sample_pmm_def sample_area_ok sample_mapped_wf sample_mapped_pte a)
  then obtain st' where "set_pages_perm 0 (sample_pmm sample_mapped) (0x1000 + KERN_BASE) 0x5678 8 6 = Some (st', 0)"
    "pte_of (kmem st') 0x1000 0x5000 = set_flags 6 (pte_of sample_mapped 0x1000 0x5000)" by (auto simp: sample_pmm_def)
  then show ?thesis by (intro exI[of _ st']) (simp add: sample_mapped_pte a set_flags_def present_def PTE_P_def)
qed

section \<open>The kernel heap\<close>

text \<open>A heap before the page allocator is on, with the page \<^verbatim>\<open>0x8000\<close> as its memory.\<close>

definition sample_heap :: "vmem \<Rightarrow> area heap" where
  "sample_heap m = \<lparr>is_page_alloc_on = False, tmp_mem_pt = 0x8000, sizes = initial_sizes, hpmm = sample_pmm m, klog = []\<rparr>"

lemma sample_heap_classes: "classes_ok (sample_heap m)" "classes_ok (sample_heap m\<lparr>is_page_alloc_on := b\<rparr>)"
  by (simp_all add: classes_ok_def classes_def sample_heap_def)

lemma sample_heap_order:
  "get_order (sample_heap m) 100 = Some 2" "get_order (sample_heap m) 1000 = Some 5" "get_order (sample_heap m\<lparr>is_page_alloc_on := b\<rparr>) 1000 = Some 5"
  by (simp_all add: get_order_def sample_heap_def initial_sizes_def size_class_def sizeof_block_header_def)

text \<open>
  C6: \<^verbatim>\<open>simple_alloc\<close> of a size whose class has no free block gets a page and cuts it into blocks: the first
  block is handed out and marked as used with its length, the others form the free list of the
  page, which becomes the first page of the class unless the class has one block to a page;
  the other classes stay as they were.
\<close>

theorem simple_alloc_fresh_page:
  assumes "classes_ok h" "uint sz \<le> 4072" "get_order h (uint sz) = Some (int order)"
    and "firstfree (sizes h ! order) = 0" "get_page u h = Some (h', pg)" "pg \<noteq> 0" "aligned_page pg" "sizes h' = sizes h"
  shows "\<exists>h''. simple_alloc u sz pr h = Some (Done (h'', pg + 24)) \<and>
    slab (kmem (hpmm h'')) pg order (class_size order) [1..<class_blocks_of order] \<and>
    hload h'' (bh_flags (pg + 16)) = MF_USED \<and> hload h'' (bh_vp (pg + 16)) = sz \<and>
    uint sz + 8 \<le> int (class_size order) \<and>
    firstfree (sizes h'' ! order) = (if class_blocks_of order = 1 then 0 else pg) \<and>
    (\<forall>j. j \<noteq> order \<longrightarrow> sizes h'' ! j = sizes h ! j) \<and> classes_ok h''"
proof -
  obtain ord where o: "ord < 8" "uint sz + 8 \<le> int (class_size ord)" "get_order h (uint sz) = Some (int ord)"
    "\<And>u pr. simple_alloc u sz pr h = alloc_tries 4 u ord sz h"
    using simple_alloc_tries[OF assms(1,2)] by metis
  have "ord = order" using o(3) assms(3) by simp
  have four: "(4 :: nat) = Suc (Suc 2)" by simp
  have miss: "\<exists>h''. alloc_tries (Suc (Suc 2)) u order sz h = Some (Done (h'', pg + 24)) \<and>
    slab (kmem (hpmm h'')) pg order (class_size order) [1..<class_blocks_of order] \<and>
    hload h'' (bh_flags (pg + 16)) = MF_USED \<and> hload h'' (bh_vp (pg + 16)) = sz \<and>
    firstfree (sizes h'' ! order) = (if class_blocks_of order = 1 then 0 else pg) \<and>
    (\<forall>j. j \<noteq> order \<longrightarrow> sizes h'' ! j = sizes h ! j) \<and> classes_ok h'' \<and>
    is_page_alloc_on h'' = is_page_alloc_on h' \<and> tmp_mem_pt h'' = tmp_mem_pt h'"
    using o(1) \<open>ord = order\<close> by (intro alloc_miss[OF assms(1) _ assms(4-8)]) simp
  then show ?thesis using o(2) unfolding o(4) four \<open>ord = order\<close> by blast
qed

theorem simple_alloc_fresh_page_witness:
  "\<exists>h. simple_alloc 0 100 0 (sample_heap (\<lambda>_. 0)) = Some (Done (h, 0x8018)) \<and>
    slab (kmem (hpmm h)) 0x8000 2 128 [1..<31]"
proof -
  define h where "h = sample_heap (\<lambda>_. 0)"
  have "firstfree (sizes h ! 2) = 0" "get_page 0 h = Some (h, 0x8000)"
    by (simp_all add: h_def get_page_def sample_heap_def initial_sizes_def size_class_def)
  moreover have "classes_ok h" "get_order h 100 = Some 2" by (simp_all add: h_def sample_heap_classes sample_heap_order)
  ultimately have "\<exists>h''. simple_alloc 0 100 0 h = Some (Done (h'', 0x8000 + 24)) \<and>
    slab (kmem (hpmm h'')) 0x8000 2 (class_size 2) [1..<class_blocks_of 2]"
    using simple_alloc_fresh_page[of h 100 2 0 h "0x8000" 0] by auto
  then show ?thesis by (simp add: h_def class_size_def class_blocks_of_def)
qed



text \<open>
  C39: Before the page allocator is on, two requests of different classes are given the same
  address: the pointer to the bootstrap memory is not advanced.
\<close>

theorem bootstrap_heap_same_block:
  assumes "classes_ok h" "\<not> is_page_alloc_on h" "tmp_mem_pt h = pg" "pg \<noteq> 0" "aligned_page pg"
    and "uint n \<le> 4072" "uint n' \<le> 4072" "get_order h (uint n) = Some (int i)" "get_order h (uint n') = Some (int j)"
    and "i < 8" "j < 8" "i \<noteq> j" "firstfree (sizes h ! i) = 0" "firstfree (sizes h ! j) = 0"
  shows "\<exists>h1 h2. simple_alloc u n pr h = Some (Done (h1, pg + 24)) \<and> simple_alloc u n' pr h1 = Some (Done (h2, pg + 24))"
  using bootstrap_heap_overlap[OF assms(1-5,8-14,6,7)] .

theorem bootstrap_heap_same_block_witness:
  "\<exists>h1 h2. simple_alloc 0 100 0 (sample_heap (\<lambda>_. 0)) = Some (Done (h1, 0x8018)) \<and>
    simple_alloc 0 1000 0 h1 = Some (Done (h2, 0x8018))"
proof -
  have "\<exists>h1 h2. simple_alloc 0 100 0 (sample_heap (\<lambda>_. 0)) = Some (Done (h1, 0x8000 + 24)) \<and>
      simple_alloc 0 1000 0 h1 = Some (Done (h2, 0x8000 + 24))"
    by (rule bootstrap_heap_same_block[where i = 2 and j = 5])
       (simp_all add: sample_heap_classes sample_heap_order, simp_all add: sample_heap_def initial_sizes_def size_class_def)
  then show ?thesis by simp
qed

section \<open>User memory\<close>

text \<open>A state in which every list node is linked to itself.\<close>

definition sample_mach :: mach where
  "sample_mach = \<lparr>mem = (\<lambda>_. 0), eflags = 0, cr0 = 0, cr2 = 0, cr3 = 0, cr4 = 0, gs = 0, tr = 0, idtr = (0, 0), gdtr = (0, 0),
     trace = [], devices = (\<lambda>_ _. 0), mmio = (\<lambda>_ _. 0)\<rparr>"

definition sample_uvm :: "vmem \<Rightarrow> area uvm" where
  "sample_uvm m = \<lparr>mm_vma_count = (\<lambda>_. 0), mm_pgindex = (\<lambda>_. 0x1000 + KERN_BASE), vma_start = (\<lambda>_. 0x5000), vma_size = (\<lambda>_. 0x1000),
     vma_flags = (\<lambda>_. 0), vma_mm = (\<lambda>_. 0), vma_pages = (\<lambda>_. 0), upages = (\<lambda>_. \<lparr>paddr = 0, psize = 0, pflags = 0\<rparr>),
     upages_refs = (\<lambda>_. 0), vlinks = \<lparr>lnext = (\<lambda>x. x), lprev = (\<lambda>x. x)\<rparr>, uheap = sample_heap m,
     kernel_mm = 0, current_mm = None, umach = sample_mach\<rparr>"

text \<open>
  C8: The place that \<^verbatim>\<open>__find_vma_before\<close> finds for a range keeps the list of areas in
  order: a new area of this range that is linked there makes a list that is sorted by address and whose areas
  do not overlap.
\<close>

theorem uvm_insert_keeps_order:
  assumes "areas st mm vs" "areas_ok st vs" "0 < unat sz" "unat addr + unat sz < 2 ^ 32"
    and "uu_find_vma_before mm addr sz st = Some q" "q \<noteq> 0" "vma_start st v = addr" "vma_size st v = sz"
    and "list_rep (vlinks st) (upages_vma_head p) []" "vma_node v \<notin> set (mm_vma_head mm # map vma_node vs)"
    and "{vma_share_node v, upages_vma_head p} \<inter> set (mm_vma_head mm # map vma_node (v # vs)) = {}"
  shows "\<exists>xs ys. vs = xs @ ys \<and> areas (link_vma v p q st) mm (xs @ v # ys) \<and> areas_ok (link_vma v p q st) (xs @ v # ys)"
proof -
  define xs ys where d: "xs = takeWhile (\<lambda>v. vma_start st v < addr + sz) vs" "ys = dropWhile (\<lambda>v. vma_start st v < addr + sz) vs"
  have vs: "vs = xs @ ys" by (simp add: d)
  have q: "q = last (sentry mm # xs)" "xs \<noteq> [] \<longrightarrow> \<not> addr < vma_start st (last xs) + vma_size st (last xs)"
    using find_vma_before_areas[OF assms(1) d(1) refl] assms(5,6) vs by (auto split: if_splits)
  have "areas (link_vma v p q st) mm (xs @ v # ys)"
    unfolding q(1) using assms(1,9-11) by (intro link_vma_areas) (auto simp: vs)
  moreover have "vma_start (link_vma v p q st) = vma_start st" "vma_size (link_vma v p q st) = vma_size st"
    by (simp_all add: link_vma_def uu_ref_upages_def Let_def)
  then have "areas_ok (link_vma v p q st) (xs @ v # ys)"
    using assms(7,8) by (intro areas_ok_insert[OF assms(2) d assms(3,4) q(2)]) auto
  ultimately show ?thesis using vs by blast
qed

theorem uvm_insert_keeps_order_witness:
  "areas (link_vma 0x2000 0x3000 0xfec (sample_uvm (\<lambda>_. 0))) 0x1000 [0x2000]"
proof -
  have e: "areas (sample_uvm (\<lambda>_. 0)) 0x1000 []" "list_rep (vlinks (sample_uvm (\<lambda>_. 0))) (upages_vma_head 0x3000) []"
    by (simp_all add: areas_def list_rep_def sample_uvm_def)
  have "\<exists>xs ys. [] = xs @ ys \<and> areas (link_vma 0x2000 0x3000 0xfec (sample_uvm (\<lambda>_. 0))) 0x1000 (xs @ 0x2000 # ys) \<and>
      areas_ok (link_vma 0x2000 0x3000 0xfec (sample_uvm (\<lambda>_. 0))) (xs @ 0x2000 # ys)"
    using find_vma_before_areas[OF e(1) refl refl, of "0x5000" "0x1000"] e
    by (intro uvm_insert_keeps_order[where addr = "0x5000" and sz = "0x1000"])
       (simp_all add: areas_ok_def sample_uvm_def vma_entry_def mm_vma_head_def vma_node_def vma_share_node_def upages_vma_head_def)
  then show ?thesis by auto
qed

text \<open>
  C27: The page loop that copies to, from or fills user memory ends, for every range below the last
  page of the address space.
\<close>

theorem uvm_copy_terminates:
  assumes "unat stop + 4096 < 2 ^ 32"
  shows "\<exists>r. copy_pages u mm start stop vaddr c fill touser st = Some r"
  by (rule copy_pages_ends[OF assms])

theorem uvm_copy_terminates_witness: "\<exists>r. copy_pages 0 0x1000 0x5678 0x7000 0x80001000 0 False True (sample_uvm sample_mapped) = Some r"
  by (rule uvm_copy_terminates) simp

text \<open>
  C40: A fill of user memory that starts in the middle of a page writes the beginning of this page.
\<close>

theorem uvm_fill_misses_offset:
  assumes "pd_wf (kmem (upmm st)) f" "mm_pgindex st mm = f + KERN_BASE" "pte_of (kmem (upmm st)) f start = Some e"
    and "e AND PTE_U \<noteq> 0" "postmap_addr (PTE_ADDR e) \<noteq> 0" "unat start < unat stop"
    and "unat stop \<le> (unat start div 4096 + 1) * 4096" "unat start + 4096 < 2 ^ 32"
  shows "copy_pages u mm start stop vaddr c True touser st =
    Some (set_ukmem st (vmemset (kmem (upmm st)) (postmap_addr (PTE_ADDR e)) c (stop - start)), 0)"
  by (rule fill_misses_offset[OF assms])

theorem uvm_fill_misses_offset_witness:
  "copy_pages 0 0x1000 0x5800 0x5900 0 7 True True (sample_uvm sample_mapped) =
    Some (set_ukmem (sample_uvm sample_mapped) (vmemset sample_mapped 0x80100000 7 0x100), 0)"
proof -
  have km: "kmem (upmm (sample_uvm sample_mapped)) = sample_mapped" by (simp add: sample_uvm_def sample_heap_def sample_pmm_def)
  have "copy_pages 0 0x1000 0x5800 0x5900 0 7 True True (sample_uvm sample_mapped) =
    Some (set_ukmem (sample_uvm sample_mapped) (vmemset (kmem (upmm (sample_uvm sample_mapped))) (postmap_addr (PTE_ADDR 0x100007)) 7 (0x5900 - 0x5800)), 0)"
    by (rule uvm_fill_misses_offset[where f = "0x1000"])
       (simp_all add: km sample_mapped_wf sample_mapped_pte PGROUNDDOWN_def PGSIZE_def PTE_U_def PTE_ADDR_def
          postmap_addr_def KERN_BASE_def uu_postmap_addr_def, simp_all add: sample_uvm_def KERN_BASE_def)
  then show ?thesis by (simp add: km PTE_ADDR_def postmap_addr_def KERN_BASE_def uu_postmap_addr_def)
qed

section \<open>Locks\<close>

text \<open>
  C4: Any number of CPUs that take and release a spinlock in any interleaving of the accesses to it: at any time at most
  one of them is in the critical section, the lock is held then and names this CPU, and no CPU has
  panicked.
\<close>

theorem spinlock_mutual_exclusion:
  assumes "lock_free l" "sync_step\<^sup>*\<^sup>* (l, \<lambda>_. Outside) (l', P)"
  shows "(\<forall>c d. P c = Critical \<and> P d = Critical \<longrightarrow> c = d) \<and>
    (\<forall>c. P c = Critical \<longrightarrow> spin_is_locked l' \<and> holder_cpu l' = Some c) \<and> (\<forall>c. P c \<noteq> Panicked)"
proof -
  have "sync_inv (l', P)" by (rule sync_inv_reachable[OF assms(2) sync_inv_init[OF assms(1)]])
  then have i: "\<And>c. P c \<noteq> Panicked" "locked l' \<noteq> 0 \<longleftrightarrow> (\<exists>c. owns (P c))" "\<And>c d. owns (P c) \<Longrightarrow> owns (P d) \<Longrightarrow> c = d"
    "\<And>c. holder_cpu l' = Some c \<longleftrightarrow> named (P c)"
    by simp_all
  show ?thesis
  proof (intro conjI allI impI)
    fix c d assume "P c = Critical \<and> P d = Critical"
    then show "c = d" using i(3)[of c d] by simp
  next
    fix c assume c: "P c = Critical"
    then show "spin_is_locked l'" using i(2) by (metis owns_simps(2) spin_is_locked_def)
    show "holder_cpu l' = Some c" using i(4)[of c] c by simp
  qed (rule i(1))
qed

definition free_lock :: lock where "free_lock = \<lparr>locked = 0, holder_cpu = None, pcs = []\<rparr>"

lemma sample_acquire:
  "sync_step\<^sup>*\<^sup>* (free_lock, \<lambda>_. Outside) (free_lock\<lparr>locked := 1, holder_cpu := Some 0\<rparr>, (\<lambda>_. Outside)(0 := Critical))"
proof -
  have "sync_step (free_lock, \<lambda>_. Outside) (free_lock, (\<lambda>_. Outside)(0 := Test_Locked))" by (rule sync_step.enter) simp
  moreover have "sync_step (free_lock, (\<lambda>_. Outside)(0 := Test_Locked)) (free_lock, (\<lambda>_. Outside)(0 := Spin))"
    using sync_step.test_free[of "(\<lambda>_. Outside)(0 := Test_Locked)" 0 free_lock] by (simp add: free_lock_def)
  moreover have "sync_step (free_lock, (\<lambda>_. Outside)(0 := Spin)) (free_lock\<lparr>locked := 1\<rparr>, (\<lambda>_. Outside)(0 := Record))"
    using sync_step.acquire[of "(\<lambda>_. Outside)(0 := Spin)" 0 free_lock 0] by (simp add: free_lock_def xchg_locked_def)
  moreover have "sync_step (free_lock\<lparr>locked := 1\<rparr>, (\<lambda>_. Outside)(0 := Record))
      (free_lock\<lparr>locked := 1, holder_cpu := Some 0\<rparr>, (\<lambda>_. Outside)(0 := Critical))"
    using sync_step.holder[of "(\<lambda>_. Outside)(0 := Record)" 0 "free_lock\<lparr>locked := 1\<rparr>"] by simp
  ultimately show ?thesis by (meson rtranclp.rtrancl_into_rtrancl rtranclp.rtrancl_refl)
qed

theorem spinlock_mutual_exclusion_witness:
  "\<exists>l P. sync_step\<^sup>*\<^sup>* (free_lock, \<lambda>_. Outside) (l, P) \<and> P 0 = Critical \<and> (\<forall>d. P d = Critical \<longrightarrow> d = 0) \<and> holder_cpu l = Some 0"
proof (intro exI conjI)
  have "lock_free free_lock" by (simp add: lock_free_def free_lock_def)
  note r = spinlock_mutual_exclusion[OF this sample_acquire]
  show "sync_step\<^sup>*\<^sup>* (free_lock, \<lambda>_. Outside) (free_lock\<lparr>locked := 1, holder_cpu := Some 0\<rparr>, (\<lambda>_. Outside)(0 := Critical))"
    by (rule sample_acquire)
  show c: "((\<lambda>_. Outside)(0 := Critical)) (0 :: nat) = Critical" by simp
  show "\<forall>d :: nat. ((\<lambda>_. Outside)(0 := Critical)) d = Critical \<longrightarrow> d = 0" using r c by blast
  show "holder_cpu (free_lock\<lparr>locked := 1, holder_cpu := Some 0\<rparr>) = Some 0" using r c by blast
qed

text \<open>
  C19: The lock is never stuck: whenever a CPU spins for it, the CPUs can go on so that this
  CPU enters the critical section.
\<close>

theorem spinlock_can_be_entered:
  assumes "lock_free l" "sync_step\<^sup>*\<^sup>* (l, \<lambda>_. Outside) (l', P)" "P d = Spin"
  shows "\<exists>s. sync_step\<^sup>*\<^sup>* (l', P) s \<and> snd s d = Critical"
  using spinner_enters[OF sync_inv_reachable[OF assms(2) sync_inv_init[OF assms(1)]] assms(3)] .

theorem spinlock_can_be_entered_witness:
  "\<exists>s. sync_step\<^sup>*\<^sup>* (free_lock, (\<lambda>_. Outside)(1 := Spin)) s \<and> snd s 1 = Critical"
proof (rule spinlock_can_be_entered)
  show "lock_free free_lock" by (simp add: lock_free_def free_lock_def)
  have "sync_step (free_lock, \<lambda>_. Outside) (free_lock, (\<lambda>_. Outside)(1 := Test_Locked))" by (rule sync_step.enter) simp
  moreover have "sync_step (free_lock, (\<lambda>_. Outside)(1 := Test_Locked)) (free_lock, (\<lambda>_. Outside)(1 := Spin))"
    using sync_step.test_free[of "(\<lambda>_. Outside)(1 := Test_Locked)" 1 free_lock] by (simp add: free_lock_def)
  ultimately show "sync_step\<^sup>*\<^sup>* (free_lock, \<lambda>_. Outside) (free_lock, (\<lambda>_. Outside)(1 := Spin))"
    by (meson rtranclp.rtrancl_into_rtrancl rtranclp.rtrancl_refl)
qed simp

section \<open>Scheduling\<close>

text \<open>
  C23: The list of the scheduler and a search in it: a process that is added comes last, a removed one is gone, and
  \<^verbatim>\<open>find\<close> returns the first process of the list with the given number, or \<^verbatim>\<open>NULL\<close>.
\<close>

theorem sched_list_refines:
  assumes "sched_has st ps"
  shows "find st n ns = Some (case List.find (\<lambda>p. pid (procs st p) = n) ps of None \<Rightarrow> 0 | Some p \<Rightarrow> p) \<and>
    (sched_node p \<notin> set (sched_list st # map sched_node ps) \<and> node_p st (sched_node p) = p \<longrightarrow>
       sched_has (proc_add p st) (ps @ [p])) \<and>
    (ps = xs @ q # ys \<longrightarrow> sched_has (proc_remove q st) (xs @ ys))"
  using find_finds[OF assms] proc_add_has[OF assms] proc_remove_has[of st xs q ys] assms by auto

text \<open>
  C24: \<^verbatim>\<open>schedule\<close> always runs the idle process: the list of the scheduler names no process in its
  sentry, and \<^verbatim>\<open>pick\<close> returns what the sentry names. The lock is free afterwards.
\<close>

theorem schedule_always_idles:
  assumes "sched_has st ps" "lock_free (sched_lock st)"
    and "kpid (procs st (current_proc st c)) = 0 \<longleftrightarrow> current_proc st c = idleproc st c"
  shows "\<exists>st'. schedule c st = rret st' \<and> current_proc st' c = idleproc st c \<and>
    state (procs st' (idleproc st c)) = PS_ONPROC \<and> lock_free (sched_lock st')"
  using schedule_idles[of st c] assms by (auto simp: sched_has_def)

definition sample_proc :: proc where
  "sample_proc = \<lparr>proc_sz = 0, proc_tf = 0, kstack = 0, kstack_size = 0, tid = 0, pid = 7, kpid = 7, state = PS_RUNNABLE, exit_code = 0, exit_signal = 0,
     proc_flags = 0, oncpu = CPU_NONE, bed = 0, namespace = 0, proc_mm = 0, context_of = zero_context, heapsize = 0, heapbase = 0,
     pname = [], groupleader = 0, sessionleader = 0, tty = 0, mainthread = 0, parent = 0, first_child = 0, next_sibling = 0,
     prev_sibling = 0, proc_scheduler = 0\<rparr>"

definition sample_frame :: trapframe where
  "sample_frame = \<lparr>tf_edi = 0, tf_esi = 0, tf_ebp = 0, tf_oesp = 0, tf_ebx = 0, tf_edx = 0, tf_ecx = 0, tf_eax = 0, tf_gs = 0, tf_fs = 0,
     tf_es = 0, tf_ds = 0, tf_trapno = 0, tf_err = 0, tf_eip = 0, tf_cs = 0, tf_eflags = 0, tf_esp = 0, tf_ss = 0\<rparr>"

text \<open>One process at \<^verbatim>\<open>0x2000\<close> runs and is in the list of the scheduler at \<^verbatim>\<open>0x1000\<close>; the idle process is at \<^verbatim>\<open>0x4000\<close>.\<close>

definition sample_sys :: "area sys" where
  "sample_sys = \<lparr>ust = sample_uvm (\<lambda>_. 0), procs = (\<lambda>_. sample_proc), frames = (\<lambda>_. sample_frame), freekpid = (\<lambda>_. 0), current_proc = (\<lambda>_. 0x2000),
     idleproc = (\<lambda>_. 0x4000), regs = zero_context, scheduler = 0x1000,
     slinks = list_add_tail (INIT_LIST_HEAD \<lparr>lnext = (\<lambda>x. x), lprev = (\<lambda>x. x)\<rparr> 0x1000) (sched_node 0x2000) 0x1000,
     node_p = (\<lambda>n. if n = 0x1000 then 0 else n - 380), sched_lock = free_lock, sched_intrflags = 0, initproc = 0\<rparr>"

lemma sample_sys_has: "sched_has sample_sys [0x2000]"
  using list_rep_add_tail[OF list_rep_init[of "\<lparr>lnext = (\<lambda>x. x), lprev = (\<lambda>x. x)\<rparr>" "0x1000"], of "sched_node 0x2000"]
  by (simp add: sched_has_def sample_sys_def sched_list_def sched_node_def)

theorem sched_list_refines_witness: "find sample_sys 7 0 = Some 0x2000 \<and> sched_has (proc_remove 0x2000 sample_sys) []"
  using sched_list_refines[OF sample_sys_has, of 7 0 _ "[]" "0x2000" "[]"] by (simp add: sample_sys_def sample_proc_def)

theorem schedule_always_idles_witness:
  "\<exists>st'. schedule 0 sample_sys = rret st' \<and> current_proc st' 0 = 0x4000 \<and> state (procs st' 0x4000) = PS_ONPROC"
  using schedule_always_idles[OF sample_sys_has, of 0] by (auto simp: sample_sys_def sample_proc_def free_lock_def lock_free_def)

section \<open>Early mappings and handlers\<close>


definition sample_early :: early_kmmap where
  "sample_early = \<lparr>queue = (\<lambda>_. \<lparr>em_paddr = 0, em_vaddr = 0, em_size = 0, em_type = EARLY_MAPPING_OTHER\<rparr>), queue_size = 0, mem_top = 0, kmmap_top = 0\<rparr>"


text \<open>
  C29: From the cleared queue, every sequence of additions of handlers keeps the first ten, in order, refuses each of the others with
  \<^verbatim>\<open>EOF\<close>, and never panics; \<^verbatim>\<open>mmu_handlers_apply\<close> then runs the kept ones in order.
\<close>

theorem mmu_handlers_run_in_order:
  "\<exists>q'. mq.add_all es (mmu_handlers_clear q) = Done (q', replicate (min (length es) 10) 0 @ replicate (length es - 10) EOF) \<and>
     mmu_handlers_apply q' s = fold (\<lambda>h s. h s) (take 10 es) s"
  using mq.add_all_from_clear[of es q] mmu_handlers_apply_queue by fastforce

section \<open>Formatted output\<close>

text \<open>
  C17: \<^verbatim>\<open>vsnprintf\<close> returns for every format in which each \<^verbatim>\<open>%\<close> starts a complete conversion, and the text for a buffer of
  \<open>sz\<close> characters is the unbounded one, if it fits with its final zero, and otherwise its beginning, cut and terminated.
\<close>

theorem vsnprintf_cuts_text:
  assumes "fmt_closed False fmt" "0 < sz"
  shows "\<exists>out. vsnprintf 0 ap strs fmt = Some (out, length out - 1) \<and> last out = CHR 0x00 \<and>
    vsnprintf sz ap strs fmt = Some (if length out < sz then (out, length out - 1) else (take (sz - 1) out @ [CHR 0x00], sz))"
proof -
  obtain out n where r: "vsnprintf 0 ap strs fmt = Some (out, n)"
    using fmt_run_returns[OF assms(1)] by (metis vsnprintf_def surj_pair)
  then have "last out = CHR 0x00" "n = length out - 1" using fmt_run_extends unfolding vsnprintf_def by blast+
  then show ?thesis using r vsnprintf_truncates[OF r assms(2)] by auto
qed

theorem vsnprintf_cuts_text_witness: "\<exists>r. vsnprintf 4 (\<lambda>_. 7) (\<lambda>_. []) ''n = %d'' = Some r"
  using vsnprintf_cuts_text[of "''n = %d''" 4 "\<lambda>_. 7" "\<lambda>_. []"] by (auto simp: is_digit_def)

text \<open>
  C18: The digits that are printed for an unsigned number in bases 2 to 16 stand for this number; with a
  width, only for its remainder by this power of the base, so that high digits are lost.
\<close>

theorem print_uint_digits:
  assumes "2 \<le> base" "base \<le> 16" "0 \<le> w"
  shows "number base (rev (print_uint w 0 (uint_buf base u))) = (if w = 0 then unat u else unat u mod base ^ nat w)"
  by (rule print_uint_value[OF assms])

theorem print_uint_digits_witness: "number 10 (rev (print_uint 2 0 (uint_buf 10 12345))) = 45"
  using print_uint_digits[of 10 2 12345] by simp

section \<open>Copying\<close>

text \<open>
  C28: \<^verbatim>\<open>memmove\<close> copies \<open>n\<close> bytes also between overlapping ranges: the destination then has what the source had before, and nothing else changes.
\<close>

theorem memmove_copies:
  assumes "unat src + unat n < 2 ^ 32" "unat dst + unat n \<le> 2 ^ 32"
  shows "(\<forall>i<unat n. memmove m dst src n (dst + of_nat i) = m (src + of_nat i)) \<and>
    (\<forall>a. a < dst \<or> unat dst + unat n \<le> unat a \<longrightarrow> memmove m dst src n a = m a)"
proof (intro conjI allI impI)
  fix i assume i: "i < unat n"
  moreover have "unat n < 2 ^ 32" using unsigned_less[of n] by simp
  ultimately have "unat (of_nat i :: u32) = i" by (simp add: unat_of_nat)
  then show "memmove m dst src n (dst + of_nat i) = m (src + of_nat i)"
    using i by (simp add: memmove_window[OF assms] word_less_nat_alt)
next
  fix a assume "a < dst \<or> unat dst + unat n \<le> unat a"
  then have "\<not> a - dst < n"
    using assms(2) by (auto simp: word_less_nat_alt unat_sub_if')
  then show "memmove m dst src n a = m a" by (simp add: memmove_window[OF assms])
qed

theorem memmove_copies_witness: "memmove (\<lambda>a. ucast a) 0x1002 0x1000 8 (0x1002 + of_nat 4) = 4"
proof -
  have "\<forall>i<8. memmove (\<lambda>a. ucast a) 0x1002 0x1000 8 (0x1002 + of_nat i) = ucast (0x1000 + of_nat i :: u32)"
    using memmove_copies[of "0x1000" 8 "0x1002" "\<lambda>a. ucast a"] by simp
  then have "memmove (\<lambda>a. ucast a) 0x1002 0x1000 8 (0x1002 + of_nat 4) = ucast (0x1000 + of_nat 4 :: u32)" by (rule allE[of _ 4]) simp
  then show ?thesis by simp
qed

section \<open>The boot loader\<close>

text \<open>
  C5: The boot loader returns the entry address of the ELF image in the partition, with each of its segments in memory: the file
  part as on the disk, the rest zero. This needs a disk that follows the ATA protocol, and
  segments that stay in the address space and overwrite neither each other nor the headers that were read.
\<close>

theorem bootmain_loads_kernel:
  assumes "is_ata disk (devices s)" "d = LBA_of_first_absolute_sector (mem s) 0x7dce * SECTSIZE"
    and "m = image disk d (mem s)" "ph = 0x10000 + e_phoff m 0x10000"
    and "phdrs m ph ps" "length ps = unat (e_phnum m 0x10000)" "unat ph + 32 * length ps < 2 ^ 32"
    and "\<forall>p\<in>set ps. seg_fits d p \<and> seg_window d p \<inter> {x. unat (x - ph) < 32 * length ps} = {} \<and>
      seg_window d p \<inter> {0x10018, 0x10019, 0x1001a, 0x1001b} = {}"
    and "sorted_wrt (\<lambda>p q. seg_window d p \<inter> seg_window d q = {}) ps"
  shows "\<exists>s'. bootmain s = Some (e_entry m 0x10000, s') \<and> (\<forall>p\<in>set ps. seg_loaded disk d p (mem s'))"
  by (rule bootmain_loads[OF assms])

text \<open>A kernel with one segment of four bytes on the disk and eight in memory, at \<^verbatim>\<open>0x100000\<close>.\<close>

definition sample_disk :: "nat \<Rightarrow> u8" where
  "sample_disk = (\<lambda>_. 0)(26 := 0x10, 28 := 52, 44 := 1, 57 := 0x10, 66 := 0x10, 68 := 4, 72 := 8, 0x1000 := 0xab)"

definition sample_boot :: mach where
  "sample_boot = sample_mach\<lparr>devices := ata_devices sample_disk, mem := (\<lambda>_. 0)\<rparr>"

definition sample_phdr :: elf32_phdr where
  "sample_phdr = \<lparr>p_offset = 0x1000, p_paddr = 0x100000, p_filesz = 4, p_memsz = 8\<rparr>"

lemma sample_header:
  "image sample_disk 0 (\<lambda>_. 0) = (\<lambda>x. if unat (x - 0x10000) < 10240 then sample_disk (unat (x - 0x10000)) else 0)"
  by (simp add: image_def paste_def)

theorem bootmain_loads_kernel_witness:
  "\<exists>s'. bootmain sample_boot = Some (0x100000, s') \<and> seg_loaded sample_disk 0 sample_phdr (mem s')"
proof -
  let ?m = "image sample_disk 0 (\<lambda>_. 0)"
  have d: "LBA_of_first_absolute_sector (mem sample_boot) 0x7dce * SECTSIZE = 0"
    by (simp add: LBA_of_first_absolute_sector_def sample_boot_def load32_def)
  have h: "e_phoff ?m 0x10000 = 52" "e_phnum ?m 0x10000 = 1" "e_entry ?m 0x10000 = 0x100000" "phdr_at ?m 0x10034 = sample_phdr"
    by (simp_all add: sample_header e_phoff_def e_phnum_def e_entry_def phdr_at_def sample_phdr_def load32_def load16_def)
       (simp_all add: sample_disk_def)
  have w: "seg_window 0 sample_phdr \<subseteq> {0x100000 ..< 0x100200}" "seg_fits 0 sample_phdr"
    by (auto simp: seg_window_def seg_fits_def sample_phdr_def sectors_def SECTSIZE_def unat_sub_if' word_le_nat_alt word_less_nat_alt split: if_splits)
  have t: "{x :: u32. unat (x - 0x10034) < 32} \<subseteq> {..< 0x100000}"
    by (auto simp: unat_sub_if' word_less_nat_alt split: if_splits)
  have "seg_window 0 sample_phdr \<inter> {x. unat (x - 0x10034) < 32} = {}" using w(1) t by fastforce
  moreover have "{0x10018, 0x10019, 0x1001a, 0x1001b} \<inter> seg_window 0 sample_phdr = {}" using w(1) by auto
  ultimately have "\<exists>s'. bootmain sample_boot = Some (e_entry ?m 0x10000, s') \<and> (\<forall>p\<in>set [sample_phdr]. seg_loaded sample_disk 0 p (mem s'))"
    using h d w(2)
    by (intro bootmain_loads_kernel[where ph = "0x10034"]) (simp_all add: sample_boot_def is_ata_devices Int_commute)
  then show ?thesis using h by simp
qed

section \<open>Output and interrupts\<close>

text \<open>
  C13: With a console that is ready, \<^verbatim>\<open>kprintf\<close> returns for every format with complete conversions: what \<^verbatim>\<open>vsnprintf\<close> stores in
  a buffer of \<^verbatim>\<open>BUFSIZ\<close> characters is sent to the serial port, with a carriage return before each line feed. The console stays ready and
  the flags of the CPU are as before.
\<close>

theorem kprintf_prints:
  assumes "console_ready port k" "fmt_closed False fmt"
  shows "\<exists>k' buf n. vsnprintf BUFSIZ ap strs fmt = Some (buf, n) \<and> kprintf c ap strs fmt k = rret (int n, k') \<and> console_ready port k' \<and>
    printed port k' = printed port k @ crlf (takeWhile (\<lambda>c. c \<noteq> CHR 0x00) buf) \<and> eflags (km k') = eflags (km k)"
  by (rule kprintf_ready[OF assms])

text \<open>A serial port that is always ready, at \<^verbatim>\<open>0x3f8\<close>: the device at \<^verbatim>\<open>0x100\<close> on the port bus at \<^verbatim>\<open>0x200\<close>.\<close>

definition sample_kern :: kern where
  "sample_kern = \<lparr>km = sample_mach\<lparr>devices := \<lambda>_ _. 0x20\<rparr>,
     devs = (\<lambda>_. zero_device)(0x100 := zero_device\<lparr>dev_bus := 0x200, dev_base := 0x3f8\<rparr>, 0x200 := early_port_bus\<lparr>get_read_fp := PORT_GET, get_write_fp := PORT_GET\<rparr>),
     emaps = sample_early, uu_putchar = Some Early_Console_Putchar, uu_puts = Some Default_Kputs, con_lock = free_lock, uu_mapped_bus = 0,
     uu_mapped_base = 0, my_device = 0, early_uart = 0x100\<rparr>"

lemma sample_kern_ready: "console_ready 0x3f8 sample_kern" "becomes_ready (\<lambda>_ _. 0x20) 0x3f8 0x20"
  by (simp_all add: console_ready_def prints_on_def becomes_ready_def on_port_bus_def sample_kern_def early_port_bus_def lock_free_def free_lock_def)

theorem kprintf_prints_witness:
  "\<exists>k'. kprintf 0 (\<lambda>_. 0) (\<lambda>_. []) [CHR ''a'', CHR 0x0A] sample_kern = rret (2, k') \<and> printed 0x3f8 k' = [97, 13, 10]"
proof -
  have "vsnprintf 0 (\<lambda>_. 0) (\<lambda>_. []) [CHR ''a'', CHR 0x0A] = Some ([CHR ''a'', CHR 0x0A, CHR 0x00], 2)"
    unfolding vsnprintf_def by (subst fmt_run_plain) simp_all
  then have v: "vsnprintf BUFSIZ (\<lambda>_. 0) (\<lambda>_. []) [CHR ''a'', CHR 0x0A] = Some ([CHR ''a'', CHR 0x0A, CHR 0x00], 2)"
    using vsnprintf_truncates[of "\<lambda>_. 0" "\<lambda>_. []" "[CHR ''a'', CHR 0x0A]" _ _ BUFSIZ] by (simp add: BUFSIZ_def)
  have "printed 0x3f8 sample_kern = []" by (simp add: sample_kern_def sample_mach_def)
  then show ?thesis
    using kprintf_prints[OF sample_kern_ready(1), of "[CHR ''a'', CHR 0x0A]" "\<lambda>_. 0" "\<lambda>_. []" 0] v by auto
qed

text \<open>
  C15: Every gate of the interrupt descriptor table is a present gate to the kernel code segment, at the entry point of its vector; only
  the gate of the system call can be used from user mode; the gates of the external interrupts are interrupt gates, all others trap gates. The table
  register covers all 256 gates.
\<close>

theorem idt_gates_typed:
  assumes "idt_init addr idt_addr (idt, s) = (idt', s')"
  shows "idtr s' = (0x7ff, idt_addr) \<and> (\<forall>v<256. gate_offset (idt' v) = addr (entry_of v) \<and> gate_cs (idt' v) = 8 \<and> gate_p (idt' v) = 1 \<and>
    gate_s (idt' v) = 0 \<and> gate_dpl (idt' v) = (if v = 0x80 then 3 else 0) \<and>
    gate_type (idt' v) = (if v \<in> {32, 33, 46, 70} then INTERRUPT_GATE_32 else TRAP_GATE_32))"
proof -
  have "idtr s' = (0x7ff, idt_addr)" using write_idtr_table[of addr idt_addr idt s] assms by simp
  moreover have "(ucast KCODE_SELECTOR :: u16) = 8" by (simp add: SEG_KCODE_def)
  ultimately show ?thesis using idt_init_gates[OF assms] by (simp add: gate_ok_def)
qed

theorem idt_gates_typed_witness:
  "\<exists>idt' s'. idt_init (\<lambda>e. if e = Vecsys then 0x12345678 else 0) 0x5000 (\<lambda>_. \<lparr>off_15_0 = 0, gate_cs = 0, gate_args = 0, gate_rsv1 = 0, gate_type = 0,
     gate_s = 0, gate_dpl = 0, gate_p = 0, off_31_16 = 0\<rparr>, sample_mach) = (idt', s') \<and> gate_offset (idt' 0x80) = 0x12345678 \<and> gate_dpl (idt' 0x80) = 3"
proof -
  obtain idt' s' where r: "idt_init (\<lambda>e. if e = Vecsys then 0x12345678 else 0) 0x5000 (\<lambda>_. \<lparr>off_15_0 = 0, gate_cs = 0, gate_args = 0, gate_rsv1 = 0, gate_type = 0,
     gate_s = 0, gate_dpl = 0, gate_p = 0, off_31_16 = 0\<rparr>, sample_mach) = (idt', s')" by fastforce
  have "\<forall>v<256. gate_offset (idt' v) = (if entry_of v = Vecsys then 0x12345678 else 0) \<and> gate_dpl (idt' v) = (if v = 0x80 then 3 else 0)"
    using idt_gates_typed[OF r] by simp
  then have "gate_offset (idt' 0x80) = 0x12345678" "gate_dpl (idt' 0x80) = 3" by (simp_all add: entry_of_def)
  then show ?thesis using r by blast
qed

text \<open>
  C14: What an interrupt of each vector does, from the number its entry point pushes: a system call returns 0 in
  \<^verbatim>\<open>eax\<close>, the exceptions below 15 and the vectors 32, 33 and 46 are only acknowledged, vector 70 halts the CPU, and every other
  vector, among them those of spurious interrupts (63) and of errors (51) that the local APIC is told, panics.
\<close>

theorem interrupts_dispatched:
  assumes "v < 256" "tf_trapno tf = pushed_trapno (entry_of v)"
  shows "irq_handle c tf (x, k) =
    (if v = 0x80 then rret (Returns (tf\<lparr>tf_eax := 0\<rparr>, x, k))
     else if v < 15 \<or> v \<in> {32, 33, 46} then rret (Returns (tf, x, k\<lparr>km := lapiceoi (lapic x) (km k)\<rparr>))
     else if v = 70 then rbind (uu_local_panic c (x, k)) (\<lambda>st. rret (Halts st))
     else rbind (panic c (\<lambda>_. 0) (\<lambda>_. []) (''Unhandled exception!'' @ nl) (x, k)) (\<lambda>st. rret (Halts st)))"
  by (rule irq_handle_dispatch[OF assms])

definition zero_ts :: taskstate where
  "zero_ts = \<lparr>ts_link = 0, esp0 = 0, ss0 = 0, padding1 = 0, esp1 = 0, ss1 = 0, padding2 = 0, esp2 = 0, ss2 = 0,
     padding3 = 0, ts_cr3 = 0, ts_eip = 0, ts_eflags = 0, ts_eax = 0, ts_ecx = 0, ts_edx = 0, ts_ebx = 0, ts_esp = 0,
     ts_ebp = 0, ts_esi = 0, ts_edi = 0, ts_es = 0, padding4 = 0, ts_cs = 0, padding5 = 0, ts_ss = 0, padding6 = 0,
     ts_ds = 0, padding7 = 0, ts_fs = 0, padding8 = 0, ts_gs = 0, padding9 = 0, ts_ldt = 0, padding10 = 0, ts_t = 0,
     ts_iomb = 0\<rparr>"

definition sample_smp :: smp where
  "sample_smp = \<lparr>cpus = (\<lambda>_. \<lparr>cpu_proc = 0, apicid = 0, cpu_scheduler = 0, cpu_ts = zero_ts, cpu_gdt = (\<lambda>_. SEG 0 0 0 0), started = 0, ncli = 0,
     intena = 0, cpu_percpu = 0\<rparr>), cpus_addr = 0x9000, ismp = True, ncpu = 0, ioapicid = 0, lapic = 0, ioapic = 0, irqmask = initial_irqmask, cpunum_n = 0\<rparr>"

theorem interrupts_dispatched_witness:
  "irq_handle 0 (sample_frame\<lparr>tf_trapno := 0x80, tf_eax := 7\<rparr>) (sample_smp, sample_kern) =
     rret (Returns (sample_frame\<lparr>tf_trapno := 0x80, tf_eax := 0\<rparr>, sample_smp, sample_kern))"
  using interrupts_dispatched[of "0x80" "sample_frame\<lparr>tf_trapno := 0x80, tf_eax := 7\<rparr>" 0 sample_smp sample_kern]
  by (simp add: entry_of_def)

text \<open>
  C16: After \<^verbatim>\<open>picinit\<close>, from whatever state the two 8259A were in, and any sequence of \<^verbatim>\<open>picenable\<close>, exactly line 2 and the
  lines that were enabled are not masked, and line \<open>i\<close> has vector \<open>32 + i\<close>.
\<close>

theorem pic_lines:
  assumes "fold picenable irqs (picinit (initial_irqmask, s)) = (m, s')" "i < 16"
  shows "(unmasked (pic_state IO_PIC1 c1 (trace s')) (pic_state IO_PIC2 c2 (trace s')) i \<longleftrightarrow> i = 2 \<or> i \<in> set irqs) \<and>
    line_vector (pic_state IO_PIC1 c1 (trace s')) (pic_state IO_PIC2 c2 (trace s')) i = 32 + of_nat i"
proof -
  have "initial_irqmask \<noteq> 0xFFFF" by (simp add: initial_irqmask_def IRQ_SLAVE_def)
  note init = picinit_sets[OF this, of c1 c2 s]
  have all: "pics_set c1 c2 (m, s')" "bit m i \<longleftrightarrow> bit initial_irqmask i \<and> i \<notin> set irqs"
    using picenable_all_sets[of c1 c2 "picinit (initial_irqmask, s)" irqs] init assms by auto
  have "bit initial_irqmask i \<longleftrightarrow> i \<noteq> 2"
  proof -
    have e: "initial_irqmask = NOT (push_bit 2 1)" by (simp add: initial_irqmask_def IRQ_SLAVE_def)
    show ?thesis unfolding e bit_not_iff bit_push_bit_iff bit_1_iff using assms(2) by auto
  qed
  then show ?thesis using pics_unmasked[OF all(1) assms(2)] all(2) by auto
qed

theorem pic_lines_witness:
  "\<exists>m s'. fold picenable [0, 4] (picinit (initial_irqmask, sample_mach)) = (m, s') \<and>
     (\<forall>c1 c2. unmasked (pic_state IO_PIC1 c1 (trace s')) (pic_state IO_PIC2 c2 (trace s')) 4 \<and>
        \<not> unmasked (pic_state IO_PIC1 c1 (trace s')) (pic_state IO_PIC2 c2 (trace s')) 14)"
proof -
  obtain m s' where r: "fold picenable [0, 4] (picinit (initial_irqmask, sample_mach)) = (m, s')" by fastforce
  have "unmasked (pic_state IO_PIC1 c1 (trace s')) (pic_state IO_PIC2 c2 (trace s')) 4 \<and>
        \<not> unmasked (pic_state IO_PIC1 c1 (trace s')) (pic_state IO_PIC2 c2 (trace s')) 14" for c1 c2
    using pic_lines[OF r, of 4 c1 c2] pic_lines[OF r, of 14 c1 c2] by simp
  then show ?thesis using r by blast
qed

section \<open>Devices and start-up\<close>

text \<open>
  C21: The device list: adding a device with memory for its entry succeeds and keeps the list sorted by device number. A lookup of
  another number gives what it gave before, and a lookup of this number gives the device, unless an earlier one has it.
\<close>

theorem devlist_add_lookup:
  assumes "dev_list d es" "sorted_wrt (\<lambda>a b. entry_no d a \<le> entry_no d b) es"
    and "kmalloc sa sizeof_device_entry 0 (dheap d) = rret (h, this)" "this \<noteq> 0" "dev_node this \<notin> set (dhead d # map dev_node es)"
  shows "\<exists>d' es'. devlist_add sa dev d = rret (d', 0) \<and> dev_list d' es' \<and> set es' = insert this (set es) \<and>
    sorted_wrt (\<lambda>a b. entry_no d' a \<le> entry_no d' b) es' \<and>
    (\<forall>n. n \<noteq> devno (ddev d dev) \<longrightarrow> devlist_from_id n d' = devlist_from_id n d) \<and>
    devlist_from_id (devno (ddev d dev)) d' =
      (if \<exists>e\<in>set es. entry_no d e = devno (ddev d dev) then devlist_from_id (devno (ddev d dev)) d else Some dev)"
proof -
  define n0 where "n0 = devno (ddev d dev)"
  define xs ys where xy: "xs = takeWhile (\<lambda>e. entry_no d e \<le> n0) es" "ys = dropWhile (\<lambda>e. entry_no d e \<le> n0) es"
  obtain d' where d': "devlist_add sa dev d = rret (d', 0)" "dev_list d' (xs @ this # ys)" "dkern d' = dkern d" "entry_dev d' = (entry_dev d)(this := dev)"
    using devlist_add_inserts[OF assms(1,3-5), of xs dev ys] xy by (auto simp: n0_def)
  have es: "es = xs @ ys" by (simp add: xy)
  have this: "this \<notin> set es" using assms(5) by auto
  then have no: "entry_no d' e = entry_no d e" "entry_dev d' e = entry_dev d e" if "e \<in> set es" for e using that d'(3,4) by auto
  have no_this: "entry_no d' this = n0" "entry_dev d' this = dev" using d'(3,4) by (simp_all add: n0_def)
  have sorted: "sorted_wrt (\<lambda>a b. entry_no d' a \<le> entry_no d' b) (xs @ this # ys)"
    using insert_sorted[OF assms(2), of "entry_no d'" this] no(1) d'(3) by (simp add: no_this(2) xy n0_def)
  have find: "List.find (\<lambda>e. entry_no d' e = n) (xs @ this # ys) =
      (if n = n0 \<and> List.find (\<lambda>e. entry_no d e = n0) xs = None then Some this else List.find (\<lambda>e. entry_no d e = n) es)" for n
  proof -
    have "List.find (\<lambda>e. entry_no d' e = n) zs = List.find (\<lambda>e. entry_no d e = n) zs" if "set zs \<subseteq> set es" for zs
      using that no(1) by (intro find_cong) auto
    moreover have "set xs \<subseteq> set es" "set ys \<subseteq> set es" using es by auto
    ultimately show ?thesis unfolding es using no_this(1) by (auto simp: find_append split: option.splits)
  qed
  have greater: "entry_no d e \<noteq> n0" if ey: "e \<in> set ys" for e
  proof -
    obtain y zs where ys: "ys = y # zs" using ey by (cases ys) auto
    then have "\<not> entry_no d y \<le> n0" using hd_dropWhile[of "\<lambda>e. entry_no d e \<le> n0" es] xy(2) by auto
    moreover have "entry_no d y \<le> entry_no d e" using assms(2) ey unfolding es ys by (auto simp: sorted_wrt_append)
    ultimately show ?thesis by auto
  qed
  have look: "devlist_from_id n d' = (if n = n0 \<and> List.find (\<lambda>e. entry_no d e = n0) xs = None then Some dev else devlist_from_id n d)" for n
    unfolding devlist_lookup(1)[OF d'(2)] devlist_lookup(1)[OF assms(1)] find
    using no(2) no_this(2) by (auto dest: find_in split: option.splits)
  have "List.find (\<lambda>e. entry_no d e = n0) xs = None \<longleftrightarrow> \<not> (\<exists>e\<in>set es. entry_no d e = n0)"
    unfolding find_None_iff es using greater by auto
  then show ?thesis using d'(1,2) sorted look es by (intro exI[of _ d'] exI[of _ "xs @ this # ys"]) (auto simp: n0_def)
qed

text \<open>An empty device list with the head at \<^verbatim>\<open>0x700\<close>, and an allocator that returns \<^verbatim>\<open>0x800\<close>.\<close>

definition sample_dsys :: "area dsys" where
  "sample_dsys = \<lparr>dkern = sample_kern, dheap = sample_heap (\<lambda>_. 0), dlinks = INIT_LIST_HEAD \<lparr>lnext = (\<lambda>x. x), lprev = (\<lambda>x. x)\<rparr> 0x700,
     entry_dev = (\<lambda>_. 0), dhead = 0x700, uu_index = Devlist_Index, devsw = (\<lambda>_. 0), drivers = (\<lambda>_. 0), ndrivers = 0, drvs = (\<lambda>_. uart_drv)\<rparr>"

definition sample_sa :: "area simple_allocator" where
  "sample_sa = \<lparr>sa_alloc = (\<lambda>_ _ h. Some (Done (h, 0x800))), sa_free = (\<lambda>_ h. Some h), sa_size = (\<lambda>_ _. 0)\<rparr>"

theorem devlist_add_lookup_witness:
  "\<exists>d'. devlist_add sample_sa 0x100 sample_dsys = rret (d', 0) \<and> devlist_from_id 0 d' = Some 0x100"
proof -
  have "kmalloc sample_sa sizeof_device_entry 0 (dheap sample_dsys) = rret (dheap sample_dsys, 0x800)"
    by (simp add: kmalloc_def sample_sa_def sizeof_device_entry_def)
  moreover have "dev_list sample_dsys []" using list_rep_init by (simp add: dev_list_def sample_dsys_def)
  moreover have "devno (ddev sample_dsys 0x100) = 0" by (simp add: sample_dsys_def sample_kern_def zero_device_def)
  ultimately show ?thesis
    using devlist_add_lookup[of sample_dsys "[]" sample_sa _ "0x800" "0x100"] by (auto simp: dev_node_def sample_dsys_def)
qed



text \<open>
  C20: The evaluation of a valid configuration table whose entries have known types returns: the machine counts as a multiprocessor, the address of
  the local APIC is that of the table, and the first eight processor entries give the CPUs, in order, with their identifiers.
\<close>

theorem mpinit_counts_cpus:
  assumes "mpconfig (mem s) = Some (Some (mp, conf))" "entries_at (mem s) (conf + 44) es"
    and "unat (conf_length (mem s) conf) = 44 + sum_list (map entry_size es)" "unat conf + unat (conf_length (mem s) conf) < 2 ^ 32" "ncpu x = 0"
  shows "\<exists>x' s'. mpinit (x, s) = Some (x', s') \<and> ismp x' \<and> lapic x' = conf_lapicaddr (mem s) conf \<and> mem s' = mem s \<and>
    ncpu x' = min 8 (length (cpu_ids es)) \<and> (\<forall>i<ncpu x'. apicid (cpus x' i) = cpu_ids es ! i)"
proof -
  define x1 where "x1 = x\<lparr>ismp := True, lapic := conf_lapicaddr (mem s) conf\<rparr>"
  define x2 where "x2 = fold record_entry es x1"
  define n where "n = sum_list (map entry_size es)"
  have up: "unat (conf + 44) = unat conf + 44" using assms(3,4) by (simp add: unat_word_ariths)
  have "ucast (conf_length (mem s) conf) = (of_nat (44 + n) :: u32)"
    using assms(3) by (metis n_def of_nat_unat ucast_eq uint_nat of_int_of_nat_eq)
  then have e: "conf + ucast (conf_length (mem s) conf) = conf + 44 + of_nat n" by simp
  have loop: "mp_loop (mem s) (conf + ucast (conf_length (mem s) conf)) (conf + sizeof_mpconf) x1 = Some x2"
    unfolding x2_def using assms(2-4) up e by (intro mp_loop_entries) (simp_all add: sizeof_mpconf_def n_def)
  have keep: "ismp (fold record_entry es y) = ismp y \<and> lapic (fold record_entry es y) = lapic y" for y
    by (rule record_entries_keep)
  have x2: "ismp x2" "lapic x2 = conf_lapicaddr (mem s) conf" using keep[of x1] by (simp_all add: x2_def x1_def)
  have n2: "ncpu x2 = min 8 (length (cpu_ids es))" using record_entries_ncpu[of x1 es] assms(5) by (simp add: x2_def x1_def NCPU_def)
  have ids: "apicid (cpus x2 i) = cpu_ids es ! i" if "i < ncpu x2" for i
    using record_entries_cpus[of x1 i es] that n2 assms(5) by (simp add: x2_def[symmetric]) (simp add: x1_def NCPU_def)
  have "\<exists>s'. mpinit (x, s) = Some (x2, s') \<and> mem s' = mem s"
    using assms(1) loop x2(1) by (simp add: mpinit_def x1_def[symmetric] Let_def outb_def inb_def log_io_def)
  then show ?thesis using x2 n2 ids by blast
qed

text \<open>A pointer structure at \<^verbatim>\<open>0x9fc00\<close>, and at \<^verbatim>\<open>0x1000\<close> a table with the CPUs 0 and 1 and an I/O APIC with number 2.\<close>

definition sample_firmware :: vmem where
  "sample_firmware = (\<lambda>_. 0)(0x8000040E := 0xC0, 0x8000040F := 0x9F,
     0x8009FC00 := of_char CHR ''_'', 0x8009FC01 := of_char CHR ''M'', 0x8009FC02 := of_char CHR ''P'', 0x8009FC03 := of_char CHR ''_'',
     0x8009FC05 := 0x10, 0x8009FC08 := 1, 0x8009FC09 := 4, 0x8009FC0A := 144,
     0x80001000 := of_char CHR ''P'', 0x80001001 := of_char CHR ''C'', 0x80001002 := of_char CHR ''M'', 0x80001003 := of_char CHR ''P'',
     0x80001004 := 92, 0x80001006 := 4, 0x80001007 := 141, 0x80001026 := 0xE0, 0x80001027 := 0xFE,
     0x80001041 := 1, 0x80001054 := 2, 0x80001055 := 2)"

lemma sample_firmware_mp:
  "mem_is sample_firmware 0x8009FC00 ''_MP_''" "sum_bytes sample_firmware 0x8009FC00 16 = 0" "mp_physaddr sample_firmware 0x8009FC00 = 0x1000"
  by (simp_all add: mem_is_def sum_bytes_def for_loop_def mp_physaddr_def load32_def load16_def upt_rec[of _ "numeral _"] sample_firmware_def)

lemma sample_firmware_conf:
  "mem_is sample_firmware 0x80001000 ''PCMP''" "conf_length sample_firmware 0x80001000 = 92" "conf_version sample_firmware 0x80001000 = 4"
  "conf_lapicaddr sample_firmware 0x80001000 = 0xFEE00000" "sum_bytes sample_firmware 0x80001000 92 = 0"
  by (simp_all add: mem_is_def sum_bytes_def for_loop_def conf_length_def conf_version_def conf_lapicaddr_def load32_def load16_def upt_rec[of _ "numeral _"]
      sample_firmware_def)

lemma sample_firmware_config: "mpconfig sample_firmware = Some (Some (0x8009FC00, 0x80001000))"
proof -
  have b: "sample_firmware 0x8000040E = 0xC0" "sample_firmware 0x8000040F = 0x9F" by (simp_all add: sample_firmware_def)
  have "mpsearch1 sample_firmware 0x9FC00 1024 = Some 0x8009FC00"
    unfolding mpsearch1_def Let_def using sample_firmware_mp by (subst mpsearch_loop.simps) (simp add: P2V_def KERN_BASE_def sizeof_mp_def)
  then have "mpsearch sample_firmware = Some 0x8009FC00" using b by (simp add: mpsearch_def P2V_def KERN_BASE_def)
  then show ?thesis using sample_firmware_mp(3) sample_firmware_conf by (simp add: mpconfig_def P2V_def KERN_BASE_def Let_def)
qed

theorem mpinit_counts_cpus_witness:
  "\<exists>x' s'. mpinit (sample_smp\<lparr>ncpu := 0\<rparr>, sample_mach\<lparr>mem := sample_firmware\<rparr>) = Some (x', s') \<and> ncpu x' = 2 \<and> lapic x' = 0xFEE00000 \<and>
     apicid (cpus x' 1) = 1"
proof -
  have e: "entries_at sample_firmware 0x8000102C [Cpu_Entry 0, Cpu_Entry 1, Ioapic_Entry 2]"
    by (simp add: mp_types sample_firmware_def)
  show ?thesis
    using mpinit_counts_cpus[of "sample_mach\<lparr>mem := sample_firmware\<rparr>" "0x8009FC00" "0x80001000" "[Cpu_Entry 0, Cpu_Entry 1, Ioapic_Entry 2]" "sample_smp\<lparr>ncpu := 0\<rparr>"]
      sample_firmware_config sample_firmware_conf e by auto
qed

text \<open>
  C12: The initialization functions of the kernel, one after the other, with a console that is ready, an empty device list and an allocator that
  gives distinct blocks: all succeed, and at the end the serial driver has the console, which is ready on the same port.
\<close>

theorem drivers_take_console:
  assumes "console_ready 0x3f8 (dkern d)" "dev_list d []" "drvs d memd = mem_drv" "drvs d portd = port_drv" "drvs d uartd = uart_drv"
    and "gives sa driver_requests (dheap d) [mb, me, pb, pe, ub, ue]" "distinct [0, mb, pb, ub]" "distinct [0, me, pe, ue]"
    and "dhead d \<notin> dev_node ` {me, pe, ue}"
  shows "\<exists>d'. do_initcalls (kernel_initcalls c sa memd portd uartd) d = rret (d', 0) \<and> console_ready 0x3f8 (dkern d') \<and> my_device (dkern d') = ub \<and>
    uu_putchar (dkern d') = Some Console_Putchar"
  by (rule drivers_started[OF assms])

text \<open>An allocator that gives consecutive blocks of \<^verbatim>\<open>0x1000\<close> bytes.\<close>

definition bump_sa :: "area simple_allocator" where
  "bump_sa = sample_sa\<lparr>sa_alloc := \<lambda>_ _ h. Some (Done (h\<lparr>tmp_mem_pt := tmp_mem_pt h + 0x1000\<rparr>, tmp_mem_pt h))\<rparr>"

lemma bump_kmalloc: "sz \<le> 2048 \<Longrightarrow> \<exists>h'. kmalloc bump_sa sz flags h = rret (h', tmp_mem_pt h) \<and> tmp_mem_pt h' = tmp_mem_pt h + 0x1000"
  by (auto simp: kmalloc_def bump_sa_def hmemset_def)

lemma bump_gives: "\<forall>r\<in>set rs. fst r \<le> 2048 \<Longrightarrow> gives bump_sa rs h (map (\<lambda>i. tmp_mem_pt h + 0x1000 * of_nat i) [0..<length rs])"
proof (induction rs arbitrary: h)
  case (Cons r rs)
  obtain sz flags where r: "r = (sz, flags)" by fastforce
  obtain h' where h': "kmalloc bump_sa sz flags h = rret (h', tmp_mem_pt h)" "tmp_mem_pt h' = tmp_mem_pt h + 0x1000"
    using bump_kmalloc[of sz flags h] Cons.prems r by auto
  have "map (\<lambda>i. tmp_mem_pt h + 0x1000 * of_nat i) [0..<length (r # rs)] = tmp_mem_pt h # map (\<lambda>i. tmp_mem_pt h' + 0x1000 * of_nat i) [0..<length rs]"
    by (simp add: upt_conv_Cons h'(2) map_Suc_upt[symmetric] algebra_simps del: upt_Suc)
  then show ?case using Cons h'(1) r by auto
qed simp

theorem drivers_take_console_witness:
  "\<exists>d'. do_initcalls (kernel_initcalls 0 bump_sa 0x10 0x20 0x30) (sample_dsys\<lparr>drvs := (\<lambda>_. uart_drv)(0x10 := mem_drv, 0x20 := port_drv)\<rparr>) = rret (d', 0) \<and>
     my_device (dkern d') = 0xC000"
proof -
  let ?d = "sample_dsys\<lparr>drvs := (\<lambda>_. uart_drv)(0x10 := mem_drv, 0x20 := port_drv)\<rparr>"
  have r: "\<forall>r\<in>set driver_requests. fst r \<le> 2048"
    by (simp add: driver_requests_def sizeof_bus_device_def sizeof_device_entry_def sizeof_chr_device_def)
  have "map (\<lambda>i. tmp_mem_pt (dheap ?d) + 0x1000 * of_nat i) [0..<length driver_requests] = [0x8000, 0x9000, 0xA000, 0xB000, 0xC000, 0xD000]"
    by (simp add: driver_requests_def sample_dsys_def sample_heap_def upt_rec)
  then have "gives bump_sa driver_requests (dheap ?d) [0x8000, 0x9000, 0xA000, 0xB000, 0xC000, 0xD000]"
    using bump_gives[OF r, of "dheap ?d"] by (simp only:)
  moreover have "dev_list ?d []" using list_rep_init by (simp add: dev_list_def sample_dsys_def)
  moreover have "dkern ?d = sample_kern" "dhead ?d = 0x700" by (simp_all add: sample_dsys_def)
  ultimately show ?thesis
    using drivers_take_console[of ?d "0x10" "0x20" "0x30" bump_sa "0x8000" "0x9000" "0xA000" "0xB000" "0xC000" "0xD000" 0] sample_kern_ready(1)
    by (auto simp: dev_node_def)
qed

end
